(* ===== verification/Prelude.thy ===== *)
theory Prelude
  imports Main "HOL-Library.Word"
begin

text \<open>
  Shared vocabulary of the development: the machine integers of the C++ sources as words, memory as
  a byte-addressed function, little-endian loads and stores (what
  \<^verbatim>\<open>*reinterpret_cast<T *>(buf + offset)\<close> does on the x86 machines the program targets), and the
  list and map lemmas that several components use.

  A buffer pointer is a \<^typ>\<open>nat\<close> address into a \<open>mem\<close>; pointer arithmetic
  \<^verbatim>\<open>buf + offset\<close> with a \<^verbatim>\<open>size_t\<close> offset is \<open>buf + unat offset\<close>. Stores are total: where
  the sources could run past an allocation, the components prove a frame lemma that says which
  addresses an operation can change.
\<close>

unbundle bit_operations_syntax

named_theorems mem_simps \<open>loads after stores\<close>

type_synonym byte = "8 word"
type_synonym u16 = "16 word"
type_synonym u32 = "32 word"
type_synonym u64 = "64 word"
type_synonym mem = "nat \<Rightarrow> byte"

subsection \<open>Words\<close>

lemma unat_add_small:
  fixes x y :: "'a::len word"
  shows "unat x + unat y < 2 ^ LENGTH('a) \<Longrightarrow> unat (x + y) = unat x + unat y"
  by (simp add: unat_add_lem)

lemma unat_of_nat_small:
  "n < 2 ^ LENGTH('a) \<Longrightarrow> unat (of_nat n :: 'a::len word) = n"
  by (simp add: unat_of_nat)

lemma unat_of_nat_le: "unat (of_nat n :: 'a::len word) \<le> n"
  by (simp add: unat_of_nat)

lemma of_nat_eq_u64: "j < 2 ^ 64 \<Longrightarrow> k < 2 ^ 64 \<Longrightarrow> (of_nat j :: u64) = of_nat k \<longleftrightarrow> j = k"
proof -
  assume "j < 2 ^ 64" "k < 2 ^ 64"
  then have "unat (of_nat j :: u64) = j" "unat (of_nat k :: u64) = k"
    by (simp_all add: unat_of_nat_small)
  then show ?thesis by metis
qed

lemma unat_of_int_u64: "0 \<le> k \<Longrightarrow> k < 2 ^ 64 \<Longrightarrow> unat (of_int k :: u64) = nat k"
  by (simp add: unsigned_of_int take_bit_int_eq_self)

lemma sint_of_int_u32: "0 \<le> k \<Longrightarrow> k < 2 ^ 31 \<Longrightarrow> sint (of_int k :: u32) = k"
  by (simp add: signed_of_int signed_take_bit_int_eq_self)

lemma ucast_of_nat_32: "(ucast (of_nat n :: u64) :: u32) = of_nat n"
  by (rule word_unat_eq_iff [THEN iffD2])
    (simp add: unsigned_ucast_eq unsigned_of_nat take_bit_take_bit)

lemma sint_ucast_of_nat: "n < 2 ^ 31 \<Longrightarrow> sint (ucast (of_nat n :: u64) :: u32) = int n"
  by (simp add: ucast_of_nat_32 signed_of_nat signed_take_bit_int_eq_self)

lemma word_eq_of_nat: "unat w = k \<Longrightarrow> w = of_nat k"
  by auto

lemma unat_ucast_64 [simp]: "unat (ucast (w :: u32) :: u64) = unat w"
proof -
  have "unat w < 2 ^ 64"
    using unsigned_less [of w, where ?'a = nat] by simp
  then show ?thesis
    by (simp add: unsigned_ucast_eq take_bit_nat_eq_self)
qed

lemma ucast_64_of_nat: "(ucast (w :: u32) :: u64) = of_nat (unat w)"
  by (rule word_eq_of_nat) simp

lemma and_not3_eq_minus: "(w :: u64) AND NOT 3 = w - (w AND 3)"
proof -
  have "NOT w AND (w AND 3) = 0"
    by (rule bit_word_eqI) (auto simp: bit_simps)
  then have "w - (w AND 3) = w AND NOT (w AND 3)"
    by (rule disjunctive_diff_eq_and_not)
  also have "\<dots> = w AND NOT 3"
    by (rule bit_word_eqI) (auto simp: bit_simps)
  finally show ?thesis by simp
qed

lemma unat_and_3: "unat ((w :: u64) AND 3) = unat w mod 4"
proof -
  have "w AND 3 = take_bit 2 w"
    by (simp add: take_bit_eq_mask mask_numeral)
  then show ?thesis
    by (simp add: take_bit_eq_mod unat_mod_distrib)
qed

lemma unat_and_not3: "unat ((w :: u64) AND NOT 3) = unat w div 4 * 4"
proof -
  have "w AND 3 \<le> w"
    by (simp add: word_le_nat_alt unat_and_3)
  then have "unat (w - (w AND 3)) = unat w - unat w mod 4"
    by (simp add: unat_sub unat_and_3)
  then show ?thesis
    by (simp only: and_not3_eq_minus minus_mod_eq_div_mult)
qed

definition align4 :: "nat \<Rightarrow> nat" where
  "align4 n = (n + 3) div 4 * 4"

lemma align4_ge: "n \<le> align4 n"
  by (simp add: align4_def)

lemma align4_le: "align4 n \<le> n + 3"
  by (simp add: align4_def)

lemma align4_mod [simp]: "align4 n mod 4 = 0"
  by (simp add: align4_def)

lemma align4_add: "m mod 4 = 0 \<Longrightarrow> align4 (m + n) = m + align4 n"
  unfolding align4_def by presburger

lemma unat_align4:
  "unat (w :: u64) + 3 < 2 ^ 64 \<Longrightarrow> unat ((w + 3) AND NOT 3) = align4 (unat w)"
  by (simp only: unat_and_not3 align4_def) (simp add: unat_add_small)

subsection \<open>Byte memory\<close>

definition bytes_at :: "mem \<Rightarrow> nat \<Rightarrow> nat \<Rightarrow> byte list" where
  "bytes_at m a n = map (\<lambda>i. m (a + i)) [0..<n]"

definition write_bytes :: "mem \<Rightarrow> nat \<Rightarrow> byte list \<Rightarrow> mem" where
  "write_bytes m a bs = (\<lambda>x. if a \<le> x \<and> x < a + length bs then bs ! (x - a) else m x)"

lemma length_bytes_at [simp]: "length (bytes_at m a n) = n"
  by (simp add: bytes_at_def)

lemma nth_bytes_at [simp]: "i < n \<Longrightarrow> bytes_at m a n ! i = m (a + i)"
  by (simp add: bytes_at_def)

lemma bytes_at_0 [simp]: "bytes_at m a 0 = []"
  by (simp add: bytes_at_def)

lemma bytes_at_eq_iff:
  "bytes_at m a n = bs \<longleftrightarrow> length bs = n \<and> (\<forall>i<n. m (a + i) = bs ! i)"
  by (auto simp: list_eq_iff_nth_eq)

lemma bytes_at_cong:
  "(\<And>i. i < n \<Longrightarrow> m (a + i) = m' (b + i)) \<Longrightarrow> bytes_at m a n = bytes_at m' b n"
  by (simp add: bytes_at_def)

lemma bytes_at_append: "bytes_at m a (n + k) = bytes_at m a n @ bytes_at m (a + n) k"
  by (rule nth_equalityI) (auto simp: nth_append algebra_simps)

lemma take_bytes_at: "k \<le> n \<Longrightarrow> take k (bytes_at m a n) = bytes_at m a k"
  by (rule nth_equalityI) auto

lemma drop_bytes_at: "drop k (bytes_at m a n) = bytes_at m (a + k) (n - k)"
  by (rule nth_equalityI) (auto simp: algebra_simps)

lemma bytes_at_sub:
  "k + l \<le> n \<Longrightarrow> bytes_at m (a + k) l = take l (drop k (bytes_at m a n))"
  by (simp add: drop_bytes_at take_bytes_at)

lemma write_bytes_Nil [simp]: "write_bytes m a [] = m"
  by (rule ext) (auto simp: write_bytes_def)

lemma write_bytes_apply_out [simp]:
  "x < a \<or> a + length bs \<le> x \<Longrightarrow> write_bytes m a bs x = m x"
  by (auto simp: write_bytes_def)

lemma write_bytes_apply_in [simp]:
  "i < length bs \<Longrightarrow> write_bytes m a bs (a + i) = bs ! i"
  by (auto simp: write_bytes_def)

lemma bytes_at_write_same [simp]:
  "n = length bs \<Longrightarrow> bytes_at (write_bytes m a bs) a n = bs"
  by (simp add: bytes_at_eq_iff)

lemma bytes_at_write_disjoint [simp]:
  "b + n \<le> a \<or> a + length bs \<le> b \<Longrightarrow> bytes_at (write_bytes m a bs) b n = bytes_at m b n"
  by (rule bytes_at_cong) auto

lemma write_bytes_append:
  "write_bytes (write_bytes m a xs) (a + length xs) ys = write_bytes m a (xs @ ys)"
  by (rule ext) (auto simp: write_bytes_def nth_append)

lemma write_bytes_absorb:
  "k + length ys \<le> length xs \<Longrightarrow> write_bytes (write_bytes m (a + k) ys) a xs = write_bytes m a xs"
  by (rule ext) (auto simp: write_bytes_def)

lemma write_bytes_overwrite:
  "k + length ys \<le> length xs \<Longrightarrow>
    write_bytes (write_bytes m a xs) (a + k) ys = write_bytes m a (take k xs @ ys @ drop (k + length ys) xs)"
  by (rule ext) (auto simp: write_bytes_def nth_append min_def)

subsection \<open>Little-endian integers in memory\<close>

fun le_nat :: "byte list \<Rightarrow> nat" where
  "le_nat [] = 0"
| "le_nat (b # bs) = unat b + 256 * le_nat bs"

fun nat_le :: "nat \<Rightarrow> nat \<Rightarrow> byte list" where
  "nat_le 0 x = []"
| "nat_le (Suc n) x = of_nat (x mod 256) # nat_le n (x div 256)"

lemma length_nat_le [simp]: "length (nat_le n x) = n"
  by (induction n arbitrary: x) auto

lemma le_nat_nat_le: "le_nat (nat_le n x) = x mod 256 ^ n"
proof (induction n arbitrary: x)
  case (Suc n)
  have "unat (of_nat (x mod 256) :: byte) = x mod 256"
    by (simp add: unat_of_nat)
  then show ?case using Suc by (simp add: mod_mult2_eq)
qed simp

lemma nat_le_le_nat: "nat_le (length bs) (le_nat bs) = bs"
proof (induction bs)
  case (Cons b bs)
  have "unat b < 256"
    using unsigned_less [of b, where ?'a = nat] by simp
  then have "(unat b + 256 * le_nat bs) mod 256 = unat b"
    and "(unat b + 256 * le_nat bs) div 256 = le_nat bs"
    by auto
  then show ?case using Cons by simp
qed simp

definition le_bytes :: "'a::len word \<Rightarrow> byte list" where
  "le_bytes w = nat_le (LENGTH('a) div 8) (unat w)"

definition le_word :: "byte list \<Rightarrow> 'a::len word" where
  "le_word bs = of_nat (le_nat bs)"

definition get_le :: "mem \<Rightarrow> nat \<Rightarrow> 'a::len word" where
  "get_le m a = le_word (bytes_at m a (LENGTH('a) div 8))"

definition put_le :: "mem \<Rightarrow> nat \<Rightarrow> 'a::len word \<Rightarrow> mem" where
  "put_le m a w = write_bytes m a (le_bytes w)"

lemma length_le_bytes [simp]: "length (le_bytes (w :: 'a::len word)) = LENGTH('a) div 8"
  by (simp add: le_bytes_def)

lemma le_word_le_bytes:
  assumes "8 dvd LENGTH('a::len)"
  shows "le_word (le_bytes (w :: 'a word)) = w"
proof -
  have "(256 :: nat) ^ k = 2 ^ (8 * k)" for k
    by (simp add: power_mult)
  then have "(256 :: nat) ^ (LENGTH('a) div 8) = 2 ^ LENGTH('a)"
    using assms by simp
  then show ?thesis
    by (simp add: le_word_def le_bytes_def le_nat_nat_le)
qed

lemma get_put_same [simp]:
  "8 dvd LENGTH('a::len) \<Longrightarrow> get_le (put_le m a (w :: 'a word)) a = w"
  by (simp add: get_le_def put_le_def le_word_le_bytes)

lemma le_nat_less: "le_nat bs < 256 ^ length bs"
proof (induction bs)
  case (Cons b bs)
  have "unat b < 256"
    using unsigned_less [of b, where ?'a = nat] by simp
  then show ?case using Cons by simp
qed simp

lemma le_bytes_le_word:
  assumes "8 dvd LENGTH('a::len)" "length bs = LENGTH('a) div 8"
  shows "le_bytes (le_word bs :: 'a word) = bs"
proof -
  have "(256 :: nat) ^ k = 2 ^ (8 * k)" for k
    by (simp add: power_mult)
  then have "(256 :: nat) ^ length bs = 2 ^ LENGTH('a)"
    using assms by simp
  then have "unat (of_nat (le_nat bs) :: 'a word) = le_nat bs"
    using le_nat_less [of bs] by (simp add: unat_of_nat_small)
  then show ?thesis
    using nat_le_le_nat [of bs] assms(2) by (simp add: le_bytes_def le_word_def)
qed

lemma put_get_same [simp]: "8 dvd LENGTH('a::len) \<Longrightarrow> put_le m a (get_le m a :: 'a word) = m"
  by (rule ext) (auto simp: put_le_def get_le_def le_bytes_le_word write_bytes_def)

lemma put_put_same [simp]: "put_le (put_le m a (v :: 'a::len word)) a (w :: 'a word) = put_le m a w"
  using write_bytes_absorb [of 0 "le_bytes v" "le_bytes w" m a] by (simp add: put_le_def)

lemma get_le_write_disjoint [simp]:
  "b + LENGTH('a::len) div 8 \<le> a \<or> a + length bs \<le> b \<Longrightarrow>
    (get_le (write_bytes m a bs) b :: 'a word) = get_le m b"
  by (simp add: get_le_def)

lemma get_put_disjoint [simp]:
  "b + LENGTH('a::len) div 8 \<le> a \<or> a + LENGTH('b::len) div 8 \<le> b \<Longrightarrow>
    (get_le (put_le m a (w :: 'b word)) b :: 'a word) = get_le m b"
  by (simp add: put_le_def)

lemma get_le_eq_word:
  "k + LENGTH('a::len) div 8 \<le> n \<Longrightarrow> bytes_at m a n = bs \<Longrightarrow>
    (get_le m (a + k) :: 'a word) = le_word (take (LENGTH('a) div 8) (drop k bs))"
  by (auto simp: get_le_def bytes_at_sub)


subsection \<open>Index sequences with a fixed interval\<close>

definition steps :: "nat \<Rightarrow> nat \<Rightarrow> nat \<Rightarrow> nat list" where
  "steps f t d = (if t < f then [] else map (\<lambda>k. f + k * d) [0..<Suc ((t - f) div d)])"

lemma steps_Nil [simp]: "t < f \<Longrightarrow> steps f t d = []"
  by (simp add: steps_def)

lemma steps_rec:
  assumes "f \<le> t" "0 < d"
  shows "steps f t d = f # steps (f + d) t d"
proof (cases "t < f + d")
  case True
  then have "t - f < d" using assms(1) by arith
  then have "(t - f) div d = 0" by simp
  then show ?thesis using assms True by (simp add: steps_def)
next
  case False
  then have "(t - f) div d = Suc ((t - (f + d)) div d)"
    using assms by (simp add: le_div_geq)
  then show ?thesis
    using False assms by (simp add: steps_def upt_rec [of 0] map_Suc_upt [symmetric] del: upt_Suc)
qed

lemma steps_bound: "x \<in> set (steps f t d) \<Longrightarrow> f \<le> x \<and> x \<le> t"
proof -
  assume "x \<in> set (steps f t d)"
  then obtain k where k: "k \<le> (t - f) div d" "f \<le> t" "x = f + k * d"
    by (auto simp: steps_def less_Suc_eq_le simp del: upt_Suc split: if_splits)
  have "k * d \<le> (t - f) div d * d" using k(1) by simp
  also have "\<dots> \<le> t - f" by (rule div_times_less_eq_dividend)
  finally show ?thesis using k by simp
qed

lemma steps_length: "0 < d \<Longrightarrow> f \<le> t \<Longrightarrow> length (steps f t d) \<le> Suc (t - f)"
  by (simp add: steps_def)

lemma steps_last: "0 < d \<Longrightarrow> f \<le> t \<Longrightarrow> last (steps f t d) = f + (length (steps f t d) - 1) * d"
  by (simp add: steps_def last_map)

lemma steps_last_word:
  fixes lo :: u64
  assumes "0 < d" "unat lo \<le> t"
  shows "lo + of_nat (length (steps (unat lo) t d)) * of_nat d - of_nat d = of_nat (last (steps (unat lo) t d))"
proof -
  obtain n where "length (steps (unat lo) t d) = Suc n"
    using assms by (simp add: steps_def)
  then show ?thesis
    using steps_last [OF assms] by (simp add: algebra_simps)
qed

lemma steps_neq_Nil: "f \<le> t \<Longrightarrow> steps f t d \<noteq> []"
  by (simp add: steps_def)

lemma le_last_sorted: "x \<in> set xs \<Longrightarrow> sorted xs \<Longrightarrow> x \<le> last xs" for x :: "'a::linorder"
  by (induction xs) auto

lemma set_steps: "0 < d \<Longrightarrow> set (steps f t d) = {x. f \<le> x \<and> x \<le> t \<and> d dvd x - f}"
proof (cases "t < f")
  case False
  assume d: "0 < d"
  have "x \<in> set (steps f t d) \<longleftrightarrow> f \<le> x \<and> x \<le> t \<and> d dvd x - f" for x
  proof
    assume "f \<le> x \<and> x \<le> t \<and> d dvd x - f"
    then obtain k where "x = f + k * d" "f + k * d \<le> t"
      by (metis dvdE le_add_diff_inverse mult.commute)
    then show "x \<in> set (steps f t d)"
      using d False
      by (auto simp: steps_def image_iff less_Suc_eq_le less_eq_div_iff_mult_less_eq simp del: upt_Suc intro!: bexI [of _ k])
  next
    assume "x \<in> set (steps f t d)"
    then show "f \<le> x \<and> x \<le> t \<and> d dvd x - f"
      using steps_bound [of x f t d] False by (auto simp: steps_def)
  qed
  then show ?thesis by blast
qed simp

lemma sorted_steps: "0 < d \<Longrightarrow> sorted_wrt (<) (steps f t d)"
  by (auto simp: steps_def sorted_wrt_map simp del: upt_Suc intro: sorted_wrt_mono_rel [OF _ sorted_wrt_upt])

lemma length_steps: "f \<le> t \<Longrightarrow> length (steps f t d) = Suc ((t - f) div d)"
  by (simp add: steps_def)

lemma nth_steps: "i < length (steps f t d) \<Longrightarrow> steps f t d ! i = f + i * d"
  by (auto simp: steps_def split: if_splits simp del: upt_Suc)

text \<open>The indices of one residue class in an interval are an arithmetic progression.\<close>

lemma filter_mod_steps:
  fixes N r a t :: nat
  assumes "r < N"
  shows "filter (\<lambda>i. i mod N = (a + r) mod N) [a..<Suc t] = steps (a + r) t N"
proof (rule sorted_distinct_set_unique)
  have N: "0 < N" using assms by simp
  show "sorted (filter (\<lambda>i. i mod N = (a + r) mod N) [a..<Suc t])" "distinct (filter (\<lambda>i. i mod N = (a + r) mod N) [a..<Suc t])"
    by (simp_all add: sorted_wrt_filter del: upt_Suc)
  show "sorted (steps (a + r) t N)" "distinct (steps (a + r) t N)"
    using sorted_steps [OF N] by (simp_all add: strict_sorted_iff)
  have "i mod N = (a + r) mod N \<longleftrightarrow> a + r \<le> i \<and> N dvd i - (a + r)" if "a \<le> i" for i
  proof (cases "a + r \<le> i")
    case True
    then show ?thesis by (metis mod_eq_dvd_iff_nat)
  next
    case False
    then have "\<not> N dvd a + r - i" using that assms by (auto dest: dvd_imp_le)
    then show ?thesis using False by (metis mod_eq_dvd_iff_nat nat_le_linear)
  qed
  then show "set (filter (\<lambda>i. i mod N = (a + r) mod N) [a..<Suc t]) = set (steps (a + r) t N)"
    unfolding set_steps [OF N] by auto
qed

subsection \<open>Maps updated by a list of bindings\<close>

definition map_updates :: "('k \<rightharpoonup> 'v) \<Rightarrow> ('k \<times> 'v) list \<Rightarrow> 'k \<rightharpoonup> 'v" where
  "map_updates mp kvs = foldl (\<lambda>mp (k, v). mp(k \<mapsto> v)) mp kvs"

lemma map_updates_simps [simp]:
  "map_updates mp [] = mp"
  "map_updates mp (kv # kvs) = map_updates (mp(fst kv \<mapsto> snd kv)) kvs"
  by (simp_all add: map_updates_def case_prod_beta)

lemma map_updates_append: "map_updates mp (xs @ ys) = map_updates (map_updates mp xs) ys"
  by (simp add: map_updates_def)

lemma dom_map_updates: "dom (map_updates mp kvs) = dom mp \<union> fst ` set kvs"
  by (induction kvs arbitrary: mp) auto

lemma map_updates_notin: "k \<notin> fst ` set kvs \<Longrightarrow> map_updates mp kvs k = mp k"
  by (induction kvs arbitrary: mp) auto

lemma map_updates_distinct:
  "distinct (map fst kvs) \<Longrightarrow> i < length kvs \<Longrightarrow>
    map_updates mp kvs (fst (kvs ! i)) = Some (snd (kvs ! i))"
proof (induction kvs arbitrary: mp i)
  case (Cons kv kvs)
  then show ?case
    by (cases i) (auto simp: map_updates_notin)
qed simp

lemma foldl_max:
  "foldl (\<lambda>m x. max m (f x)) a xs = Max (insert a (f ` set xs))" for a :: "'b::linorder"
proof (induction xs arbitrary: a)
  case (Cons x xs)
  then show ?case
    by (cases "set xs = {}") (simp_all add: max.assoc)
qed simp

lemma restrict_upd_None: "m(x := None) |` A = m |` (A - {x})"
  by (auto simp: restrict_map_def)

lemma restrict_UNIV [simp]: "m |` UNIV = m"
  by (simp add: restrict_map_def)

subsection \<open>Map access with a default\<close>

text \<open>\<^verbatim>\<open>operator[]\<close> of a C++ map inserts a zero value for a missing key.\<close>

definition op_index :: "('k \<rightharpoonup> 'v::zero) \<Rightarrow> 'k \<Rightarrow> 'v \<times> ('k \<rightharpoonup> 'v)" where
  "op_index m k = (case m k of None \<Rightarrow> (0, m(k \<mapsto> 0)) | Some v \<Rightarrow> (v, m))"

definition lookup0 :: "('k \<rightharpoonup> 'v::zero) \<Rightarrow> 'k \<Rightarrow> 'v" where
  "lookup0 m k = (case m k of None \<Rightarrow> 0 | Some v \<Rightarrow> v)"

lemma fst_op_index [simp]: "fst (op_index m k) = lookup0 m k"
  by (simp add: op_index_def lookup0_def split: option.split)

lemma lookup0_op_index [simp]: "lookup0 (snd (op_index m k)) = lookup0 m"
  by (rule ext) (auto simp: op_index_def lookup0_def split: option.split)

end
