(* ===== verification/Log_Entry.thy ===== *)
theory Log_Entry
  imports Prelude
begin

text \<open>
  The log record of the system and its wire format, from \<^verbatim>\<open>src/src/rpc/log_entry.h\<close> and
  \<^verbatim>\<open>src/src/rpc/log_entry.cc\<close>: the struct \<^verbatim>\<open>LogEntry\<close>, its packed little-endian image in a
  byte buffer, and the routines that write and read one entry, many entries, a strided subsequence of
  entries, an index map and lists of request ids.

  \<^verbatim>\<open>Serializer\<close> writes 32 bytes of header and then the payload; the returned size is rounded up to
  a multiple of four, the padding bytes keep what the buffer held. The \<^verbatim>\<open>assert\<close> on the size field
  is compiled out in the Release build of the README and is the predicate \<open>wf_entry\<close> here.
  \<^verbatim>\<open>Deserializer\<close> leaves the payload alone and returns 0 when the flags field is 0. A read past the
  end of a \<^verbatim>\<open>std::vector\<close> is \<open>None\<close>; a loop whose word counter could wrap is a partial
  function, so that \<open>None\<close> also means that it does not end.
\<close>

section \<open>The model\<close>

subsection \<open>The record and its fields in a buffer\<close>

record LogEntry =
  client_id :: u64
  client_seq :: u64
  log_idx :: u64
  esize :: u32
  flags :: u16
  view :: u16
  data :: "byte list"

type_synonym ReqID = "u64 \<times> u64"

definition LogEntry_new :: LogEntry where
  "LogEntry_new = \<lparr>client_id = 0, client_seq = 0, log_idx = 0, esize = 0, flags = 0, view = 0, data = []\<rparr>"

definition LogEntry_of :: "byte list \<Rightarrow> LogEntry" where
  "LogEntry_of d = LogEntry_new\<lparr>esize := of_nat (length d), data := d\<rparr>"

definition LogEntry_eq :: "LogEntry \<Rightarrow> LogEntry \<Rightarrow> bool" where
  "LogEntry_eq e' e \<longleftrightarrow> client_id e = client_id e' \<and> client_seq e = client_seq e' \<and>
     esize e = esize e' \<and> flags e = flags e' \<and> view e = view e' \<and> data e = data e'"

definition FlagPos :: u64 where
  "FlagPos = 8 + 8 + 8 + 4"

definition MetaDataSize :: u64 where
  "MetaDataSize = FlagPos + 2 + 2"

definition GetFlagFromBuf :: "mem \<Rightarrow> nat \<Rightarrow> u16" where
  "GetFlagFromBuf m buf = get_le m (buf + unat FlagPos)"

definition SetFlag :: "mem \<Rightarrow> nat \<Rightarrow> u16 \<Rightarrow> mem" where
  "SetFlag m buf flag = put_le m (buf + unat FlagPos) flag"

definition GetSize :: "LogEntry \<Rightarrow> u64" where
  "GetSize e = (MetaDataSize + ucast (esize e + 3)) AND NOT 3"

definition GetSizeFromBuf :: "mem \<Rightarrow> nat \<Rightarrow> u64" where
  "GetSizeFromBuf m buf =
     (let sz_ofst = 8 + 8 + 8 :: u64
      in (MetaDataSize + ucast (get_le m (buf + unat sz_ofst) + 3 :: u32)) AND NOT 3)"

definition GetClientId :: "mem \<Rightarrow> nat \<Rightarrow> u64" where
  "GetClientId m buf = get_le m buf"

definition GetClientSeq :: "mem \<Rightarrow> nat \<Rightarrow> u64" where
  "GetClientSeq m buf = get_le m (buf + 8)"

definition GetIdx :: "mem \<Rightarrow> nat \<Rightarrow> u64" where
  "GetIdx m buf = get_le m (buf + (8 + 8))"

definition Serializer :: "LogEntry \<Rightarrow> mem \<Rightarrow> nat \<Rightarrow> mem \<times> u64" where
  "Serializer e m buf =
     (let offset = 0 :: u64;
          m = put_le m (buf + unat offset) (client_id e); offset = offset + 8;
          m = put_le m (buf + unat offset) (client_seq e); offset = offset + 8;
          m = put_le m (buf + unat offset) (log_idx e); offset = offset + 8;
          m = put_le m (buf + unat offset) (esize e); offset = offset + 4;
          m = put_le m (buf + unat offset) (flags e); offset = offset + 2;
          m = put_le m (buf + unat offset) (view e); offset = offset + 2;
          m = write_bytes m (buf + unat offset) (data e);
          offset = offset + ((of_nat (length (data e)) + 3) AND NOT 3)
      in (m, offset))"

definition Deserializer :: "LogEntry \<Rightarrow> mem \<Rightarrow> nat \<Rightarrow> LogEntry \<times> u64" where
  "Deserializer e m buf =
     (let offset = 0 :: u64;
          e = e\<lparr>client_id := get_le m (buf + unat offset)\<rparr>; offset = offset + 8;
          e = e\<lparr>client_seq := get_le m (buf + unat offset)\<rparr>; offset = offset + 8;
          e = e\<lparr>log_idx := get_le m (buf + unat offset)\<rparr>; offset = offset + 8;
          e = e\<lparr>esize := get_le m (buf + unat offset)\<rparr>; offset = offset + 4;
          e = e\<lparr>flags := get_le m (buf + unat offset)\<rparr>; offset = offset + 2;
          e = e\<lparr>view := get_le m (buf + unat offset)\<rparr>; offset = offset + 2
      in if flags e = 0 then (e, 0)
         else let e = e\<lparr>data := bytes_at m (buf + unat offset) (unat (esize e))\<rparr>;
                  offset = offset + ((of_nat (length (data e)) + 3) AND NOT 3)
              in (e, offset))"

subsection \<open>Several entries\<close>

fun MultiSerializer_loop :: "LogEntry list \<Rightarrow> mem \<Rightarrow> nat \<Rightarrow> u64 \<Rightarrow> mem \<times> u64" where
  "MultiSerializer_loop [] m buf offset = (m, offset)"
| "MultiSerializer_loop (e # es) m buf offset =
     (let (m, n) = Serializer e m (buf + unat offset)
      in MultiSerializer_loop es m buf (offset + n))"

definition MultiSerializer :: "LogEntry list \<Rightarrow> mem \<Rightarrow> nat \<Rightarrow> mem \<times> u64" where
  "MultiSerializer es m buf =
     (let offset = 0 :: u64;
          num = of_nat (length es) :: u32;
          m = put_le m buf num;
          offset = offset + 4
      in MultiSerializer_loop es m buf offset)"

fun MultiSerializer_num_loop ::
  "nat \<Rightarrow> LogEntry list \<Rightarrow> u64 \<Rightarrow> u32 \<Rightarrow> mem \<Rightarrow> nat \<Rightarrow> u64 \<Rightarrow> (mem \<times> u64) option" where
  "MultiSerializer_num_loop 0 es from i m buf offset = Some (m, offset)"
| "MultiSerializer_num_loop (Suc k) es from i m buf offset =
     (let j = unat (from + ucast i)
      in if j < length es
         then let (m, n) = Serializer (es ! j) m (buf + unat offset)
              in MultiSerializer_num_loop k es from (i + 1) m buf (offset + n)
         else None)"

definition MultiSerializer_num ::
  "LogEntry list \<Rightarrow> u64 \<Rightarrow> u32 \<Rightarrow> mem \<Rightarrow> nat \<Rightarrow> bool \<Rightarrow> (mem \<times> u64) option" where
  "MultiSerializer_num es from num m buf wo_num =
     (let offset = 0 :: u64;
          (m, offset) = (if \<not> wo_num then (put_le m buf num, offset + 4) else (m, offset))
      in MultiSerializer_num_loop (unat num) es from 0 m buf offset)"

partial_function (option) MultiSerializer_itrv_loop ::
  "LogEntry list \<Rightarrow> u64 \<Rightarrow> u64 \<Rightarrow> u32 \<Rightarrow> mem \<Rightarrow> nat \<Rightarrow> u64 \<Rightarrow> u32 \<Rightarrow> (mem \<times> u64 \<times> u32 \<times> u64) option" where
  "MultiSerializer_itrv_loop es i to itrv m buf offset num =
     (if i \<le> to then
        if unat i < length es
        then case Serializer (es ! unat i) m (buf + unat offset) of (m, n) \<Rightarrow>
               MultiSerializer_itrv_loop es (i + ucast itrv) to itrv m buf (offset + n) (num + 1)
        else None
      else Some (m, offset, num, i))"

definition MultiSerializer_itrv ::
  "LogEntry list \<Rightarrow> u64 \<Rightarrow> u64 \<Rightarrow> u32 \<Rightarrow> mem \<Rightarrow> nat \<Rightarrow> (mem \<times> u64 \<times> u64) option" where
  "MultiSerializer_itrv es from to itrv m buf =
     (case MultiSerializer_itrv_loop es from to itrv m buf 4 0 of
        None \<Rightarrow> None
      | Some (m, offset, num, i) \<Rightarrow> Some (put_le m buf num, i - ucast itrv, offset))"

fun MultiDeserializer_loop ::
  "nat \<Rightarrow> LogEntry list \<Rightarrow> mem \<Rightarrow> nat \<Rightarrow> u64 \<Rightarrow> LogEntry list \<times> u64" where
  "MultiDeserializer_loop 0 es m buf offset = (es, offset)"
| "MultiDeserializer_loop (Suc k) es m buf offset =
     (let (e, sz) = Deserializer LogEntry_new m (buf + unat offset)
      in if sz = 0 then (es, offset)
         else MultiDeserializer_loop k (es @ [e]) m buf (offset + sz))"

definition MultiDeserializer :: "LogEntry list \<Rightarrow> mem \<Rightarrow> nat \<Rightarrow> LogEntry list \<times> u64" where
  "MultiDeserializer es m buf =
     (let num = get_le m buf :: u32
      in MultiDeserializer_loop (unat num) es m buf 4)"

fun ProcessAndBuildMap_loop ::
  "nat \<Rightarrow> LogEntry \<Rightarrow> (u64 \<rightharpoonup> u64) \<Rightarrow> mem \<Rightarrow> nat \<Rightarrow> u64 \<Rightarrow> u64 \<Rightarrow> (u64 \<rightharpoonup> u64) \<times> u64" where
  "ProcessAndBuildMap_loop 0 dummy mp m buf cfo offset = (mp, offset)"
| "ProcessAndBuildMap_loop (Suc k) dummy mp m buf cfo offset =
     (let (dummy, sz) = Deserializer dummy m (buf + unat offset)
      in if sz = 0 then (mp, offset)
         else ProcessAndBuildMap_loop k dummy (mp(log_idx dummy \<mapsto> cfo + offset - 4)) m buf cfo
                (offset + sz))"

definition ProcessAndBuildMap ::
  "(u64 \<rightharpoonup> u64) \<Rightarrow> mem \<Rightarrow> nat \<Rightarrow> u64 \<Rightarrow> (u64 \<rightharpoonup> u64) \<times> u64" where
  "ProcessAndBuildMap mp m buf cfo =
     (let num = get_le m buf :: u32
      in ProcessAndBuildMap_loop (unat num) LogEntry_new mp m buf cfo 4)"

partial_function (option) ProcessAndBuildMap_size_loop ::
  "LogEntry \<Rightarrow> (u64 \<rightharpoonup> u64) \<Rightarrow> mem \<Rightarrow> nat \<Rightarrow> u64 \<Rightarrow> u64 \<Rightarrow> u64 \<Rightarrow> u32 \<Rightarrow>
    ((u64 \<rightharpoonup> u64) \<times> u64 \<times> u32) option" where
  "ProcessAndBuildMap_size_loop dummy mp m buf buf_size cfo offset num =
     (if offset < buf_size then
        case Deserializer dummy m (buf + unat offset) of (dummy, sz) \<Rightarrow>
          if sz = 0 then Some (mp, offset, num)
          else ProcessAndBuildMap_size_loop dummy (mp(log_idx dummy \<mapsto> cfo + offset)) m buf buf_size cfo
                 (offset + sz) (num + 1)
      else Some (mp, offset, num))"

definition ProcessAndBuildMap_size ::
  "(u64 \<rightharpoonup> u64) \<Rightarrow> mem \<Rightarrow> nat \<Rightarrow> u64 \<Rightarrow> u64 \<Rightarrow> ((u64 \<rightharpoonup> u64) \<times> u64 \<times> u32) option" where
  "ProcessAndBuildMap_size mp m buf buf_size cfo =
     ProcessAndBuildMap_size_loop LogEntry_new mp m buf buf_size cfo 0 0"

partial_function (option) MultiDeserializer_size ::
  "LogEntry list \<Rightarrow> mem \<Rightarrow> nat \<Rightarrow> u64 \<Rightarrow> u64 \<Rightarrow> (LogEntry list \<times> u64) option" where
  "MultiDeserializer_size es m buf buf_size offset =
     (if offset < buf_size then
        case Deserializer LogEntry_new m (buf + unat offset) of (e, sz) \<Rightarrow>
          if sz = 0 then Some (es, offset)
          else MultiDeserializer_size (es @ [e]) m buf buf_size (offset + sz)
      else Some (es, offset))"

partial_function (option) MultiDeserializerMaxSize_loop ::
  "LogEntry list \<Rightarrow> mem \<Rightarrow> nat \<Rightarrow> u64 \<Rightarrow> u64 \<Rightarrow> (LogEntry list \<times> u64) option" where
  "MultiDeserializerMaxSize_loop es m buf max_size offset =
     (if offset < max_size then
        if max_size - offset < MetaDataSize then Some (es, offset)
        else if max_size - offset < GetSizeFromBuf m (buf + unat offset) then Some (es, offset)
        else case Deserializer LogEntry_new m (buf + unat offset) of (e, sz) \<Rightarrow>
          if sz = 0 then Some (es, offset)
          else MultiDeserializerMaxSize_loop (es @ [e]) m buf max_size (offset + sz)
      else Some (es, offset))"

definition MultiDeserializerMaxSize ::
  "LogEntry list \<Rightarrow> mem \<Rightarrow> nat \<Rightarrow> u64 \<Rightarrow> (LogEntry list \<times> u64) option" where
  "MultiDeserializerMaxSize es m buf max_size = MultiDeserializerMaxSize_loop es m buf max_size 0"

subsection \<open>Request identifiers\<close>

definition ReqIdSerializer_item :: "ReqID \<Rightarrow> mem \<Rightarrow> nat \<Rightarrow> mem \<times> u64" where
  "ReqIdSerializer_item rid m buf =
     (let offset = 0 :: u64;
          m = put_le m (buf + unat offset) (fst rid); offset = offset + 8;
          m = put_le m (buf + unat offset) (snd rid); offset = offset + 8
      in (m, offset))"

fun ReqIdSerializer_loop :: "ReqID list \<Rightarrow> mem \<Rightarrow> nat \<Rightarrow> u64 \<Rightarrow> mem \<times> u64" where
  "ReqIdSerializer_loop [] m buf offset = (m, offset)"
| "ReqIdSerializer_loop (rid # ids) m buf offset =
     (let (m, n) = ReqIdSerializer_item rid m (buf + unat offset)
      in ReqIdSerializer_loop ids m buf (offset + n))"

definition ReqIdSerializer :: "ReqID list \<Rightarrow> mem \<Rightarrow> nat \<Rightarrow> mem \<times> u64" where
  "ReqIdSerializer ids m buf =
     (let num = of_nat (length ids) :: u32;
          m = put_le m buf num
      in ReqIdSerializer_loop ids m buf 4)"

fun ReqIdDeserializer_loop :: "nat \<Rightarrow> ReqID list \<Rightarrow> mem \<Rightarrow> nat \<Rightarrow> u64 \<Rightarrow> ReqID list \<times> u64" where
  "ReqIdDeserializer_loop 0 ids m buf offset = (ids, offset)"
| "ReqIdDeserializer_loop (Suc k) ids m buf offset =
     (let a = get_le m (buf + unat offset); offset = offset + 8;
          b = get_le m (buf + unat offset); offset = offset + 8
      in ReqIdDeserializer_loop k (ids @ [(a, b)]) m buf offset)"

definition ReqIdDeserializer :: "ReqID list \<Rightarrow> mem \<Rightarrow> nat \<Rightarrow> ReqID list \<times> u64" where
  "ReqIdDeserializer ids m buf =
     (let num = get_le m buf :: u32
      in ReqIdDeserializer_loop (unat num) ids m buf 4)"

section \<open>What the buffer holds\<close>

text \<open>
  \<open>entry_bytes e\<close> is the image of an entry, \<open>entry_at m a e\<close> says that memory holds it at
  address \<open>a\<close>, \<open>esz e\<close> is the number of bytes it takes with its padding. The size fields
  are 32 bit wide, so \<open>wf_entry\<close> bounds the payload; \<open>GetSize\<close> wraps above that bound.
\<close>

definition header_bytes :: "LogEntry \<Rightarrow> byte list" where
  "header_bytes e = le_bytes (client_id e) @ le_bytes (client_seq e) @ le_bytes (log_idx e) @
     le_bytes (esize e) @ le_bytes (flags e) @ le_bytes (view e)"

definition entry_bytes :: "LogEntry \<Rightarrow> byte list" where
  "entry_bytes e = header_bytes e @ data e"

definition esz :: "LogEntry \<Rightarrow> nat" where
  "esz e = 32 + align4 (length (data e))"

definition wf_entry :: "LogEntry \<Rightarrow> bool" where
  "wf_entry e \<longleftrightarrow> unat (esize e) = length (data e) \<and> length (data e) < 2 ^ 32 - 3"

definition valid :: "LogEntry \<Rightarrow> bool" where
  "valid e \<longleftrightarrow> flags e \<noteq> 0"

definition entry_at :: "mem \<Rightarrow> nat \<Rightarrow> LogEntry \<Rightarrow> bool" where
  "entry_at m a e \<longleftrightarrow> bytes_at m a (32 + length (data e)) = entry_bytes e"

lemma length_header_bytes [simp]: "length (header_bytes e) = 32"
  by (simp add: header_bytes_def)

lemma length_entry_bytes [simp]: "length (entry_bytes e) = 32 + length (data e)"
  by (simp add: entry_bytes_def)

lemma Serializer_mem: "fst (Serializer e m buf) = write_bytes m buf (entry_bytes e)"
proof -
  have app: "write_bytes (write_bytes m buf xs) (buf + n) ys = write_bytes m buf (xs @ ys)"
    if "n = length xs" for xs ys m n
    using that by (simp add: write_bytes_append)
  show ?thesis
    by (simp add: Serializer_def entry_bytes_def header_bytes_def put_le_def app)
qed

lemma Serializer_size:
  assumes "length (data e) + 35 < 2 ^ 64"
  shows "unat (snd (Serializer e m buf)) = esz e"
proof -
  let ?n = "of_nat (length (data e)) :: u64"
  have n: "unat ?n = length (data e)"
    using assms by (simp add: unat_of_nat_small)
  have r: "unat ((?n + 3) AND NOT 3) = align4 (length (data e))"
    using assms n by (subst unat_align4) simp_all
  have "snd (Serializer e m buf) = 32 + ((?n + 3) AND NOT 3)"
    by (simp add: Serializer_def Let_def)
  moreover have "unat (32 + ((?n + 3) AND NOT 3)) = 32 + align4 (length (data e))"
    using assms align4_le [of "length (data e)"] r by (subst unat_add_small) simp_all
  ultimately show ?thesis
    by (simp add: esz_def)
qed

lemma header_at:
  assumes "entry_at m a e"
  shows "get_le m a = client_id e" "get_le m (a + 8) = client_seq e" "get_le m (a + 16) = log_idx e"
    "get_le m (a + 24) = esize e" "get_le m (a + 28) = flags e" "get_le m (a + 30) = view e"
    "bytes_at m (a + 32) (length (data e)) = data e"
proof -
  note bs = assms [unfolded entry_at_def]
  note sel = entry_bytes_def header_bytes_def le_word_le_bytes
  show "get_le m a = client_id e"
    using get_le_eq_word [OF _ bs, of 0, where ?'a = 64] by (simp add: sel)
  show "get_le m (a + 8) = client_seq e"
    using get_le_eq_word [OF _ bs, of 8, where ?'a = 64] by (simp add: sel)
  show "get_le m (a + 16) = log_idx e"
    using get_le_eq_word [OF _ bs, of 16, where ?'a = 64] by (simp add: sel)
  show "get_le m (a + 24) = esize e"
    using get_le_eq_word [OF _ bs, of 24, where ?'a = 32] by (simp add: sel)
  show "get_le m (a + 28) = flags e"
    using get_le_eq_word [OF _ bs, of 28, where ?'a = 16] by (simp add: sel)
  show "get_le m (a + 30) = view e"
    using get_le_eq_word [OF _ bs, of 30, where ?'a = 16] by (simp add: sel)
  show "bytes_at m (a + 32) (length (data e)) = data e"
    using bs by (subst bytes_at_sub [where n = "32 + length (data e)"]) (simp_all add: entry_bytes_def)
qed

lemma fields_at:
  assumes "entry_at m a e"
  shows "GetClientId m a = client_id e" "GetClientSeq m a = client_seq e" "GetIdx m a = log_idx e"
    "GetFlagFromBuf m a = flags e"
  using header_at [OF assms]
  by (simp_all add: GetClientId_def GetClientSeq_def GetIdx_def GetFlagFromBuf_def FlagPos_def)

lemma entry_at_Serializer: "entry_at (fst (Serializer e m a)) a e"
  by (simp add: entry_at_def Serializer_mem)

lemma entry_at_cong:
  "(\<And>x. a \<le> x \<Longrightarrow> x < a + 32 + length (data e) \<Longrightarrow> m' x = m x) \<Longrightarrow>
    entry_at m' a e \<longleftrightarrow> entry_at m a e"
  unfolding entry_at_def by (subst bytes_at_cong [where m' = m and b = a]) auto

lemma Deserializer_invalid:
  "entry_at m a e \<Longrightarrow> flags e = 0 \<Longrightarrow> snd (Deserializer e0 m a) = 0"
  by (simp add: Deserializer_def header_at Let_def)

lemma esz_bounds: "32 + length (data e) \<le> esz e" "esz e \<le> 35 + length (data e)"
  using align4_ge [of "length (data e)"] align4_le [of "length (data e)"] by (auto simp: esz_def)

lemma esz_wf: "wf_entry e \<Longrightarrow> esz e < 2 ^ 32 + 32"
  using esz_bounds(2) [of e] by (simp add: wf_entry_def)

lemma Deserializer_entry:
  assumes "entry_at m a e" "wf_entry e" "flags e \<noteq> 0"
  shows "Deserializer e0 m a = (e, of_nat (esz e))"
proof -
  let ?n = "of_nat (length (data e)) :: u64"
  have len: "length (data e) < 2 ^ 32" and sz: "unat (esize e) = length (data e)"
    using assms(2) by (auto simp: wf_entry_def)
  have n: "unat ?n = length (data e)"
    using len by (simp add: unat_of_nat_small)
  have r: "unat ((?n + 3) AND NOT 3) = align4 (length (data e))"
    using len n by (subst unat_align4) simp_all
  have "unat (32 + ((?n + 3) AND NOT 3)) = esz e"
    using len align4_le [of "length (data e)"] r by (subst unat_add_small) (simp_all add: esz_def)
  then have "32 + ((?n + 3) AND NOT 3) = of_nat (esz e)"
    by (rule word_eq_of_nat)
  then show ?thesis
    using assms(3) by (simp add: Deserializer_def header_at [OF assms(1)] sz Let_def)
qed

lemma GetSize_eq: "wf_entry e \<Longrightarrow> unat (GetSize e) = esz e"
proof -
  assume wf: "wf_entry e"
  then have l: "unat (esize e) < 2 ^ 32 - 3" by (simp add: wf_entry_def)
  have "unat (esize e + 3) = unat (esize e) + 3"
    using l by (subst unat_add_small) simp_all
  then have u: "unat (ucast (esize e + 3) :: u64) = unat (esize e) + 3"
    by simp
  have "unat (MetaDataSize + ucast (esize e + 3)) = 35 + unat (esize e)"
    using l u by (subst unat_add_small) (simp_all add: MetaDataSize_def FlagPos_def)
  then have "unat (GetSize e) = (35 + unat (esize e)) div 4 * 4"
    unfolding GetSize_def by (simp only: unat_and_not3)
  moreover have "(35 + n) div 4 * 4 = 32 + align4 n" for n
    unfolding align4_def by presburger
  ultimately show ?thesis using wf by (simp add: esz_def wf_entry_def)
qed

lemma GetSizeFromBuf_eq:
  assumes "entry_at m a e" "wf_entry e"
  shows "unat (GetSizeFromBuf m a) = esz e"
proof -
  have "GetSizeFromBuf m a = GetSize e"
    using assms(1) by (simp add: GetSizeFromBuf_def GetSize_def header_at)
  then show ?thesis using assms(2) by (simp add: GetSize_eq)
qed

lemma of_nat_esz_neq_0: "wf_entry e \<Longrightarrow> (of_nat (esz e) :: u64) \<noteq> 0"
proof
  assume wf: "wf_entry e" and "(of_nat (esz e) :: u64) = 0"
  then have "unat (of_nat (esz e) :: u64) = 0" by simp
  then show False
    using esz_wf [OF wf] esz_bounds(1) [of e] by (simp add: unat_of_nat_small)
qed

lemma unat_of_esz: "wf_entry e \<Longrightarrow> unat (of_nat (esz e) :: u64) = esz e"
  using esz_wf [of e] by (simp add: unat_of_nat_small)

lemma unat_add_esz:
  "wf_entry e \<Longrightarrow> unat off + esz e < 2 ^ 64 \<Longrightarrow> unat (off + of_nat (esz e) :: u64) = unat off + esz e"
  by (subst unat_add_small) (simp_all add: unat_of_esz)

lemma Deserializer_any:
  assumes "entry_at m a e" "wf_entry e"
  shows "snd (Deserializer d m a) = (if valid e then of_nat (esz e) else 0)"
    and "valid e \<Longrightarrow> fst (Deserializer d m a) = e"
  using assms Deserializer_entry [OF assms] Deserializer_invalid [OF assms(1)]
  by (auto simp: valid_def)

lemma SetFlag_Serializer:
  "SetFlag (fst (Serializer e m a)) a f = fst (Serializer (e\<lparr>flags := f\<rparr>) m a)"
  by (simp add: SetFlag_def FlagPos_def put_le_def Serializer_mem write_bytes_overwrite)
    (simp add: entry_bytes_def header_bytes_def)

section \<open>Streams of items\<close>

text \<open>
  The loops that write a list of items share one contract: a writer that puts one item at an address
  and reports its size, and a representation predicate that only depends on the bytes of that item.
  The locale proves once that such a loop lays the items out one after the other and touches nothing
  else; it is interpreted for log entries and for request ids.
\<close>

fun chain :: "(mem \<Rightarrow> nat \<Rightarrow> 'a \<Rightarrow> bool) \<Rightarrow> ('a \<Rightarrow> nat) \<Rightarrow> mem \<Rightarrow> nat \<Rightarrow> 'a list \<Rightarrow> bool" where
  "chain at sz m a [] \<longleftrightarrow> True"
| "chain at sz m a (x # xs) \<longleftrightarrow> at m a x \<and> chain at sz m (a + sz x) xs"

lemma chain_append:
  "chain at sz m a (xs @ ys) \<longleftrightarrow> chain at sz m a xs \<and> chain at sz m (a + sum_list (map sz xs)) ys"
  by (induction xs arbitrary: a) (auto simp: add.assoc)

locale stream_writer =
  fixes put :: "'a \<Rightarrow> mem \<Rightarrow> nat \<Rightarrow> mem \<times> u64"
    and at :: "mem \<Rightarrow> nat \<Rightarrow> 'a \<Rightarrow> bool"
    and sz :: "'a \<Rightarrow> nat"
    and ok :: "'a \<Rightarrow> bool"
    and loop :: "'a list \<Rightarrow> mem \<Rightarrow> nat \<Rightarrow> u64 \<Rightarrow> mem \<times> u64"
  assumes put_at: "ok x \<Longrightarrow> at (fst (put x m a)) a x"
    and put_size: "ok x \<Longrightarrow> unat (snd (put x m a)) = sz x"
    and put_frame: "ok x \<Longrightarrow> b < a \<or> a + sz x \<le> b \<Longrightarrow> fst (put x m a) b = m b"
    and at_frame: "ok x \<Longrightarrow> at m a x \<Longrightarrow> (\<And>b. a \<le> b \<Longrightarrow> b < a + sz x \<Longrightarrow> m' b = m b) \<Longrightarrow> at m' a x"
    and loop_Nil: "loop [] m a off = (m, off)"
    and loop_Cons: "loop (x # xs) m a off =
      (let (m', n) = put x m (a + unat off) in loop xs m' a (off + n))"
begin

abbreviation tot :: "'a list \<Rightarrow> nat" where
  "tot xs \<equiv> sum_list (map sz xs)"

lemma chain_frame:
  "list_all ok xs \<Longrightarrow> chain at sz m a xs \<Longrightarrow>
    (\<And>b. a \<le> b \<Longrightarrow> b < a + tot xs \<Longrightarrow> m' b = m b) \<Longrightarrow> chain at sz m' a xs"
proof (induction xs arbitrary: a)
  case (Cons x xs)
  have "at m' a x"
    using Cons.prems by (intro at_frame [of x m a m']) auto
  moreover have "chain at sz m' (a + sz x) xs"
    using Cons.prems by (intro Cons.IH) auto
  ultimately show ?case by simp
qed simp

lemma loop_spec:
  assumes "list_all ok xs" and "unat off + tot xs < 2 ^ 64"
  shows "chain at sz (fst (loop xs m a off)) (a + unat off) xs \<and>
    unat (snd (loop xs m a off)) = unat off + tot xs \<and>
    (\<forall>b. b < a + unat off \<or> a + unat off + tot xs \<le> b \<longrightarrow> fst (loop xs m a off) b = m b)"
  using assms
proof (induction xs arbitrary: m off)
  case Nil
  show ?case by (simp add: loop_Nil)
next
  case (Cons x xs)
  obtain m1 n where put: "put x m (a + unat off) = (m1, n)" by force
  let ?r = "loop xs m1 a (off + n)"
  have o: "ok x" "list_all ok xs" using Cons.prems by auto
  have "unat n = sz x"
    using put_size [OF o(1), of m "a + unat off"] put by simp
  then have off': "unat (off + n) = unat off + sz x"
    using Cons.prems by (subst unat_add_small) auto
  have "unat (off + n) + tot xs < 2 ^ 64"
    using Cons.prems off' by simp
  note IH = Cons.IH [OF o(2) this, of m1, unfolded off']
  have IH1: "chain at sz (fst ?r) (a + unat off + sz x) xs"
    and IH2: "unat (snd ?r) = unat off + sz x + tot xs"
    using IH by (simp_all add: add.assoc)
  have IH3: "fst ?r b = m1 b"
    if "b < a + unat off + sz x \<or> a + unat off + sz x + tot xs \<le> b" for b
    using IH [THEN conjunct2, THEN conjunct2, THEN spec, of b] that by (simp only: add.assoc)
  have "at m1 (a + unat off) x"
    using put_at [OF o(1), of m "a + unat off"] put by simp
  then have "at (fst ?r) (a + unat off) x"
    by (rule at_frame [OF o(1)]) (simp add: IH3)
  then have "chain at sz (fst ?r) (a + unat off) (x # xs)"
    using IH1 by simp
  moreover have "fst ?r b = m b" if "b < a + unat off \<or> a + unat off + tot (x # xs) \<le> b" for b
  proof -
    from that have "b < a + unat off + sz x \<or> a + unat off + sz x + tot xs \<le> b"
      and *: "b < a + unat off \<or> a + unat off + sz x \<le> b"
      by auto
    then have "fst ?r b = m1 b"
      by (intro IH3)
    then show ?thesis
      using put_frame [OF o(1) *, of m] put by simp
  qed
  ultimately show ?case
    using IH2 put by (simp add: loop_Cons)
qed

lemmas loop_chain = loop_spec [THEN conjunct1]
  and loop_size = loop_spec [THEN conjunct2, THEN conjunct1]
  and loop_frame = loop_spec [THEN conjunct2, THEN conjunct2, rule_format]

lemma counted_stream:
  fixes n :: u32
  assumes "list_all ok xs" "4 + tot xs < 2 ^ 64"
  shows "get_le (fst (loop xs (put_le m a n) a 4)) a = n"
    and "chain at sz (fst (loop xs (put_le m a n) a 4)) (a + 4) xs"
    and "snd (loop xs (put_le m a n) a 4) = of_nat (4 + tot xs)"
proof -
  have b: "unat (4 :: u64) + tot xs < 2 ^ 64" using assms(2) by simp
  show "chain at sz (fst (loop xs (put_le m a n) a 4)) (a + 4) xs"
    using loop_chain [OF assms(1) b, of "put_le m a n" a] by simp
  show "snd (loop xs (put_le m a n) a 4) = of_nat (4 + tot xs)"
    using loop_size [OF assms(1) b, of "put_le m a n" a] by (intro word_eq_of_nat) simp
  have "bytes_at (fst (loop xs (put_le m a n) a 4)) a 4 = bytes_at (put_le m a n) a 4"
    using loop_frame [OF assms(1) b, of _ a "put_le m a n"] by (intro bytes_at_cong) simp
  then have "get_le (fst (loop xs (put_le m a n) a 4)) a = (get_le (put_le m a n) a :: u32)"
    by (simp add: get_le_def)
  then show "get_le (fst (loop xs (put_le m a n) a 4)) a = n"
    by simp
qed

end

abbreviation entries_at :: "mem \<Rightarrow> nat \<Rightarrow> LogEntry list \<Rightarrow> bool" where
  "entries_at \<equiv> chain entry_at esz"

abbreviation tsz :: "LogEntry list \<Rightarrow> nat" where
  "tsz es \<equiv> sum_list (map esz es)"

lemma tsz_ge_length: "32 * length es \<le> tsz es"
proof (induction es)
  case (Cons e es)
  then show ?case using esz_bounds(1) [of e] by simp
qed simp

interpretation ew: stream_writer Serializer entry_at esz wf_entry MultiSerializer_loop
proof unfold_locales
  fix x :: LogEntry and m m' :: mem and a b :: nat
  show "entry_at (fst (Serializer x m a)) a x"
    by (rule entry_at_Serializer)
  show "wf_entry x \<Longrightarrow> unat (snd (Serializer x m a)) = esz x"
    by (rule Serializer_size) (simp add: wf_entry_def)
  show "wf_entry x \<Longrightarrow> b < a \<or> a + esz x \<le> b \<Longrightarrow> fst (Serializer x m a) b = m b"
    using esz_bounds(1) [of x] by (auto simp: Serializer_mem)
  show "entry_at m' a x" if "entry_at m a x" "\<And>b. a \<le> b \<Longrightarrow> b < a + esz x \<Longrightarrow> m' b = m b"
    using that esz_bounds(1) [of x] by (subst entry_at_cong [where m = m]) auto
qed simp_all

definition reqid_at :: "mem \<Rightarrow> nat \<Rightarrow> ReqID \<Rightarrow> bool" where
  "reqid_at m a rid \<longleftrightarrow> bytes_at m a 16 = le_bytes (fst rid) @ le_bytes (snd rid)"

lemma ReqIdSerializer_item_mem:
  "ReqIdSerializer_item rid m a = (write_bytes m a (le_bytes (fst rid) @ le_bytes (snd rid)), 16)"
  using write_bytes_append [of m a "le_bytes (fst rid)" "le_bytes (snd rid)"]
  by (simp add: ReqIdSerializer_item_def put_le_def)

interpretation rw: stream_writer ReqIdSerializer_item reqid_at "\<lambda>_. 16" "\<lambda>_. True" ReqIdSerializer_loop
proof unfold_locales
  fix x :: ReqID and m m' :: mem and a b :: nat
  show "reqid_at (fst (ReqIdSerializer_item x m a)) a x"
    by (simp add: ReqIdSerializer_item_mem reqid_at_def)
  show "b < a \<or> a + 16 \<le> b \<Longrightarrow> fst (ReqIdSerializer_item x m a) b = m b"
    by (simp add: ReqIdSerializer_item_mem)
  show "reqid_at m' a x" if "reqid_at m a x" "\<And>b. a \<le> b \<Longrightarrow> b < a + 16 \<Longrightarrow> m' b = m b"
    using that bytes_at_cong [of 16 m' a m a] by (simp add: reqid_at_def)
qed (simp_all add: ReqIdSerializer_item_mem)

lemma reqid_at_get:
  assumes "reqid_at m a rid"
  shows "get_le m a = fst rid" "get_le m (a + 8) = snd rid"
  using get_le_eq_word [OF _ assms [unfolded reqid_at_def], of 0, where ?'a = 64]
    get_le_eq_word [OF _ assms [unfolded reqid_at_def], of 8, where ?'a = 64]
  by (simp_all add: le_word_le_bytes)

section \<open>Reading streams back\<close>

lemma MultiDeserializer_loop_chain:
  assumes "entries_at m (buf + unat off) es" "list_all wf_entry es" "unat off + tsz es < 2 ^ 64"
  shows "MultiDeserializer_loop (length es) acc m buf off =
    (acc @ takeWhile valid es, off + of_nat (tsz (takeWhile valid es)))"
  using assms
proof (induction es arbitrary: acc off)
  case (Cons e es)
  note step = Deserializer_any [of m "buf + unat off" e LogEntry_new]
  show ?case
  proof (cases "valid e")
    case False
    then show ?thesis
      using Cons.prems step by (simp add: case_prod_beta)
  next
    case True
    have off': "unat (off + of_nat (esz e) :: u64) = unat off + esz e"
      using Cons.prems by (intro unat_add_esz) auto
    have "MultiDeserializer_loop (length es) (acc @ [e]) m buf (off + of_nat (esz e)) =
      ((acc @ [e]) @ takeWhile valid es, off + of_nat (esz e) + of_nat (tsz (takeWhile valid es)))"
      using Cons.prems off' by (intro Cons.IH) (simp_all add: add.assoc)
    then show ?thesis
      using True Cons.prems step by (simp add: case_prod_beta of_nat_esz_neq_0 add.assoc)
  qed
qed simp

lemma MultiDeserializer_size_chain:
  assumes "entries_at m (buf + unat off) es" "list_all wf_entry es"
    "unat buf_size = unat off + tsz es"
  shows "MultiDeserializer_size acc m buf buf_size off =
    Some (acc @ takeWhile valid es, off + of_nat (tsz (takeWhile valid es)))"
  using assms
proof (induction es arbitrary: acc off)
  case Nil
  then show ?case by (subst MultiDeserializer_size.simps) (simp add: word_less_nat_alt)
next
  case (Cons e es)
  note step = Deserializer_any [of m "buf + unat off" e LogEntry_new]
  have lt: "off < buf_size"
    using Cons.prems esz_bounds(1) [of e] by (simp add: word_less_nat_alt)
  show ?case
  proof (cases "valid e")
    case False
    then show ?thesis
      using Cons.prems step lt by (subst MultiDeserializer_size.simps) (simp add: case_prod_beta)
  next
    case True
    have off': "unat (off + of_nat (esz e) :: u64) = unat off + esz e"
      using Cons.prems unsigned_less [of buf_size, where ?'a = nat] by (intro unat_add_esz) auto
    have "MultiDeserializer_size (acc @ [e]) m buf buf_size (off + of_nat (esz e)) =
      Some ((acc @ [e]) @ takeWhile valid es, off + of_nat (esz e) + of_nat (tsz (takeWhile valid es)))"
      using Cons.prems off' by (intro Cons.IH) (simp_all add: add.assoc)
    then show ?thesis
      using True Cons.prems step lt
      by (subst MultiDeserializer_size.simps) (simp add: case_prod_beta of_nat_esz_neq_0 add.assoc)
  qed
qed

fun fit_prefix :: "nat \<Rightarrow> LogEntry list \<Rightarrow> LogEntry list" where
  "fit_prefix n [] = []"
| "fit_prefix n (e # es) = (if esz e \<le> n \<and> valid e then e # fit_prefix (n - esz e) es else [])"

lemma MultiDeserializerMaxSize_loop_chain:
  assumes "entries_at m0 (buf + unat off) es" "list_all wf_entry es"
    "unat off \<le> unat max_size" "unat max_size \<le> unat off + tsz es"
    and agree: "\<And>x. buf + unat off \<le> x \<Longrightarrow> x < buf + unat max_size \<Longrightarrow> m x = m0 x"
  shows "MultiDeserializerMaxSize_loop acc m buf max_size off =
    (let fs = fit_prefix (unat max_size - unat off) es in Some (acc @ fs, off + of_nat (tsz fs)))"
  using assms
proof (induction es arbitrary: acc off)
  case Nil
  then show ?case
    by (subst MultiDeserializerMaxSize_loop.simps) (simp add: word_less_nat_alt)
next
  case (Cons e es)
  have e0: "entry_at m0 (buf + unat off) e" "wf_entry e"
    using Cons.prems by auto
  have rem: "unat (max_size - off) = unat max_size - unat off"
    using Cons.prems by (simp add: unat_sub word_le_nat_alt)
  have md: "unat MetaDataSize = 32"
    by (simp add: MetaDataSize_def FlagPos_def)
  have c: "max_size - off < MetaDataSize \<longleftrightarrow> unat max_size - unat off < 32"
    by (simp add: word_less_nat_alt rem md)
  have sz: "max_size - off < GetSizeFromBuf m (buf + unat off) \<longleftrightarrow> unat max_size - unat off < esz e"
    if "32 \<le> unat max_size - unat off"
  proof -
    have "(get_le m (buf + unat off + 24) :: u32) = get_le m0 (buf + unat off + 24)"
      unfolding get_le_def using Cons.prems(5) that
      by (intro arg_cong [where f = le_word] bytes_at_cong) simp
    then show ?thesis
      using GetSizeFromBuf_eq [OF e0] by (simp add: word_less_nat_alt rem GetSizeFromBuf_def)
  qed
  show ?case
  proof (cases "esz e \<le> unat max_size - unat off")
    case False
    then show ?thesis
      using c sz by (subst MultiDeserializerMaxSize_loop.simps) (auto simp: not_less)
  next
    case True
    then have lt: "off < max_size" and c32: "32 \<le> unat max_size - unat off"
      using esz_bounds(1) [of e] Cons.prems(3) by (auto simp: word_less_nat_alt)
    have "m x = m0 x" if "buf + unat off \<le> x" "x < buf + unat off + 32 + length (data e)" for x
      using Cons.prems(5) that True esz_bounds(1) [of e] by auto
    then have e: "entry_at m (buf + unat off) e" "wf_entry e"
      using e0 by (subst entry_at_cong [where m = m0], auto)
    note step = Deserializer_any [OF e, of LogEntry_new]
    show ?thesis
    proof (cases "valid e")
      case False
      then show ?thesis
        using step lt c c32 sz True
        by (subst MultiDeserializerMaxSize_loop.simps) (simp add: case_prod_beta)
    next
      case v: True
      have off': "unat (off + of_nat (esz e) :: u64) = unat off + esz e"
        using True Cons.prems(3) unsigned_less [of max_size, where ?'a = nat] e(2)
        by (intro unat_add_esz) auto
      have "MultiDeserializerMaxSize_loop (acc @ [e]) m buf max_size (off + of_nat (esz e)) =
        (let fs = fit_prefix (unat max_size - unat (off + of_nat (esz e))) es
         in Some ((acc @ [e]) @ fs, off + of_nat (esz e) + of_nat (tsz fs)))"
        using Cons.prems off' True by (intro Cons.IH) (auto simp: add.assoc)
      then show ?thesis
        using v True e step lt c c32 sz off'
        by (subst MultiDeserializerMaxSize_loop.simps)
          (simp add: case_prod_beta of_nat_esz_neq_0 Let_def)
    qed
  qed
qed

fun idx_offsets :: "u64 \<Rightarrow> LogEntry list \<Rightarrow> (u64 \<times> u64) list" where
  "idx_offsets b [] = []"
| "idx_offsets b (e # es) = (log_idx e, b) # idx_offsets (b + of_nat (esz e)) es"

lemma ProcessAndBuildMap_loop_chain:
  assumes "entries_at m (buf + unat off) es" "list_all wf_entry es" "unat off + tsz es < 2 ^ 64"
  shows "ProcessAndBuildMap_loop (length es) d mp m buf cfo off =
    (let vs = takeWhile valid es
     in (map_updates mp (idx_offsets (cfo + off - 4) vs), off + of_nat (tsz vs)))"
  using assms
proof (induction es arbitrary: d mp off)
  case (Cons e es)
  note step = Deserializer_any [of m "buf + unat off" e d]
  show ?case
  proof (cases "valid e")
    case False
    then show ?thesis
      using Cons.prems step by (simp add: case_prod_beta)
  next
    case True
    have off': "unat (off + of_nat (esz e) :: u64) = unat off + esz e"
      using Cons.prems by (intro unat_add_esz) auto
    have "ProcessAndBuildMap_loop (length es) e (mp(log_idx e \<mapsto> cfo + off - 4)) m buf cfo (off + of_nat (esz e)) =
      (let vs = takeWhile valid es
       in (map_updates (mp(log_idx e \<mapsto> cfo + off - 4)) (idx_offsets (cfo + (off + of_nat (esz e)) - 4) vs),
           off + of_nat (esz e) + of_nat (tsz vs)))"
      using Cons.prems off' by (intro Cons.IH) (simp_all add: add.assoc)
    then show ?thesis
      using True Cons.prems step
      by (simp add: case_prod_beta of_nat_esz_neq_0 Let_def algebra_simps)
  qed
qed simp

lemma ProcessAndBuildMap_size_loop_chain:
  assumes "entries_at m (buf + unat off) es" "list_all wf_entry es" "list_all valid es"
    "unat buf_size = unat off + tsz es"
  shows "ProcessAndBuildMap_size_loop d mp m buf buf_size cfo off num =
    Some (map_updates mp (idx_offsets (cfo + off) es), off + of_nat (tsz es), num + of_nat (length es))"
  using assms
proof (induction es arbitrary: d mp off num)
  case Nil
  then show ?case by (subst ProcessAndBuildMap_size_loop.simps) (simp add: word_less_nat_alt)
next
  case (Cons e es)
  note step = Deserializer_any [of m "buf + unat off" e d]
  have lt: "off < buf_size"
    using Cons.prems esz_bounds(1) [of e] by (simp add: word_less_nat_alt)
  have off': "unat (off + of_nat (esz e) :: u64) = unat off + esz e"
    using Cons.prems unsigned_less [of buf_size, where ?'a = nat] by (intro unat_add_esz) auto
  have "ProcessAndBuildMap_size_loop e (mp(log_idx e \<mapsto> cfo + off)) m buf buf_size cfo (off + of_nat (esz e)) (num + 1) =
    Some (map_updates (mp(log_idx e \<mapsto> cfo + off)) (idx_offsets (cfo + (off + of_nat (esz e))) es),
      off + of_nat (esz e) + of_nat (tsz es), num + 1 + of_nat (length es))"
    using Cons.prems off' by (intro Cons.IH) (simp_all add: add.assoc)
  then show ?case
    using Cons.prems step lt
    by (subst ProcessAndBuildMap_size_loop.simps) (simp add: case_prod_beta of_nat_esz_neq_0 algebra_simps)
qed

lemma idx_offsets_append:
  "idx_offsets b (xs @ ys) = idx_offsets b xs @ idx_offsets (b + of_nat (tsz xs)) ys"
  by (induction xs arbitrary: b) (simp_all add: add.assoc)

lemma map_fst_idx_offsets [simp]: "map fst (idx_offsets b es) = map log_idx es"
  by (induction es arbitrary: b) simp_all

lemma length_idx_offsets [simp]: "length (idx_offsets b es) = length es"
  by (induction es arbitrary: b) simp_all

lemma nth_idx_offsets:
  "i < length es \<Longrightarrow> idx_offsets b es ! i = (log_idx (es ! i), b + of_nat (tsz (take i es)))"
  by (induction es arbitrary: b i) (auto simp: nth_Cons add.assoc split: nat.split)

lemma ReqIdDeserializer_loop_chain:
  assumes "chain reqid_at (\<lambda>_. 16) m (buf + unat off) ids" "unat off + 16 * length ids < 2 ^ 64"
  shows "ReqIdDeserializer_loop (length ids) acc m buf off = (acc @ ids, off + of_nat (16 * length ids))"
  using assms
proof (induction ids arbitrary: acc off)
  case (Cons rid ids)
  have o8: "unat (off + 8) = unat off + 8" and o16: "unat (off + 16) = unat off + 16"
    using Cons.prems by (subst unat_add_small; simp)+
  have "ReqIdDeserializer_loop (length ids) (acc @ [rid]) m buf (off + 16) =
    ((acc @ [rid]) @ ids, off + 16 + of_nat (16 * length ids))"
    using Cons.prems o16 by (intro Cons.IH) (simp_all add: add.assoc)
  then show ?case
    using Cons.prems reqid_at_get [of m "buf + unat off" rid] o8
    by (simp add: Let_def add.assoc algebra_simps)
qed simp

lemma MultiSerializer_itrv_loop_spec:
  assumes "0 < itrv" "unat to < length es" "list_all wf_entry es"
    and "unat to + unat itrv < 2 ^ 64"
    and "unat off + tsz (map ((!) es) (steps (unat i) (unat to) (unat itrv))) < 2 ^ 64"
    and "unat i \<le> unat to + unat itrv"
  shows "MultiSerializer_itrv_loop es i to itrv m buf off num =
    (let xs = map ((!) es) (steps (unat i) (unat to) (unat itrv))
     in Some (fst (MultiSerializer_loop xs m buf off), snd (MultiSerializer_loop xs m buf off),
              num + of_nat (length xs), i + of_nat (length xs) * ucast itrv))"
  using assms
proof (induction "unat to + unat itrv - unat i" arbitrary: i m off num rule: less_induct)
  case less
  have d: "0 < unat itrv" using less.prems(1) by (simp add: word_less_nat_alt)
  show ?case
  proof (cases "i \<le> to")
    case False
    then have "unat to < unat i" by (simp add: word_le_nat_alt)
    then show ?thesis using False
      by (subst MultiSerializer_itrv_loop.simps) simp
  next
    case True
    then have le: "unat i \<le> unat to" by (simp add: word_le_nat_alt)
    then have st: "steps (unat i) (unat to) (unat itrv) =
        unat i # steps (unat i + unat itrv) (unat to) (unat itrv)"
      using d by (rule steps_rec)
    have i': "unat (i + ucast itrv) = unat i + unat itrv"
      using less.prems(4) le by (subst unat_add_small) auto
    let ?e = "es ! unat i"
    have lt: "unat i < length es" using le less.prems(2) by simp
    then have wf: "wf_entry ?e" using less.prems(3) by (simp add: list_all_length)
    obtain m1 n where ser: "Serializer ?e m (buf + unat off) = (m1, n)" by force
    have n: "unat n = esz ?e"
      using ew.put_size [OF wf, of m "buf + unat off"] ser by simp
    have off': "unat (off + n) = unat off + esz ?e"
      using less.prems(5) n st by (subst unat_add_small) auto
    have "MultiSerializer_itrv_loop es (i + ucast itrv) to itrv m1 buf (off + n) (num + 1) =
      (let xs = map ((!) es) (steps (unat (i + ucast itrv)) (unat to) (unat itrv))
       in Some (fst (MultiSerializer_loop xs m1 buf (off + n)), snd (MultiSerializer_loop xs m1 buf (off + n)),
              num + 1 + of_nat (length xs), i + ucast itrv + of_nat (length xs) * ucast itrv))"
    proof (rule less.hyps)
      show "unat to + unat itrv - unat (i + ucast itrv) < unat to + unat itrv - unat i"
        using i' d le by simp
      show "unat (off + n) + tsz (map ((!) es) (steps (unat (i + ucast itrv)) (unat to) (unat itrv))) < 2 ^ 64"
        using less.prems(5) off' st i' by simp
      show "unat (i + ucast itrv) \<le> unat to + unat itrv"
        using i' le by simp
    qed (use less.prems in auto)
    then show ?thesis
      using True lt ser st i'
      by (subst MultiSerializer_itrv_loop.simps) (simp add: Let_def algebra_simps)
  qed
qed

section \<open>Correctness of the wire format\<close>

text \<open>C37. Round trip of one entry: an entry whose size field is the length of its payload and whose
  flags are set is read back from the buffer \<^verbatim>\<open>Serializer\<close> wrote, every field and the payload, and
  both sides report the same number of bytes.\<close>

theorem Serializer_roundtrip:
  assumes "wf_entry e" "flags e \<noteq> 0"
  shows "Deserializer e0 (fst (Serializer e m buf)) buf = (e, snd (Serializer e m buf))"
proof -
  have "snd (Serializer e m buf) = of_nat (esz e)"
    using assms(1) by (intro word_eq_of_nat ew.put_size)
  then show ?thesis
    using Deserializer_entry [OF entry_at_Serializer assms] by simp
qed

theorem Serializer_roundtrip_witness:
  "let e = (LogEntry_of [1, 2, 3])\<lparr>client_id := 42, client_seq := 7, log_idx := 9, flags := 1\<rparr>
   in Deserializer LogEntry_new (fst (Serializer e (\<lambda>_. 255) 100)) 100 =
        (e, snd (Serializer e (\<lambda>_. 255) 100))"
  unfolding Let_def
  by (rule Serializer_roundtrip) (simp_all add: wf_entry_def LogEntry_of_def LogEntry_new_def)

text \<open>C38. \<^verbatim>\<open>Serializer\<close> writes no byte outside the first \<open>GetSize e\<close> bytes of the buffer,
  returns \<open>GetSize e\<close>, which is also what \<^verbatim>\<open>GetSizeFromBuf\<close> computes from the written header,
  and that size is a multiple of four that leaves less than four bytes of padding.\<close>

theorem Serializer_bounds:
  assumes "wf_entry e"
  shows "snd (Serializer e m buf) = GetSize e \<and>
    GetSizeFromBuf (fst (Serializer e m buf)) buf = GetSize e \<and>
    (\<forall>x. x < buf \<or> buf + unat (GetSize e) \<le> x \<longrightarrow> fst (Serializer e m buf) x = m x) \<and>
    unat (GetSize e) mod 4 = 0 \<and>
    32 + length (data e) \<le> unat (GetSize e) \<and> unat (GetSize e) < 36 + length (data e)"
proof -
  note sz = GetSize_eq [OF assms]
  have "snd (Serializer e m buf) = GetSize e"
    using ew.put_size [OF assms, of m buf] sz by (metis word_eq_of_nat)
  moreover have "GetSizeFromBuf (fst (Serializer e m buf)) buf = GetSize e"
    using GetSizeFromBuf_eq [OF entry_at_Serializer assms] sz by (metis word_eq_of_nat)
  moreover have "fst (Serializer e m buf) x = m x" if "x < buf \<or> buf + unat (GetSize e) \<le> x" for x
    using that sz ew.put_frame [OF assms, of x buf m] by simp
  moreover have "unat (GetSize e) mod 4 = 0"
    by (simp add: sz esz_def mod_add_eq [symmetric, of 32])
  ultimately show ?thesis
    using esz_bounds [of e] by (simp add: sz)
qed

theorem Serializer_bounds_witness:
  "snd (Serializer (LogEntry_of [1, 2, 3]) (\<lambda>_. 0) 8) = GetSize (LogEntry_of [1, 2, 3]) \<and>
   fst (Serializer (LogEntry_of [1, 2, 3]) (\<lambda>_. 0) 8) 7 = 0"
proof -
  have "wf_entry (LogEntry_of [1, 2, 3])"
    by (simp add: wf_entry_def LogEntry_of_def LogEntry_new_def)
  then show ?thesis
    using Serializer_bounds [of "LogEntry_of [1, 2, 3]" "\<lambda>_. 0" 8] by simp
qed

lemma MultiSerializer_image:
  assumes "list_all wf_entry es" "length es < 2 ^ 32" "4 + tsz es < 2 ^ 64"
  shows "get_le (fst (MultiSerializer es m buf)) buf = (of_nat (length es) :: u32)"
    and "entries_at (fst (MultiSerializer es m buf)) (buf + 4) es"
    and "snd (MultiSerializer es m buf) = of_nat (4 + tsz es)"
  using ew.counted_stream [OF assms(1, 3), of m buf "of_nat (length es)"]
  by (simp_all add: MultiSerializer_def)

lemma MultiDeserializer_batch:
  assumes "get_le m buf = (of_nat (length es) :: u32)" "entries_at m (buf + 4) es"
    and "list_all wf_entry es" "length es < 2 ^ 32" "4 + tsz es < 2 ^ 64"
  shows "MultiDeserializer acc m buf = (acc @ takeWhile valid es, 4 + of_nat (tsz (takeWhile valid es)))"
proof -
  have "unat (of_nat (length es) :: u32) = length es"
    using assms(4) by (simp add: unat_of_nat_small)
  then show ?thesis
    using MultiDeserializer_loop_chain [of m buf 4 es acc] assms(1-3, 5)
    by (simp add: MultiDeserializer_def)
qed

lemma takeWhile_all: "list_all P xs \<Longrightarrow> takeWhile P xs = xs"
  by (induction xs) auto

lemma MultiDeserializer_valid:
  assumes "get_le m buf = (of_nat (length es) :: u32)" "entries_at m (buf + 4) es"
    and "list_all wf_entry es" "list_all valid es" "length es < 2 ^ 32" "4 + tsz es < 2 ^ 64"
  shows "MultiDeserializer acc m buf = (acc @ es, of_nat (4 + tsz es))"
  using MultiDeserializer_batch [OF assms(1-3, 5-6)] assms(4) by (simp add: takeWhile_all)

lemma ReqIdSerializer_image:
  assumes "length ids < 2 ^ 32"
  shows "get_le (fst (ReqIdSerializer ids m buf)) buf = (of_nat (length ids) :: u32)"
    and "chain reqid_at (\<lambda>_. 16) (fst (ReqIdSerializer ids m buf)) (buf + 4) ids"
    and "snd (ReqIdSerializer ids m buf) = of_nat (4 + 16 * length ids)"
proof -
  have "4 + rw.tot ids < 2 ^ 64" "rw.tot ids = 16 * length ids"
    using assms by (simp_all add: sum_list_triv)
  then show "get_le (fst (ReqIdSerializer ids m buf)) buf = (of_nat (length ids) :: u32)"
    and "chain reqid_at (\<lambda>_. 16) (fst (ReqIdSerializer ids m buf)) (buf + 4) ids"
    and "snd (ReqIdSerializer ids m buf) = of_nat (4 + 16 * length ids)"
    using rw.counted_stream [of ids m buf "of_nat (length ids)"]
    by (simp_all add: ReqIdSerializer_def list_all_iff)
qed

lemma ReqIdDeserializer_batch:
  assumes "get_le m buf = (of_nat (length ids) :: u32)" "chain reqid_at (\<lambda>_. 16) m (buf + 4) ids"
    and "length ids < 2 ^ 32"
  shows "ReqIdDeserializer acc m buf = (acc @ ids, 4 + of_nat (16 * length ids))"
  using ReqIdDeserializer_loop_chain [of m buf 4 ids acc] assms
  by (simp add: ReqIdDeserializer_def unat_of_nat_small)

text \<open>C39. Round trip of a batch: what \<^verbatim>\<open>MultiSerializer\<close> wrote is read back by
  \<^verbatim>\<open>MultiDeserializer\<close> up to the first entry whose flags are 0 (all of it when there is none),
  appended to what the output vector held, and the returned offset is just behind the last entry read.\<close>

theorem MultiSerializer_roundtrip:
  assumes "list_all wf_entry es" "length es < 2 ^ 32" "4 + tsz es < 2 ^ 64"
  shows "MultiDeserializer acc (fst (MultiSerializer es m buf)) buf =
    (acc @ takeWhile valid es, 4 + of_nat (tsz (takeWhile valid es)))"
  by (rule MultiDeserializer_batch [OF MultiSerializer_image(1, 2) [OF assms] assms])

theorem MultiSerializer_roundtrip_witness:
  "let e = (LogEntry_of [1, 2])\<lparr>flags := 1\<rparr>; f = LogEntry_of [3]
   in MultiDeserializer [] (fst (MultiSerializer [e, f, e] (\<lambda>_. 7) 16)) 16 = ([e], 4 + of_nat (tsz [e]))"
proof -
  let ?e = "(LogEntry_of [1, 2])\<lparr>flags := 1\<rparr>" and ?f = "LogEntry_of [3]"
  have wf: "wf_entry ?e" "wf_entry ?f" and v: "valid ?e" "\<not> valid ?f"
    by (simp_all add: wf_entry_def valid_def LogEntry_of_def LogEntry_new_def)
  have "tsz [?e, ?f, ?e] < 300"
    using esz_bounds(2) [of ?e] esz_bounds(2) [of ?f] by (simp add: LogEntry_of_def LogEntry_new_def)
  then show ?thesis
    using MultiSerializer_roundtrip [of "[?e, ?f, ?e]" "[]" "\<lambda>_. 7" 16] wf v by (simp add: Let_def)
qed

text \<open>Reading a prefix of a batch of at most \<open>max_size\<close> bytes:
  \<^verbatim>\<open>MultiDeserializerMaxSize\<close> terminates and returns exactly the leading entries that lie wholly
  inside the given number of bytes and are flagged as written, and the number of bytes they take. It
  never returns a cut entry.\<close>

theorem MultiDeserializerMaxSize_prefix:
  assumes "list_all wf_entry es" "length es < 2 ^ 32" "4 + tsz es < 2 ^ 64"
    and "unat max_size \<le> tsz es"
  shows "MultiDeserializerMaxSize acc (fst (MultiSerializer es m buf)) (buf + 4) max_size =
    (let fs = fit_prefix (unat max_size) es in Some (acc @ fs, of_nat (tsz fs)))"
  using MultiDeserializerMaxSize_loop_chain
    [of "fst (MultiSerializer es m buf)" "buf + 4" 0 es max_size "fst (MultiSerializer es m buf)" acc]
    MultiSerializer_image(2) [OF assms(1-3), of m buf] assms
  by (simp add: MultiDeserializerMaxSize_def Let_def)

theorem MultiDeserializerMaxSize_prefix_witness:
  "let e = (LogEntry_of [1, 2])\<lparr>flags := 1\<rparr>
   in MultiDeserializerMaxSize [] (fst (MultiSerializer [e, e] (\<lambda>_. 7) 16)) 20 50 = Some ([e], of_nat (tsz [e]))"
proof -
  let ?e = "(LogEntry_of [1, 2])\<lparr>flags := 1\<rparr>"
  have wf: "wf_entry ?e" and v: "valid ?e" and sz: "esz ?e = 36"
    by (simp_all add: wf_entry_def valid_def esz_def align4_def LogEntry_of_def LogEntry_new_def)
  show ?thesis
    using MultiDeserializerMaxSize_prefix [of "[?e, ?e]" 50 "[]" "\<lambda>_. 7" 16] wf v sz
    by (simp add: Let_def)
qed

lemma MultiSerializer_itrv_image:
  assumes "0 < itrv" "unat lo \<le> unat hi" "unat hi < length es" "list_all wf_entry es" "length es < 2 ^ 32"
    and xs: "xs = map ((!) es) (steps (unat lo) (unat hi) (unat itrv))" "4 + tsz xs < 2 ^ 64"
  shows "set xs \<subseteq> set es" "length xs < 2 ^ 32"
    and "\<exists>m'. MultiSerializer_itrv es lo hi itrv m buf =
      Some (m', of_nat (last (steps (unat lo) (unat hi) (unat itrv))), of_nat (4 + tsz xs)) \<and>
    get_le m' buf = (of_nat (length xs) :: u32) \<and> entries_at m' (buf + 4) xs"
proof -
  let ?st = "steps (unat lo) (unat hi) (unat itrv)" and ?l = "MultiSerializer_loop xs m buf 4"
  have d: "0 < unat itrv" using assms(1) by (simp add: word_less_nat_alt)
  have b: "unat (4 :: u64) + tsz xs < 2 ^ 64" using xs(2) by simp
  have le: "unat hi + unat itrv < 2 ^ 64"
    using assms(3, 5) unsigned_less [of itrv, where ?'a = nat] by simp
  have i: "unat lo \<le> unat hi + unat itrv"
    using assms(2) by simp
  have loop: "MultiSerializer_itrv_loop es lo hi itrv m buf 4 0 =
    Some (fst ?l, snd ?l, of_nat (length xs), lo + of_nat (length xs) * ucast itrv)"
    using MultiSerializer_itrv_loop_spec [OF assms(1, 3, 4) le, of 4 lo m buf 0, folded xs(1), OF b i]
    by (simp add: Let_def)
  show sub: "set xs \<subseteq> set es"
    using assms(3) by (auto simp: xs(1) dest!: steps_bound intro!: nth_mem)
  then have wf: "list_all wf_entry xs"
    using assms(4) by (auto simp: list_all_iff)
  show "length xs < 2 ^ 32"
    using steps_length [OF d assms(2)] assms(3, 5) by (simp add: xs(1))
  have last: "lo + of_nat (length xs) * ucast itrv - ucast itrv = of_nat (last ?st)"
    using steps_last_word [OF d assms(2)] by (simp only: xs(1) length_map ucast_64_of_nat)
  define m' where "m' = put_le (fst ?l) buf (of_nat (length xs) :: u32)"
  have "MultiSerializer_itrv es lo hi itrv m buf = Some (m', of_nat (last ?st), of_nat (4 + tsz xs))"
    using loop last word_eq_of_nat [OF ew.loop_size [OF wf b, of m buf]]
    by (simp add: MultiSerializer_itrv_def m'_def)
  moreover have "entries_at m' (buf + 4) xs"
    using ew.chain_frame [OF wf ew.loop_chain [OF wf b, of m buf], of m'] by (simp add: m'_def put_le_def)
  ultimately show "\<exists>m'. MultiSerializer_itrv es lo hi itrv m buf =
      Some (m', of_nat (last ?st), of_nat (4 + tsz xs)) \<and>
    get_le m' buf = (of_nat (length xs) :: u32) \<and> entries_at m' (buf + 4) xs"
    by (auto simp: m'_def)
qed

text \<open>The strided serializer, which builds the message for one shard: for a positive interval
  and an upper bound inside the vector, it terminates, writes exactly the entries at
  \<open>from, from + itrv, \<dots>\<close> not above \<open>to\<close>, with their count in front, and hands the index of
  the last written entry back through \<open>to\<close>; \<^verbatim>\<open>MultiDeserializer\<close> reads them back.\<close>

theorem MultiSerializer_itrv_roundtrip:
  assumes "0 < itrv" "unat lo \<le> unat hi" "unat hi < length es" "list_all wf_entry es"
    and "list_all valid es" "length es < 2 ^ 32"
    and xs: "xs = map ((!) es) (steps (unat lo) (unat hi) (unat itrv))" "4 + tsz xs < 2 ^ 64"
  shows "\<exists>m'. MultiSerializer_itrv es lo hi itrv m buf =
      Some (m', of_nat (last (steps (unat lo) (unat hi) (unat itrv))), of_nat (4 + tsz xs)) \<and>
    MultiDeserializer acc m' buf = (acc @ xs, of_nat (4 + tsz xs))"
proof -
  note img = MultiSerializer_itrv_image [OF assms(1-4, 6) xs]
  have "list_all wf_entry xs" "list_all valid xs"
    using img(1) assms(4, 5) by (auto simp: list_all_iff)
  then show ?thesis
    using img(3) [of m buf] img(2) MultiDeserializer_valid [of _ buf xs acc] xs(2) by auto
qed

theorem MultiSerializer_itrv_roundtrip_witness:
  "let e = (\<lambda>i. (LogEntry_of [1])\<lparr>flags := 1, log_idx := i\<rparr>); es = [e 10, e 11, e 12, e 13]
   in \<exists>m'. MultiSerializer_itrv es 1 3 2 (\<lambda>_. 0) 0 = Some (m', 3, of_nat (4 + tsz [e 11, e 13])) \<and>
        MultiDeserializer [] m' 0 = ([e 11, e 13], of_nat (4 + tsz [e 11, e 13]))"
proof -
  let ?e = "\<lambda>i. (LogEntry_of [1])\<lparr>flags := 1, log_idx := i\<rparr>"
  have e: "wf_entry (?e i)" "valid (?e i)" "esz (?e i) = 36" for i
    by (simp_all add: wf_entry_def valid_def esz_def align4_def LogEntry_of_def LogEntry_new_def)
  have st: "steps 1 3 2 = [1, 3]"
    by (simp add: steps_rec)
  show ?thesis
    using MultiSerializer_itrv_roundtrip [of 2 1 3 "[?e 10, ?e 11, ?e 12, ?e 13]" "[?e 11, ?e 13]" "\<lambda>_. 0" 0 "[]"]
      e st by (simp add: Let_def)
qed

end
