(* ===== verification/Posix.thy ===== *)
theory Posix
  imports Log_Entry
begin

text \<open>
  What the storage shards use of the operating system: files as byte sequences, a table of file
  descriptors, and the calls \<^verbatim>\<open>open\<close> (read only, and read-write with \<^verbatim>\<open>O_CREAT | O_TRUNC\<close>), \<^verbatim>\<open>write\<close>, \<^verbatim>\<open>pread\<close>,
  \<^verbatim>\<open>close\<close> and \<^verbatim>\<open>mmap\<close> of a whole file. As POSIX prescribes, \<^verbatim>\<open>open\<close> returns the lowest free descriptor.
  A descriptor that is not a data file (the standard streams, sockets) is \<open>Other\<close>. The result of a call that
  fails is \<open>None\<close>. A call on a valid descriptor transfers all bytes: full disks and interrupted writes are
  not modelled. Also the decimal numbers of \<^verbatim>\<open>std::to_string\<close>.
\<close>

section \<open>The model\<close>

datatype fdesc = Other | File string bool nat

record FileSys =
  files :: "string \<rightharpoonup> byte list"
  fds :: "fdesc option list"
  creatable :: "string \<Rightarrow> bool"

definition FileSys_new :: "(string \<Rightarrow> bool) \<Rightarrow> FileSys" where
  "FileSys_new cr = \<lparr>files = Map.empty, fds = [Some Other, Some Other, Some Other], creatable = cr\<rparr>"

definition fd_of :: "FileSys \<Rightarrow> nat \<Rightarrow> fdesc option" where
  "fd_of fs fd = (if fd < length (fds fs) then fds fs ! fd else None)"

fun lowest_free :: "fdesc option list \<Rightarrow> nat" where
  "lowest_free [] = 0"
| "lowest_free (None # ds) = 0"
| "lowest_free (Some d # ds) = Suc (lowest_free ds)"

definition alloc_fd :: "FileSys \<Rightarrow> fdesc \<Rightarrow> nat \<times> FileSys" where
  "alloc_fd fs d =
     (let fd = lowest_free (fds fs)
      in (fd, fs\<lparr>fds := (if fd < length (fds fs) then (fds fs)[fd := Some d] else fds fs @ [Some d])\<rparr>))"

definition open_rdonly :: "FileSys \<Rightarrow> string \<Rightarrow> nat option \<times> FileSys" where
  "open_rdonly fs p =
     (case files fs p of
        None \<Rightarrow> (None, fs)
      | Some _ \<Rightarrow> (case alloc_fd fs (File p False 0) of (fd, fs) \<Rightarrow> (Some fd, fs)))"

definition open_create :: "FileSys \<Rightarrow> string \<Rightarrow> nat option \<times> FileSys" where
  "open_create fs p =
     (if creatable fs p
      then case alloc_fd (fs\<lparr>files := (files fs)(p \<mapsto> [])\<rparr>) (File p True 0) of (fd, fs) \<Rightarrow> (Some fd, fs)
      else (None, fs))"

definition close_fd :: "FileSys \<Rightarrow> nat \<Rightarrow> FileSys" where
  "close_fd fs fd = fs\<lparr>fds := (fds fs)[fd := None]\<rparr>"

definition patch :: "byte list \<Rightarrow> nat \<Rightarrow> byte list \<Rightarrow> byte list" where
  "patch c pos bs = take pos c @ replicate (pos - length c) 0 @ bs @ drop (pos + length bs) c"

definition write_fd :: "FileSys \<Rightarrow> nat \<Rightarrow> byte list \<Rightarrow> nat option \<times> FileSys" where
  "write_fd fs fd bs =
     (case fd_of fs fd of
        None \<Rightarrow> (None, fs)
      | Some Other \<Rightarrow> (Some (length bs), fs)
      | Some (File p w pos) \<Rightarrow>
          (case files fs p of
             Some c \<Rightarrow>
               if w then (Some (length bs), fs\<lparr>files := (files fs)(p \<mapsto> patch c pos bs),
                                               fds := (fds fs)[fd := Some (File p w (pos + length bs))]\<rparr>)
               else (None, fs)
           | None \<Rightarrow> (None, fs)))"

definition pread_fd :: "FileSys \<Rightarrow> nat \<Rightarrow> nat \<Rightarrow> nat \<Rightarrow> byte list option" where
  "pread_fd fs fd n ofst =
     (case fd_of fs fd of
        Some (File p w pos) \<Rightarrow> map_option (\<lambda>c. take n (drop ofst c)) (files fs p)
      | _ \<Rightarrow> None)"

definition pwrite_fd :: "FileSys \<Rightarrow> nat \<Rightarrow> byte list \<Rightarrow> nat \<Rightarrow> nat option \<times> FileSys" where
  "pwrite_fd fs fd bs ofst =
     (case fd_of fs fd of
        Some (File p w pos) \<Rightarrow>
          (case files fs p of
             Some c \<Rightarrow> if w then (Some (length bs), fs\<lparr>files := (files fs)(p \<mapsto> patch c ofst bs)\<rparr>) else (None, fs)
           | None \<Rightarrow> (None, fs))
      | _ \<Rightarrow> (None, fs))"

definition mapped :: "byte list \<Rightarrow> mem" where
  "mapped c = (\<lambda>i. if i < length c then c ! i else 0)"

definition mmap_fd :: "FileSys \<Rightarrow> nat \<Rightarrow> byte list option" where
  "mmap_fd fs fd =
     (case fd_of fs fd of
        Some (File p w pos) \<Rightarrow> (case files fs p of Some c \<Rightarrow> if c = [] then None else Some c | None \<Rightarrow> None)
      | _ \<Rightarrow> None)"

definition fstat_size :: "FileSys \<Rightarrow> nat \<Rightarrow> nat option" where
  "fstat_size fs fd =
     (case fd_of fs fd of Some (File p w pos) \<Rightarrow> map_option length (files fs p) | _ \<Rightarrow> None)"

subsection \<open>Decimal numbers\<close>

definition digit :: "nat \<Rightarrow> char" where
  "digit d = char_of (48 + d)"

fun nat_string :: "nat \<Rightarrow> string" where
  "nat_string n = (if n < 10 then [digit n] else nat_string (n div 10) @ [digit (n mod 10)])"

definition int_string :: "int \<Rightarrow> string" where
  "int_string i = (if i < 0 then CHR ''-'' # nat_string (nat (- i)) else nat_string (nat i))"

declare nat_string.simps [simp del]

section \<open>Descriptors\<close>

lemma lowest_free_le: "lowest_free ds \<le> length ds"
  by (induction ds rule: lowest_free.induct) auto

lemma lowest_free_None: "lowest_free ds < length ds \<Longrightarrow> ds ! lowest_free ds = None"
  by (induction ds rule: lowest_free.induct) auto

lemma alloc_fd_spec:
  assumes "alloc_fd fs d = (fd, fs')"
  shows "fd_of fs fd = None" "fd_of fs' fd = Some d" "x \<noteq> fd \<Longrightarrow> fd_of fs' x = fd_of fs x"
    "files fs' = files fs" "creatable fs' = creatable fs"
  using assms lowest_free_le [of "fds fs"] lowest_free_None [of "fds fs"]
  by (auto simp: alloc_fd_def fd_of_def Let_def nth_append split: if_splits)

lemma fd_of_close [simp]: "fd_of (close_fd fs fd) x = (if x = fd then None else fd_of fs x)"
  by (auto simp: close_fd_def fd_of_def)

lemma files_close [simp]: "files (close_fd fs fd) = files fs" "creatable (close_fd fs fd) = creatable fs"
  by (simp_all add: close_fd_def)

lemma open_create_spec:
  assumes "creatable fs p"
  obtains fd fs' where "open_create fs p = (Some fd, fs')" "fd_of fs fd = None"
    "fd_of fs' fd = Some (File p True 0)" "\<And>x. x \<noteq> fd \<Longrightarrow> fd_of fs' x = fd_of fs x"
    "files fs' = (files fs)(p \<mapsto> [])" "creatable fs' = creatable fs"
proof -
  obtain fd fs' where a: "alloc_fd (fs\<lparr>files := (files fs)(p \<mapsto> [])\<rparr>) (File p True 0) = (fd, fs')"
    by (cases "alloc_fd (fs\<lparr>files := (files fs)(p \<mapsto> [])\<rparr>) (File p True 0)")
  have "fd_of (fs\<lparr>files := (files fs)(p \<mapsto> [])\<rparr>) x = fd_of fs x" for x by (simp add: fd_of_def)
  with alloc_fd_spec [OF a] show thesis
    using assms a by (intro that [of fd fs']) (auto simp: open_create_def)
qed

lemma patch_end [simp]: "patch c (length c) bs = c @ bs"
  by (simp add: patch_def)

lemma write_fd_end:
  assumes "fd_of fs fd = Some (File p True (length c))" "files fs p = Some c"
  obtains fs' where "write_fd fs fd bs = (Some (length bs), fs')" "files fs' = (files fs)(p \<mapsto> c @ bs)"
    "fd_of fs' fd = Some (File p True (length (c @ bs)))" "\<And>x. x \<noteq> fd \<Longrightarrow> fd_of fs' x = fd_of fs x"
    "creatable fs' = creatable fs"
proof -
  let ?fs = "fs\<lparr>files := (files fs)(p \<mapsto> c @ bs), fds := (fds fs)[fd := Some (File p True (length (c @ bs)))]\<rparr>"
  have "fd < length (fds fs)" using assms(1) by (simp add: fd_of_def split: if_splits)
  then show thesis
    using assms by (intro that [of ?fs]) (auto simp: write_fd_def fd_of_def)
qed

lemma mapped_apply [simp]: "i < length c \<Longrightarrow> mapped c i = c ! i"
  by (simp add: mapped_def)

lemma mapped_append [simp]: "i < length c \<Longrightarrow> mapped (c @ bs) i = mapped c i"
  by (simp add: mapped_def nth_append)

lemma mapped_append_at: "j < length bs \<Longrightarrow> mapped (c @ bs) (length c + j) = bs ! j"
  by (simp add: mapped_def)

lemma entry_at_shift:
  "entry_at m a e \<Longrightarrow> (\<And>j. j < esz e \<Longrightarrow> m' (b + j) = m (a + j)) \<Longrightarrow> entry_at m' b e"
  using esz_bounds(1) [of e] unfolding entry_at_def
  by (subst bytes_at_cong [where m' = m and b = a]) auto

lemma entries_at_shift:
  assumes "entries_at m a xs" "\<And>j. j < tsz xs \<Longrightarrow> m' (b + j) = m (a + j)"
  shows "entries_at m' b xs"
  using assms
proof (induction xs arbitrary: a b)
  case (Cons x xs)
  have "m' (b + esz x + j) = m (a + esz x + j)" if "j < tsz xs" for j
    using Cons.prems(2) [of "esz x + j"] that by (simp add: add.assoc)
  then have "entries_at m' (b + esz x) xs"
    using Cons.prems(1) by (intro Cons.IH [of "a + esz x"]) auto
  moreover have "entry_at m' b x"
    by (rule entry_at_shift [of m a]) (use Cons.prems in simp_all)
  ultimately show ?case by simp
qed simp

text \<open>Appending the bytes of a stream of entries to a file that holds a stream gives the longer stream.\<close>

text \<open>Two file systems that no call can tell apart.\<close>

definition os_eq :: "FileSys \<Rightarrow> FileSys \<Rightarrow> bool" where
  "os_eq a b \<longleftrightarrow> files a = files b \<and> creatable a = creatable b \<and> fd_of a = fd_of b"

lemma os_eq_refl [simp]: "os_eq a a"
  by (simp add: os_eq_def)

lemma fd_of_files [simp]: "fd_of (fs\<lparr>files := f\<rparr>) = fd_of fs"
  by (rule ext) (simp add: fd_of_def)

lemma lowest_free_used: "k < lowest_free ds \<Longrightarrow> k < length ds \<and> ds ! k \<noteq> None"
  by (induction ds arbitrary: k rule: lowest_free.induct) (auto simp: nth_Cons split: nat.splits)

lemma lowest_free_cong:
  assumes "fd_of a = fd_of b"
  shows "lowest_free (fds a) = lowest_free (fds b)"
proof -
  have free: "fd_of c (lowest_free (fds c)) = None" for c
    using lowest_free_None [of "fds c"] by (simp add: fd_of_def)
  have used: "k < lowest_free (fds c) \<Longrightarrow> fd_of c k \<noteq> None" for c k
    using lowest_free_used [of k "fds c"] by (simp add: fd_of_def)
  show ?thesis
    using free [of a] free [of b] used [of "lowest_free (fds a)" b] used [of "lowest_free (fds b)" a] assms
    by (metis linorder_neqE_nat)
qed

lemma alloc_fd_cong:
  assumes "os_eq a b" "alloc_fd a d = (fd, a')"
  shows "\<exists>b'. alloc_fd b d = (fd, b') \<and> os_eq a' b'"
proof -
  obtain x b' where b: "alloc_fd b d = (x, b')" by fastforce
  have x: "x = fd"
    using b assms(2) lowest_free_cong [of a b] assms(1) by (simp add: alloc_fd_def Let_def os_eq_def)
  have "fd_of a' y = fd_of b' y" for y
    using alloc_fd_spec [OF assms(2)] alloc_fd_spec [OF b] x assms(1) by (cases "y = fd") (simp_all add: os_eq_def)
  then show ?thesis
    using alloc_fd_spec [OF assms(2)] alloc_fd_spec [OF b] b x assms(1) by (auto simp: os_eq_def)
qed

lemma open_create_cong:
  assumes "os_eq a b" "open_create a p = (r, a')"
  shows "\<exists>b'. open_create b p = (r, b') \<and> os_eq a' b'"
proof (cases "creatable a p")
  case True
  have e: "os_eq (a\<lparr>files := (files a)(p \<mapsto> [])\<rparr>) (b\<lparr>files := (files b)(p \<mapsto> [])\<rparr>)"
    using assms(1) by (simp add: os_eq_def)
  obtain fd where fd: "r = Some fd" "alloc_fd (a\<lparr>files := (files a)(p \<mapsto> [])\<rparr>) (File p True 0) = (fd, a')"
    using True assms(2) by (auto simp: open_create_def split: prod.splits)
  show ?thesis
    using alloc_fd_cong [OF e fd(2)] True assms(1) fd(1) by (auto simp: open_create_def os_eq_def)
qed (use assms in \<open>auto simp: open_create_def os_eq_def\<close>)

lemma write_fd_cong:
  assumes "os_eq a b"
  shows "os_eq (snd (write_fd a fd bs)) (snd (write_fd b fd bs))"
proof -
  have l: "fd_of c fd = Some d \<Longrightarrow> fd < length (fds c)" for c d by (simp add: fd_of_def split: if_splits)
  have u: "fd_of (c\<lparr>files := f, fds := (fds c)[fd := x]\<rparr>) y = (if y = fd then x else fd_of c y)"
    if "fd < length (fds c)" for c f x y
    using that by (auto simp: fd_of_def)
  show ?thesis
  proof (cases "fd_of a fd")
    case (Some d)
    then have "fd < length (fds a)" "fd < length (fds b)" "fd_of b fd = Some d"
      using l assms by (auto simp: os_eq_def)
    then show ?thesis
      using assms Some by (auto simp: os_eq_def write_fd_def u split: fdesc.split option.split)
  qed (use assms in \<open>auto simp: os_eq_def write_fd_def\<close>)
qed

lemma close_fd_cong: "os_eq a b \<Longrightarrow> os_eq (close_fd a fd) (close_fd b fd)"
  by (auto simp: os_eq_def fun_eq_iff)

lemma alloc_close:
  assumes "alloc_fd fs d = (fd, fs')"
  shows "os_eq fs (close_fd fs' fd)"
  using alloc_fd_spec [OF assms] by (auto simp: os_eq_def fun_eq_iff)

lemma os_eq_trans: "os_eq a b \<Longrightarrow> os_eq b c \<Longrightarrow> os_eq a c"
  by (simp add: os_eq_def)

lemma mapped_stream_append:
  assumes "list_all wf_entry es" "entries_at (mapped c) 0 es" "length c = tsz es"
    and "entries_at m a xs"
  shows "entries_at (mapped (c @ bytes_at m a (tsz xs))) 0 (es @ xs)"
proof -
  let ?c = "c @ bytes_at m a (tsz xs)"
  have "entries_at (mapped ?c) 0 es"
    by (rule ew.chain_frame [OF assms(1, 2)]) (simp add: assms(3) mapped_def nth_append)
  moreover have "entries_at (mapped ?c) (0 + tsz es) xs"
    by (rule entries_at_shift [OF assms(4)]) (simp add: assms(3) [symmetric] mapped_append_at)
  ultimately show ?thesis by (simp add: chain_append)
qed

section \<open>Decimal numbers are injective\<close>

fun string_nat :: "nat \<Rightarrow> string \<Rightarrow> nat" where
  "string_nat acc [] = acc"
| "string_nat acc (c # cs) = string_nat (10 * acc + (of_char c - 48)) cs"

lemma string_nat_append: "string_nat acc (xs @ ys) = string_nat (string_nat acc xs) ys"
  by (induction xs arbitrary: acc) auto

lemma of_char_digit: "d < 10 \<Longrightarrow> of_char (digit d) = (48 + d :: nat)"
  by (simp add: digit_def of_char_of)

lemma string_nat_nat_string: "string_nat 0 (nat_string n) = n"
  by (induction n rule: nat_string.induct)
    (subst nat_string.simps, simp add: string_nat_append of_char_digit)

lemma nat_string_inj: "nat_string m = nat_string n \<longleftrightarrow> m = n"
  by (metis string_nat_nat_string)

lemma digits_nat_string: "list_all (\<lambda>c. of_char c \<in> {48..57::nat}) (nat_string n)"
  by (induction n rule: nat_string.induct)
    (subst nat_string.simps, auto simp: of_char_digit)

end
