(* ===== verification/History.thy ===== *)
theory History
  imports Posix
begin

text \<open>
  The test client \<^verbatim>\<open>src/src/client/basic_client.cc\<close>, which runs writer and reader threads against the log and
  records the history of their operations for a linearizability checker. The theory models the records, the functions that
  add them under the lock, the two thread functions as steps, and the printed history. What an operation of the client library
  returns is an argument of the step that records it: the theorems hold for every answer.
\<close>

section \<open>The model\<close>

datatype EventType = INVOKE | RESPONSE

datatype OpType = OP_WRITE | OP_READ

record HistoryRecord =
  req_id :: u64
  thread_id :: int
  event_type :: EventType
  op_type :: OpType
  rec_value :: string
  rec_idx :: int
  seq_nums :: "u64 list"

record History =
  global_req_id :: u64
  global_history :: "HistoryRecord list"
  max_write_idx :: int

definition History_new :: History where
  "History_new = \<lparr>global_req_id = 0, global_history = [], max_write_idx = - 1\<rparr>"

definition push_record :: "HistoryRecord \<Rightarrow> History \<Rightarrow> History" where
  "push_record r h = h\<lparr>global_history := global_history h @ [r]\<rparr>"

definition RecordWriteInvoke :: "u64 \<Rightarrow> int \<Rightarrow> string \<Rightarrow> History \<Rightarrow> History" where
  "RecordWriteInvoke req th payload h =
     (push_record \<lparr>req_id = req, thread_id = th, event_type = INVOKE, op_type = OP_WRITE, rec_value = payload, rec_idx = - 1, seq_nums = []\<rparr> h)
       \<lparr>max_write_idx := max_write_idx h + 1\<rparr>"

definition RecordWriteResponse :: "u64 \<Rightarrow> int \<Rightarrow> int \<Rightarrow> u64 list \<Rightarrow> History \<Rightarrow> History" where
  "RecordWriteResponse req th i seqs h =
     push_record \<lparr>req_id = req, thread_id = th, event_type = RESPONSE, op_type = OP_WRITE, rec_value = [], rec_idx = i, seq_nums = seqs\<rparr> h"

definition RecordReadInvoke :: "u64 \<Rightarrow> int \<Rightarrow> History \<Rightarrow> u64 \<times> History" where
  "RecordReadInvoke req th h =
     (of_int (max_write_idx h),
      push_record \<lparr>req_id = req, thread_id = th, event_type = INVOKE, op_type = OP_READ, rec_value = [], rec_idx = - 1, seq_nums = []\<rparr> h)"

definition RecordReadResponse :: "u64 \<Rightarrow> int \<Rightarrow> string \<Rightarrow> int \<Rightarrow> History \<Rightarrow> History" where
  "RecordReadResponse req th d i h =
     push_record \<lparr>req_id = req, thread_id = th, event_type = RESPONSE, op_type = OP_READ, rec_value = d, rec_idx = i, seq_nums = []\<rparr> h"

text \<open>The value of a write: the number of the thread and of the write, padded with zeros to two and five digits.\<close>

definition padded :: "nat \<Rightarrow> nat \<Rightarrow> string" where
  "padded w n = (let s = nat_string n in replicate (w - length s) (CHR ''0'') @ s)"

definition write_payload :: "nat \<Rightarrow> nat \<Rightarrow> string" where
  "write_payload th i = padded 2 th @ ''_'' @ padded 5 i"

text \<open>A thread is before its operation \<open>i\<close>, has drawn a number for it, or waits for its answer.\<close>

datatype pc = Ready nat | Drawn nat u64 | Waiting nat u64

fun thread_draw :: "pc \<Rightarrow> History \<Rightarrow> (pc \<times> History) option" where
  "thread_draw (Ready i) h = Some (Drawn i (global_req_id h), h\<lparr>global_req_id := global_req_id h + 1\<rparr>)"
| "thread_draw _ h = None"

fun writer_invoke :: "nat \<Rightarrow> pc \<Rightarrow> History \<Rightarrow> (pc \<times> History) option" where
  "writer_invoke th (Drawn i req) h = Some (Waiting i req, RecordWriteInvoke req (int th) (write_payload th i) h)"
| "writer_invoke th _ h = None"

fun writer_respond :: "nat \<Rightarrow> u64 list \<Rightarrow> pc \<Rightarrow> History \<Rightarrow> (pc \<times> History) option" where
  "writer_respond th seqs (Waiting i req) h = Some (Ready (Suc i), RecordWriteResponse req (int th) 0 seqs h)"
| "writer_respond th seqs _ h = None"

fun reader_invoke :: "nat \<Rightarrow> pc \<Rightarrow> History \<Rightarrow> (pc \<times> History) option" where
  "reader_invoke th (Drawn i req) h = Some (Waiting i req, snd (RecordReadInvoke req (int th) h))"
| "reader_invoke th _ h = None"

fun reader_respond :: "nat \<Rightarrow> string \<Rightarrow> pc \<Rightarrow> History \<Rightarrow> (pc \<times> History) option" where
  "reader_respond th d (Waiting i req) h = Some (Ready (Suc i), RecordReadResponse req (int th) d (int i) h)"
| "reader_respond th d _ h = None"

text \<open>The program: the first \<open>nw\<close> threads write, the others read, each as many operations as \<open>ops\<close> says.\<close>

inductive client_history :: "nat \<Rightarrow> (nat \<Rightarrow> nat) \<Rightarrow> (nat \<Rightarrow> pc) \<Rightarrow> History \<Rightarrow> bool" for nw :: nat and ops :: "nat \<Rightarrow> nat" where
  init: "client_history nw ops (\<lambda>_. Ready 0) History_new"
| draw: "client_history nw ops ps h \<Longrightarrow> ps th = Ready i \<Longrightarrow> i < ops th \<Longrightarrow> thread_draw (ps th) h = Some (p, h') \<Longrightarrow>
    client_history nw ops (ps(th := p)) h'"
| write_invoke: "client_history nw ops ps h \<Longrightarrow> th < nw \<Longrightarrow> writer_invoke th (ps th) h = Some (p, h') \<Longrightarrow>
    client_history nw ops (ps(th := p)) h'"
| write_respond: "client_history nw ops ps h \<Longrightarrow> th < nw \<Longrightarrow> writer_respond th seqs (ps th) h = Some (p, h') \<Longrightarrow>
    client_history nw ops (ps(th := p)) h'"
| read_invoke: "client_history nw ops ps h \<Longrightarrow> nw \<le> th \<Longrightarrow> reader_invoke th (ps th) h = Some (p, h') \<Longrightarrow>
    client_history nw ops (ps(th := p)) h'"
| read_respond: "client_history nw ops ps h \<Longrightarrow> nw \<le> th \<Longrightarrow> reader_respond th d (ps th) h = Some (p, h') \<Longrightarrow>
    client_history nw ops (ps(th := p)) h'"

text \<open>The printed history.\<close>

fun comma_list :: "string list \<Rightarrow> string" where
  "comma_list [] = []"
| "comma_list [s] = s"
| "comma_list (s # ss) = s @ '','' @ comma_list ss"

definition dump_record :: "HistoryRecord \<Rightarrow> string" where
  "dump_record r =
     (let head = nat_string (unat (req_id r)) @ '' client='' @ int_string (thread_id r)
      in if event_type r = INVOKE \<and> op_type r = OP_WRITE then ''inv write id='' @ head @ '' val='' @ rec_value r @ [CHR 0x0A]
         else if event_type r = RESPONSE \<and> op_type r = OP_WRITE
         then ''res write id='' @ head @ '' idx='' @ int_string (rec_idx r) @ '' seq=['' @
           comma_list (map (\<lambda>s. nat_string (unat s)) (seq_nums r)) @ '']'' @ [CHR 0x0A]
         else if event_type r = INVOKE \<and> op_type r = OP_READ then ''inv read id='' @ head @ [CHR 0x0A]
         else ''res read id='' @ head @ '' idx='' @ int_string (rec_idx r) @ '' val='' @ rec_value r @ [CHR 0x0A])"

definition DumpGlobalHistory :: "History \<Rightarrow> string" where
  "DumpGlobalHistory h = concat (map dump_record (global_history h))"

section \<open>Values\<close>

lemma string_nat_zeros: "string_nat 0 (replicate k (CHR ''0'') @ s) = string_nat 0 s"
  by (induction k) simp_all

lemma padded_inj: "padded w m = padded w n \<longleftrightarrow> m = n"
proof
  assume "padded w m = padded w n"
  then have "string_nat 0 (padded w m) = string_nat 0 (padded w n)" by simp
  then show "m = n" by (simp add: padded_def Let_def string_nat_zeros string_nat_nat_string)
qed simp

lemma padded_no_bar: "CHR ''_'' \<notin> set (padded w n)"
  using digits_nat_string [of n] by (auto simp: padded_def Let_def list_all_iff)

lemma write_payload_inj: "write_payload th i = write_payload th' i' \<longleftrightarrow> th = th' \<and> i = i'"
proof
  assume e: "write_payload th i = write_payload th' i'"
  have t: "takeWhile (\<lambda>c. c \<noteq> CHR ''_'') (write_payload t j) = padded 2 t" "dropWhile (\<lambda>c. c \<noteq> CHR ''_'') (write_payload t j) = CHR ''_'' # padded 5 j" for t j
    using padded_no_bar [of 2 t] by (auto simp: write_payload_def takeWhile_append dropWhile_append)
  show "th = th' \<and> i = i'" using t [of th i] t [of th' i'] padded_inj unfolding e by (metis list.inject)
qed simp

section \<open>What the threads record\<close>

definition of_thread :: "nat \<Rightarrow> History \<Rightarrow> HistoryRecord list" where
  "of_thread th h = filter (\<lambda>r. thread_id r = int th) (global_history h)"

definition invocations :: "History \<Rightarrow> HistoryRecord list" where
  "invocations h = filter (\<lambda>r. event_type r = INVOKE) (global_history h)"

definition written :: "History \<Rightarrow> string list" where
  "written h = map rec_value (filter (\<lambda>r. op_type r = OP_WRITE) (invocations h))"

definition is_invoke :: "nat \<Rightarrow> nat \<Rightarrow> nat \<Rightarrow> HistoryRecord \<Rightarrow> bool" where
  "is_invoke nw th i r \<longleftrightarrow> event_type r = INVOKE \<and>
     (if th < nw then op_type r = OP_WRITE \<and> rec_value r = write_payload th i else op_type r = OP_READ)"

definition is_response :: "nat \<Rightarrow> nat \<Rightarrow> nat \<Rightarrow> HistoryRecord \<Rightarrow> bool" where
  "is_response nw th i r \<longleftrightarrow> event_type r = RESPONSE \<and>
     (if th < nw then op_type r = OP_WRITE else op_type r = OP_READ \<and> rec_idx r = int i)"

text \<open>The records of a thread: its operations in order, each an invocation followed by the response with the same number.\<close>

definition sequential :: "nat \<Rightarrow> nat \<Rightarrow> HistoryRecord list \<Rightarrow> bool" where
  "sequential nw th rs \<longleftrightarrow> (\<forall>k < length rs.
     if even k then is_invoke nw th (k div 2) (rs ! k)
     else is_response nw th (k div 2) (rs ! k) \<and> req_id (rs ! k) = req_id (rs ! (k - 1)))"

fun drawn :: "pc \<Rightarrow> nat" where
  "drawn (Ready i) = i" | "drawn (Drawn i r) = Suc i" | "drawn (Waiting i r) = Suc i"

fun invoked :: "pc \<Rightarrow> nat" where
  "invoked (Ready i) = i" | "invoked (Drawn i r) = i" | "invoked (Waiting i r) = Suc i"

fun thread_inv :: "nat \<Rightarrow> nat \<Rightarrow> pc \<Rightarrow> HistoryRecord list \<Rightarrow> bool" where
  "thread_inv nw th (Ready i) rs \<longleftrightarrow> sequential nw th rs \<and> length rs = 2 * i"
| "thread_inv nw th (Drawn i r) rs \<longleftrightarrow> sequential nw th rs \<and> length rs = 2 * i"
| "thread_inv nw th (Waiting i r) rs \<longleftrightarrow> sequential nw th rs \<and> length rs = 2 * i + 1 \<and> req_id (rs ! (2 * i)) = r"

lemma sequential_snoc:
  "sequential nw th (rs @ [r]) \<longleftrightarrow> sequential nw th rs \<and>
    (if even (length rs) then is_invoke nw th (length rs div 2) r
     else is_response nw th (length rs div 2) r \<and> req_id r = req_id (rs ! (length rs - 1)))"
proof -
  define P where "P = (\<lambda>rs k. if even k then is_invoke nw th (k div 2) (rs ! k)
     else is_response nw th (k div 2) (rs ! k) \<and> req_id (rs ! k) = req_id (rs ! (k - 1)))"
  have "P (rs @ [r]) k = P rs k" if "k < length rs" for k using that less_imp_diff_less [OF that, of 1] by (simp add: P_def nth_append)
  moreover have "P (rs @ [r]) (length rs) \<longleftrightarrow> (if even (length rs) then is_invoke nw th (length rs div 2) r
     else is_response nw th (length rs div 2) r \<and> req_id r = req_id (rs ! (length rs - 1)))"
    by (cases "rs = []") (simp_all add: P_def nth_append)
  moreover have "sequential nw th xs \<longleftrightarrow> (\<forall>k < length xs. P xs k)" for xs by (simp add: sequential_def P_def)
  ultimately show ?thesis by (auto simp: less_Suc_eq)
qed

lemma push_record_simps [simp]:
  "global_history (push_record r h) = global_history h @ [r]" "global_req_id (push_record r h) = global_req_id h"
  by (simp_all add: push_record_def)

lemmas record_defs = RecordWriteInvoke_def RecordWriteResponse_def RecordReadInvoke_def RecordReadResponse_def

lemma client_history_threads:
  "client_history nw ops ps h \<Longrightarrow> drawn (ps th) \<le> ops th \<and> thread_inv nw th (ps th) (of_thread th h)"
proof (induction rule: client_history.induct)
  case init
  then show ?case by (simp add: History_new_def of_thread_def sequential_def)
next
  case (draw ps h t i p h')
  then show ?case by (auto simp: of_thread_def)
next
  case (write_invoke ps h t p h')
  then show ?case
    by (cases "ps t") (auto simp: of_thread_def record_defs is_invoke_def nth_append sequential_snoc)
next
  case (write_respond ps h t seqs p h')
  then show ?case
    by (cases "ps t") (auto simp: of_thread_def record_defs is_response_def sequential_snoc)
next
  case (read_invoke ps h t p h')
  then show ?case
    by (cases "ps t") (auto simp: of_thread_def record_defs is_invoke_def nth_append sequential_snoc)
next
  case (read_respond ps h t d p h')
  then show ?case
    by (cases "ps t") (auto simp: of_thread_def record_defs is_response_def sequential_snoc)
qed

lemma client_history_values:
  "client_history nw ops ps h \<Longrightarrow> distinct (written h) \<and>
    set (written h) \<subseteq> {write_payload th i |th i. th < nw \<and> i < invoked (ps th)}"
proof (induction rule: client_history.induct)
  case init
  then show ?case by (simp add: History_new_def written_def invocations_def)
next
  case (draw ps h t i p h')
  then have "written h' = written h" "invoked ((ps(t := p)) th) = invoked (ps th)" for th by (auto simp: written_def invocations_def)
  then show ?case using draw.IH by simp
next
  case (write_invoke ps h t p h')
  then show ?case
  proof (cases "ps t")
    case (Drawn i req)
    then have w: "written h' = written h @ [write_payload t i]" "p = Waiting i req"
      using write_invoke.hyps(3) by (auto simp: written_def invocations_def record_defs)
    have "write_payload t i \<notin> set (written h)" using write_invoke.IH Drawn by (fastforce simp: write_payload_inj)
    moreover have "{write_payload th j |th j. th < nw \<and> j < invoked (ps th)} \<subseteq> {write_payload th j |th j. th < nw \<and> j < invoked ((ps(t := p)) th)}"
      unfolding w(2) using Drawn by (auto, metis invoked.simps(2) less_SucI)
    moreover have "write_payload t i \<in> {write_payload th j |th j. th < nw \<and> j < invoked ((ps(t := p)) th)}"
      unfolding w(2) using write_invoke.hyps(2) by (intro CollectI exI [of _ t] exI [of _ i]) simp
    ultimately show ?thesis using write_invoke.IH unfolding w(1) by (simp add: subset_iff)
  qed (use write_invoke.hyps(3) in simp_all)
next
  case (write_respond ps h t seqs p h')
  then have "written h' = written h" "invoked ((ps(t := p)) th) = invoked (ps th)" for th
    by (cases "ps t"; auto simp: written_def invocations_def record_defs)+
  then show ?case using write_respond.IH by simp
next
  case (read_invoke ps h t p h')
  then have "written h' = written h" "th < nw \<Longrightarrow> invoked ((ps(t := p)) th) = invoked (ps th)" for th
    by (cases "ps t"; auto simp: written_def invocations_def record_defs)+
  then show ?case using read_invoke.IH by (simp cong: conj_cong)
next
  case (read_respond ps h t d p h')
  then have "written h' = written h" "th < nw \<Longrightarrow> invoked ((ps(t := p)) th) = invoked (ps th)" for th
    by (cases "ps t"; auto simp: written_def invocations_def record_defs)+
  then show ?case using read_respond.IH by (simp cong: conj_cong)
qed

text \<open>The request numbers: \<open>n\<close> of them have been drawn, and none is given out twice.\<close>

definition ids_inv :: "nat \<Rightarrow> (nat \<Rightarrow> pc) \<Rightarrow> History \<Rightarrow> bool" where
  "ids_inv n ps h \<longleftrightarrow> global_req_id h = of_nat n \<and> distinct (map req_id (invocations h)) \<and>
     (\<forall>r\<in>set (map req_id (invocations h)). unat r < n) \<and>
     (\<forall>t i r. ps t = Drawn i r \<longrightarrow> unat r < n \<and> r \<notin> set (map req_id (invocations h)) \<and> (\<forall>t' j. ps t' = Drawn j r \<longrightarrow> t' = t))"

lemma ids_invD:
  assumes "ids_inv n ps h"
  shows "global_req_id h = of_nat n" "distinct (map req_id (invocations h))" "x \<in> set (invocations h) \<Longrightarrow> unat (req_id x) < n"
    "ps t = Drawn i r \<Longrightarrow> unat r < n" "ps t = Drawn i r \<Longrightarrow> r \<notin> set (map req_id (invocations h))"
    "ps t = Drawn i r \<Longrightarrow> ps t' = Drawn j r \<Longrightarrow> t' = t"
  using assms unfolding ids_inv_def by (simp, simp, simp, blast, blast, blast)

lemma ids_invI:
  assumes "global_req_id h = of_nat n" "distinct (map req_id (invocations h))" "\<And>x. x \<in> set (invocations h) \<Longrightarrow> unat (req_id x) < n"
    "\<And>t i r. ps t = Drawn i r \<Longrightarrow> unat r < n" "\<And>t i r. ps t = Drawn i r \<Longrightarrow> r \<notin> set (map req_id (invocations h))"
    "\<And>t t' i j r. ps t = Drawn i r \<Longrightarrow> ps t' = Drawn j r \<Longrightarrow> t' = t"
  shows "ids_inv n ps h"
  unfolding ids_inv_def using assms(1-3) by (intro conjI allI impI) (auto dest: assms(4-6))

lemma ids_inv_draw:
  assumes inv: "ids_inv n ps h" and n: "n < 2 ^ 64" and t: "ps t = Ready i"
  shows "ids_inv (Suc n) (ps(t := Drawn i (global_req_id h))) (h\<lparr>global_req_id := global_req_id h + 1\<rparr>)"
proof -
  note I = ids_invD [OF inv]
  have g: "unat (global_req_id h) = n" using I(1) n by (simp add: unat_of_nat_small)
  have new: "req_id x \<noteq> global_req_id h" if "x \<in> set (invocations h)" for x using I(3) [OF that] g by auto
  have other: "r \<noteq> global_req_id h" if "ps s = Drawn j r" for s j r using I(4) [OF that] g by auto
  have same: "invocations (h\<lparr>global_req_id := global_req_id h + 1\<rparr>) = invocations h" by (simp add: invocations_def)
  show ?thesis
  proof (rule ids_invI, unfold same)
    show "distinct (map req_id (invocations h))" by (rule I(2))
    show "unat (req_id x) < Suc n" if "x \<in> set (invocations h)" for x using I(3) [OF that] by simp
    fix s j r
    assume "(ps(t := Drawn i (global_req_id h))) s = Drawn j r"
    then have s: "s = t \<and> r = global_req_id h \<or> s \<noteq> t \<and> ps s = Drawn j r" by (auto split: if_splits)
    then show "unat r < Suc n" using I(4) g by (auto intro: less_SucI)
    show "r \<notin> set (map req_id (invocations h))" using s new I(5) [of s j r] by auto
    show "s' = s" if "(ps(t := Drawn i (global_req_id h))) s' = Drawn j' r" for s' j'
      using that s other I(6) by (auto split: if_splits)
  qed (simp add: I(1))
qed

lemma ids_inv_push:
  assumes inv: "ids_inv n ps h" and g: "global_req_id h' = global_req_id h" and p: "\<And>i r. p \<noteq> Drawn i r"
    and h': "invocations h' = invocations h \<or> (\<exists>x i. invocations h' = invocations h @ [x] \<and> ps t = Drawn i (req_id x))"
  shows "ids_inv n (ps(t := p)) h'"
proof -
  note I = ids_invD [OF inv]
  have d: "s \<noteq> t \<and> ps s = Drawn j r" if "(ps(t := p)) s = Drawn j r" for s j r using that p by (auto split: if_splits)
  show ?thesis
  proof (rule ids_invI)
    show "global_req_id h' = of_nat n" by (simp add: g I(1))
    show "distinct (map req_id (invocations h'))" using h' I(2, 5) by auto
    show "unat (req_id x) < n" if "x \<in> set (invocations h')" for x using that h' I(3, 4) by auto
    fix s j r
    assume s: "(ps(t := p)) s = Drawn j r"
    show "unat r < n" using d [OF s] I(4) by blast
    show "r \<notin> set (map req_id (invocations h'))" using d [OF s] h' I(5) [of s j r] I(6) [of s j r t] by auto
    show "s' = s" if "(ps(t := p)) s' = Drawn j' r" for s' j' using d [OF s] d [OF that] I(6) by blast
  qed
qed

lemma client_history_ids:
  assumes "client_history nw ops ps h" and fin: "\<forall>th\<ge>nt. ops th = 0" "(\<Sum>th<nt. ops th) < 2 ^ 64"
  shows "ids_inv (\<Sum>th<nt. drawn (ps th)) ps h"
  using assms(1)
proof (induction rule: client_history.induct)
  case init
  then show ?case by (simp add: History_new_def ids_inv_def invocations_def)
next
  case (draw ps h t i p h')
  have t: "t < nt" using draw.hyps(3) fin(1) by (metis not_less not_less_zero)
  have "(\<Sum>th<nt. drawn (ps th)) < (\<Sum>th<nt. ops th)"
    using t draw.hyps(2, 3) client_history_threads [OF draw.hyps(1)] by (intro sum_strict_mono_ex1) (auto intro!: bexI [of _ t])
  moreover have "(\<Sum>th<nt. drawn ((ps(t := p)) th)) = Suc (\<Sum>th<nt. drawn (ps th))"
    using t draw.hyps(2, 4) by (auto simp: sum.remove [of "{..<nt}" t])
  moreover have "p = Drawn i (global_req_id h)" "h' = h\<lparr>global_req_id := global_req_id h + 1\<rparr>" using draw.hyps(2, 4) by auto
  ultimately show ?case using ids_inv_draw [OF draw.IH _ draw.hyps(2)] fin(2) by (metis order_less_trans)
next
  case (write_invoke ps h t p h')
  then have "(\<lambda>th. drawn ((ps(t := p)) th)) = (\<lambda>th. drawn (ps th))" by (cases "ps t") (auto simp: fun_eq_iff)
  then show ?case using write_invoke.hyps(3)
    by (simp only:, intro ids_inv_push [OF write_invoke.IH]; cases "ps t") (auto simp: invocations_def record_defs)
next
  case (write_respond ps h t seqs p h')
  then have "(\<lambda>th. drawn ((ps(t := p)) th)) = (\<lambda>th. drawn (ps th))" by (cases "ps t") (auto simp: fun_eq_iff)
  then show ?case using write_respond.hyps(3)
    by (simp only:, intro ids_inv_push [OF write_respond.IH]; cases "ps t") (auto simp: invocations_def record_defs)
next
  case (read_invoke ps h t p h')
  then have "(\<lambda>th. drawn ((ps(t := p)) th)) = (\<lambda>th. drawn (ps th))" by (cases "ps t") (auto simp: fun_eq_iff)
  then show ?case using read_invoke.hyps(3)
    by (simp only:, intro ids_inv_push [OF read_invoke.IH]; cases "ps t") (auto simp: invocations_def record_defs)
next
  case (read_respond ps h t d p h')
  then have "(\<lambda>th. drawn ((ps(t := p)) th)) = (\<lambda>th. drawn (ps th))" by (cases "ps t") (auto simp: fun_eq_iff)
  then show ?case using read_respond.hyps(3)
    by (simp only:, intro ids_inv_push [OF read_respond.IH]; cases "ps t") (auto simp: invocations_def record_defs)
qed

text \<open>C24. The recorded history can be given to a linearizability checker. Whatever the client library returns and however the threads
  are interleaved: the records of each thread are its operations in order, each an invocation followed by its response with the
  same number; no two operations have the same number; and no two writes have the same value.\<close>

theorem history_well_formed:
  assumes "client_history nw ops ps h" and fin: "\<forall>th\<ge>nt. ops th = 0" "(\<Sum>th<nt. ops th) < 2 ^ 64"
  shows "(\<forall>th. sequential nw th (of_thread th h)) \<and> distinct (map req_id (invocations h)) \<and> distinct (written h)"
proof (intro conjI allI)
  show "sequential nw th (of_thread th h)" for th using client_history_threads [OF assms(1), of th] by (cases "ps th") auto
  show "distinct (map req_id (invocations h))" by (rule ids_invD(2) [OF client_history_ids [OF assms]])
  show "distinct (written h)" using client_history_values [OF assms(1)] by simp
qed

text \<open>A run with a writer and a reader, which invoke at the same time.\<close>

theorem history_well_formed_witness:
  "\<exists>ps h. client_history 1 (\<lambda>th. if th < 2 then 1 else 0) ps h \<and> length (global_history h) = 4 \<and>
    sequential 1 0 (of_thread 0 h) \<and> sequential 1 1 (of_thread 1 h)"
proof -
  let ?ops = "\<lambda>th::nat. if th < 2 then 1 else 0 :: nat"
  note steps = client_history.draw client_history.write_invoke client_history.write_respond client_history.read_invoke client_history.read_respond
  have "\<exists>ps h. client_history 1 ?ops ps h \<and> length (global_history h) = 4"
  proof -
    have 1: "client_history 1 ?ops ((\<lambda>_. Ready 0)(0 := Drawn 0 0)) (History_new\<lparr>global_req_id := 1\<rparr>)"
      by (rule steps(1) [OF client_history.init]) (simp_all add: History_new_def)
    have 2: "client_history 1 ?ops ((\<lambda>_. Ready 0)(0 := Drawn 0 0, 1 := Drawn 0 1)) (History_new\<lparr>global_req_id := 2\<rparr>)"
      by (rule steps(1) [OF 1]) (simp_all add: History_new_def)
    obtain p h where 3: "client_history 1 ?ops ((\<lambda>_. Ready 0)(0 := Drawn 0 0, 1 := Drawn 0 1, 0 := Waiting 0 0)) h" "length (global_history h) = 1"
      using steps(2) [OF 2, of 0] by (simp add: record_defs History_new_def)
    obtain h2 where 4: "client_history 1 ?ops ((\<lambda>_. Ready 0)(0 := Drawn 0 0, 1 := Drawn 0 1, 0 := Waiting 0 0, 1 := Waiting 0 1)) h2"
      "length (global_history h2) = 2"
      using steps(4) [OF 3(1), of 1] 3(2) by (simp add: record_defs)
    obtain ps h3 where 5: "client_history 1 ?ops ps h3" "ps 0 = Ready 1" "ps 1 = Waiting 0 1" "length (global_history h3) = 3"
      using steps(3) [OF 4(1), of 0 "[]"] 4(2) by (fastforce simp: record_defs)
    show ?thesis using steps(5) [OF 5(1), of 1 "''x''"] 5(3, 4) by (fastforce simp: record_defs)
  qed
  then obtain ps h where h: "client_history 1 ?ops ps h" "length (global_history h) = 4" by blast
  have "(\<Sum>th<2. ?ops th) = 2" by (simp add: numeral_2_eq_2)
  then show ?thesis using history_well_formed [OF h(1), of 2] h by (intro exI [of _ ps] exI [of _ h]) simp
qed

end
