(* ===== verification/Utils.thy ===== *)
theory Utils
  imports Prelude
begin

text \<open>
  The utilities the other components share, from \<^verbatim>\<open>src/src/utils\<close>: the sequence counter
  \<^verbatim>\<open>Sequencer\<close>, the string helpers of \<^verbatim>\<open>utils.h\<close>, the configuration \<^verbatim>\<open>Properties\<close> with its
  file reader and the command line parser, and \<^verbatim>\<open>SeparateValue\<close>.

  A \<^verbatim>\<open>std::map<std::string, std::string>\<close> is a partial map from strings to strings, an exception
  or a call of \<^verbatim>\<open>exit\<close> is a value of \<open>exn\<close> on the left of a sum. A file is its contents, or
  \<open>None\<close> when it cannot be opened. \<^verbatim>\<open>std::getline\<close>, \<^verbatim>\<open>std::isspace\<close> and \<^verbatim>\<open>std::stoi\<close> are
  the functions of the C++ standard library in the classic locale.
\<close>

section \<open>The model\<close>

subsection \<open>Sequencer\<close>

type_synonym Sequencer = u64

definition Sequencer_new :: Sequencer where
  "Sequencer_new = 0"

definition GetNextSeq :: "Sequencer \<Rightarrow> u64 \<Rightarrow> u64 \<times> Sequencer" where
  "GetNextSeq s inc = (s, s + inc)"

definition GetCurSeq :: "Sequencer \<Rightarrow> u64" where
  "GetCurSeq s = s"

definition Sequencer_Reset :: "Sequencer \<Rightarrow> Sequencer" where
  "Sequencer_Reset s = 0"

subsection \<open>Strings\<close>

datatype exn = Exception string | out_of_range | invalid_argument | Exit int

definition isspace :: "char \<Rightarrow> bool" where
  "isspace c \<longleftrightarrow> of_char c = (32 :: nat) \<or> 9 \<le> (of_char c :: nat) \<and> of_char c \<le> (13 :: nat)"

definition isdigit :: "char \<Rightarrow> bool" where
  "isdigit c \<longleftrightarrow> 48 \<le> (of_char c :: nat) \<and> of_char c \<le> (57 :: nat)"

definition tolower :: "char \<Rightarrow> char" where
  "tolower c = (if 65 \<le> (of_char c :: nat) \<and> of_char c \<le> (90 :: nat) then char_of (of_char c + 32 :: nat) else c)"

definition stoi :: "string \<Rightarrow> exn + int" where
  "stoi s =
     (let s = dropWhile isspace s;
          neg = (s \<noteq> [] \<and> hd s = CHR ''-'');
          s = (if s \<noteq> [] \<and> (hd s = CHR ''-'' \<or> hd s = CHR ''+'') then tl s else s);
          ds = takeWhile isdigit s;
          v = foldl (\<lambda>v c. 10 * v + (of_char c - 48)) 0 ds;
          v = (if neg then - v else v)
      in if ds = [] then Inl invalid_argument
         else if v < - (2 ^ 31) \<or> 2 ^ 31 \<le> v then Inl out_of_range
         else Inr v)"

definition strtoint :: "string \<Rightarrow> exn + int" where
  "strtoint s =
     (let s = dropWhile isspace s;
          neg = (s \<noteq> [] \<and> hd s = CHR ''-'');
          s = (if s \<noteq> [] \<and> (hd s = CHR ''-'' \<or> hd s = CHR ''+'') then tl s else s);
          ds = takeWhile isdigit s;
          v = foldl (\<lambda>v c. 10 * v + (of_char c - 48)) 0 ds
      in if ds = [] then Inl invalid_argument else Inr (if neg then - v else v))"

definition stoll :: "string \<Rightarrow> exn + int" where
  "stoll s =
     (case strtoint s of
        Inl x \<Rightarrow> Inl x
      | Inr v \<Rightarrow> if v < - (2 ^ 63) \<or> 2 ^ 63 \<le> v then Inl out_of_range else Inr v)"

definition stoull :: "string \<Rightarrow> exn + u64" where
  "stoull s =
     (case strtoint s of
        Inl x \<Rightarrow> Inl x
      | Inr v \<Rightarrow> if 2 ^ 64 \<le> \<bar>v\<bar> then Inl out_of_range else Inr (of_int v))"

definition StrToBool :: "string \<Rightarrow> exn + bool" where
  "StrToBool str =
     (let str = map tolower str
      in if str = ''true'' \<or> str = ''1'' then Inr True
         else if str = ''false'' \<or> str = ''0'' then Inr False
         else Inl (Exception (''Invalid bool string: '' @ str)))"

definition Trim :: "string \<Rightarrow> string" where
  "Trim str = (let front = dropWhile isspace str in rev (dropWhile isspace (rev front)))"

definition StrStartWith :: "string \<Rightarrow> string \<Rightarrow> bool" where
  "StrStartWith str pre \<longleftrightarrow> take (length pre) str = pre"

fun getline :: "char \<Rightarrow> string \<Rightarrow> string \<times> string option" where
  "getline delim [] = ([], None)"
| "getline delim (c # cs) =
     (if c = delim then ([], Some cs) else let (t, r) = getline delim cs in (c # t, r))"

lemma getline_shorter: "getline d s = (t, Some r) \<Longrightarrow> length r < length s"
  by (induction s arbitrary: t) (auto split: if_splits prod.splits)

subsection \<open>Properties\<close>

type_synonym Properties = "string \<rightharpoonup> string"

definition GetProperty :: "Properties \<Rightarrow> string \<Rightarrow> string \<Rightarrow> string" where
  "GetProperty p key default_value = (case p key of None \<Rightarrow> default_value | Some v \<Rightarrow> v)"

definition Properties_at :: "Properties \<Rightarrow> string \<Rightarrow> exn + string" where
  "Properties_at p key = (case p key of None \<Rightarrow> Inl out_of_range | Some v \<Rightarrow> Inr v)"

definition SetProperty :: "Properties \<Rightarrow> string \<Rightarrow> string \<Rightarrow> Properties" where
  "SetProperty p key v = p(key \<mapsto> v)"

definition ContainsKey :: "Properties \<Rightarrow> string \<Rightarrow> bool" where
  "ContainsKey p key \<longleftrightarrow> p key \<noteq> None"

definition FromMap :: "Properties \<Rightarrow> (string \<rightharpoonup> string) \<Rightarrow> Properties" where
  "FromMap p props = props"

fun find_first_of :: "string \<Rightarrow> char \<Rightarrow> nat option" where
  "find_first_of [] d = None"
| "find_first_of (c # cs) d = (if c = d then Some 0 else map_option Suc (find_first_of cs d))"

definition Load_line :: "Properties \<Rightarrow> string \<Rightarrow> Properties" where
  "Load_line p line =
     (if line \<noteq> [] \<and> hd line = CHR ''#'' then p
      else case find_first_of line (CHR ''='') of
        None \<Rightarrow> p
      | Some pos \<Rightarrow> SetProperty p (Trim (take pos line)) (Trim (drop (pos + 1) line)))"

function Load_loop :: "Properties \<Rightarrow> string \<Rightarrow> Properties" where
  "Load_loop p input =
     (case getline (CHR 0x0A) input of
        (line, None) \<Rightarrow> Load_line p line
      | (line, Some rest) \<Rightarrow> Load_loop (Load_line p line) rest)"
  by auto
termination
  by (relation "measure (length \<circ> snd)") (auto dest: getline_shorter [OF sym])

declare Load_loop.simps [simp del]

definition Load :: "Properties \<Rightarrow> string option \<Rightarrow> exn + Properties" where
  "Load p input =
     (case input of None \<Rightarrow> Inl (Exception ''File not open!'') | Some s \<Rightarrow> Inr (Load_loop p s))"

subsection \<open>Command line\<close>

fun ParseCommandLine_loop ::
  "(string \<Rightarrow> string option) \<Rightarrow> string list \<Rightarrow> Properties \<Rightarrow> exn + string list \<times> Properties" where
  "ParseCommandLine_loop files [] props = Inr ([], props)"
| "ParseCommandLine_loop files (a # as) props =
     (if \<not> StrStartWith a ''-'' then Inr (a # as, props)
      else if a = ''-load'' then ParseCommandLine_loop files as (SetProperty props ''doload'' ''true'')
      else if a = ''-run'' \<or> a = ''-t'' then
        ParseCommandLine_loop files as (SetProperty props ''dotransaction'' ''true'')
      else if a = ''-threads'' then
        (case as of [] \<Rightarrow> Inl (Exit 0)
         | v # as' \<Rightarrow> ParseCommandLine_loop files as' (SetProperty props ''threadcount'' v))
      else if a = ''-db'' then
        (case as of [] \<Rightarrow> Inl (Exit 0)
         | v # as' \<Rightarrow> ParseCommandLine_loop files as' (SetProperty props ''dbname'' v))
      else if a = ''-P'' then
        (case as of [] \<Rightarrow> Inl (Exit 0)
         | f # as' \<Rightarrow>
             (case Load props (files f) of
                Inl x \<Rightarrow> Inl x
              | Inr props \<Rightarrow> ParseCommandLine_loop files as' props))
      else if a = ''-p'' then
        (case as of [] \<Rightarrow> Inl (Exit 0)
         | prop # as' \<Rightarrow>
             (case find_first_of prop (CHR ''='') of
                None \<Rightarrow> Inl (Exit 0)
              | Some eq \<Rightarrow> ParseCommandLine_loop files as'
                  (SetProperty props (Trim (take eq prop)) (Trim (drop (eq + 1) prop)))))
      else if a = ''-s'' then ParseCommandLine_loop files as (SetProperty props ''status'' ''true'')
      else if a = ''-l'' then ParseCommandLine_loop files as (SetProperty props ''leader'' ''true'')
      else Inl (Exit 0))"

definition ParseCommandLine ::
  "(string \<Rightarrow> string option) \<Rightarrow> string list \<Rightarrow> Properties \<Rightarrow> exn + Properties" where
  "ParseCommandLine files args props =
     (case ParseCommandLine_loop files args props of
        Inl x \<Rightarrow> Inl x
      | Inr (rest, props) \<Rightarrow> if args = [] \<or> rest \<noteq> [] then Inl (Exit 0) else Inr props)"

subsection \<open>Separated values\<close>

function SeparateValue :: "string \<Rightarrow> char \<Rightarrow> string list" where
  "SeparateValue stream delim =
     (if stream = [] then []
      else case getline delim stream of
        (token, None) \<Rightarrow> [token]
      | (token, Some rest) \<Rightarrow> token # SeparateValue rest delim)"
  by auto
termination
  by (relation "measure (length \<circ> fst)") (auto dest: getline_shorter [OF sym])

declare SeparateValue.simps [simp del]

section \<open>Properties of the model\<close>

subsection \<open>Helper lemmas\<close>

lemma getline_delim: "d \<notin> set t \<Longrightarrow> getline d (t @ d # r) = (t, Some r)"
  by (induction t) auto

lemma getline_eof: "d \<notin> set t \<Longrightarrow> getline d t = (t, None)"
  by (induction t) auto

lemma find_first_of_append: "d \<notin> set t \<Longrightarrow> find_first_of (t @ d # r) d = Some (length t)"
  by (induction t) auto

definition trimmed :: "string \<Rightarrow> bool" where
  "trimmed s \<longleftrightarrow> s = [] \<or> \<not> isspace (hd s) \<and> \<not> isspace (last s)"

lemma Trim_id: "trimmed s \<Longrightarrow> Trim s = s"
proof (cases "s = []")
  case False
  moreover assume "trimmed s"
  ultimately have "dropWhile isspace s = s" "dropWhile isspace (rev s) = rev s"
    by (auto simp: trimmed_def dropWhile_eq_self_iff hd_rev)
  then show ?thesis by (simp add: Trim_def)
qed (simp add: Trim_def)

lemma trimmed_Trim: "trimmed (Trim s)"
proof (cases "Trim s = []")
  case False
  let ?f = "dropWhile isspace s"
  have r: "rev ?f = takeWhile isspace (rev ?f) @ rev (Trim s)"
    by (simp add: Trim_def)
  then have f: "?f = Trim s @ rev (takeWhile isspace (rev ?f))"
    by (metis rev_append rev_rev_ident)
  have "dropWhile isspace (rev ?f) \<noteq> []"
    using False by (simp add: Trim_def)
  then have "\<not> isspace (hd (dropWhile isspace (rev ?f)))"
    by (rule hd_dropWhile)
  then have "\<not> isspace (last (Trim s))"
    using False by (simp add: Trim_def last_rev)
  moreover have "?f \<noteq> []" using f False by (metis append_is_Nil_conv)
  then have "\<not> isspace (hd ?f)" by (rule hd_dropWhile)
  then have "\<not> isspace (hd (Trim s))"
    using f False by (metis hd_append2)
  ultimately show ?thesis by (simp add: trimmed_def)
qed (simp add: trimmed_def)

subsection \<open>Configuration files\<close>

definition ok_key :: "string \<Rightarrow> bool" where
  "ok_key k \<longleftrightarrow> trimmed k \<and> CHR ''='' \<notin> set k \<and> CHR 0x0A \<notin> set k \<and> (k = [] \<or> hd k \<noteq> CHR ''#'')"

definition ok_value :: "string \<Rightarrow> bool" where
  "ok_value v \<longleftrightarrow> trimmed v \<and> CHR 0x0A \<notin> set v"

definition print_property :: "string \<times> string \<Rightarrow> string" where
  "print_property kv = fst kv @ CHR ''='' # snd kv"

lemma Load_line_print:
  assumes "ok_key (fst kv)"
  shows "Load_line p (print_property kv) = p(fst kv \<mapsto> Trim (snd kv))"
proof -
  have "find_first_of (print_property kv) (CHR ''='') = Some (length (fst kv))"
    using assms by (simp add: print_property_def ok_key_def find_first_of_append)
  moreover have "\<not> (print_property kv \<noteq> [] \<and> hd (print_property kv) = CHR ''#'')"
    using assms by (cases "fst kv") (auto simp: print_property_def ok_key_def)
  moreover have "Trim (fst kv) = fst kv"
    using assms by (simp add: ok_key_def Trim_id)
  ultimately show ?thesis
    by (simp add: Load_line_def SetProperty_def print_property_def)
qed

lemma Load_loop_line:
  "CHR 0x0A \<notin> set l \<Longrightarrow> Load_loop p (l @ CHR 0x0A # rest) = Load_loop (Load_line p l) rest"
  by (subst Load_loop.simps) (simp add: getline_delim getline_eof)

lemma Load_line_Nil [simp]: "Load_line p [] = p"
  by (simp add: Load_line_def)

lemma Load_loop_Nil [simp]: "Load_loop p [] = p"
  by (subst Load_loop.simps) simp

lemma Load_loop_print:
  "\<forall>kv\<in>set kvs. ok_key (fst kv) \<and> ok_value (snd kv) \<Longrightarrow>
    Load_loop p (concat (map (\<lambda>kv. print_property kv @ [CHR 0x0A]) kvs)) = map_updates p kvs"
proof (induction kvs arbitrary: p)
  case (Cons kv kvs)
  then have ok: "ok_key (fst kv)" "ok_value (snd kv)" by simp_all
  then have "CHR 0x0A \<notin> set (print_property kv)"
    by (simp add: print_property_def ok_key_def ok_value_def)
  moreover have "Trim (snd kv) = snd kv"
    using ok by (simp add: ok_value_def Trim_id)
  ultimately show ?case
    using Cons ok by (simp add: Load_loop_line Load_line_print)
qed simp

text \<open>C40. Reading a configuration file: \<^verbatim>\<open>Load\<close> of a file with one \<open>key=value\<close> line per binding
  adds exactly these bindings to the properties, the last binding of a key winning. Keys are trimmed,
  contain no \<open>=\<close> and do not start a comment; neither keys nor values contain a line break.\<close>

theorem Load_roundtrip:
  assumes "\<forall>kv\<in>set kvs. ok_key (fst kv) \<and> ok_value (snd kv)"
  shows "Load p (Some (concat (map (\<lambda>kv. print_property kv @ [CHR 0x0A]) kvs))) = Inr (map_updates p kvs)"
  using assms by (simp add: Load_def Load_loop_print)

theorem Load_roundtrip_witness:
  "Load Map.empty (Some (''a.b=1'' @ [CHR 0x0A] @ ''c=x=y'' @ [CHR 0x0A])) =
     Inr [''a.b'' \<mapsto> ''1'', ''c'' \<mapsto> ''x=y'']"
proof -
  have "\<forall>kv\<in>set [(''a.b'', ''1''), (''c'', ''x=y'')]. ok_key (fst kv) \<and> ok_value (snd kv)"
    by (simp add: ok_key_def ok_value_def trimmed_def isspace_def)
  from Load_roundtrip [OF this, of Map.empty] show ?thesis
    by (simp add: print_property_def)
qed

subsection \<open>Separated values\<close>

lemma SeparateValue_step:
  "d \<notin> set t \<Longrightarrow> SeparateValue (t @ d # r) d = t # SeparateValue r d"
  by (subst SeparateValue.simps) (simp add: getline_delim getline_eof)

lemma SeparateValue_last: "d \<notin> set t \<Longrightarrow> t \<noteq> [] \<Longrightarrow> SeparateValue t d = [t]"
  by (subst SeparateValue.simps) (simp add: getline_delim getline_eof)

text \<open>\<^verbatim>\<open>SeparateValue\<close> inverts joining: splitting tokens joined by the delimiter gives the tokens
  back, if none contains the delimiter. An empty last token is the one thing that is lost, since
  \<^verbatim>\<open>std::getline\<close> reports no token at the end of the stream.\<close>

theorem SeparateValue_join:
  assumes "\<forall>t\<in>set (ts @ [t]). delim \<notin> set t"
  shows "SeparateValue (concat (map (\<lambda>t. t @ [delim]) ts) @ t) delim = ts @ (if t = [] then [] else [t])"
  using assms
proof (induction ts)
  case Nil
  then show ?case by (cases "t = []") (simp_all add: SeparateValue_last SeparateValue.simps [of "[]"])
next
  case (Cons a ts)
  then show ?case by (simp add: SeparateValue_step)
qed

theorem SeparateValue_join_witness:
  "SeparateValue ''h1:1,h2:2,'' (CHR '','') = [''h1:1'', ''h2:2''] \<and>
   SeparateValue ''h1:1,,h2:2'' (CHR '','') = [''h1:1'', [], ''h2:2'']"
  using SeparateValue_join [of "[''h1:1'', ''h2:2'']" "[]" "CHR '',''"]
    SeparateValue_join [of "[''h1:1'', []]" "''h2:2''" "CHR '',''"] by simp

subsection \<open>Command line\<close>

text \<open>A property given on the command line overrides the value of the file named before it, and the
  other properties keep the values of the file. A file that cannot be opened ends the program with the
  exception of \<^verbatim>\<open>Load\<close>.\<close>

theorem ParseCommandLine_override:
  assumes "CHR ''='' \<notin> set k"
  shows "ParseCommandLine files [''-P'', f, ''-p'', k @ CHR ''='' # v] p =
    (case files f of
       None \<Rightarrow> Inl (Exception ''File not open!'')
     | Some s \<Rightarrow> Inr ((Load_loop p s)(Trim k \<mapsto> Trim v)))"
  using assms
  by (simp add: ParseCommandLine_def StrStartWith_def Load_def find_first_of_append SetProperty_def
      split: option.split)

theorem ParseCommandLine_override_witness:
  "ParseCommandLine [''rdma.prop'' \<mapsto> ''leader = false''] [''-P'', ''rdma.prop'', ''-p'', ''leader=true''] Map.empty =
     Inr [''leader'' \<mapsto> ''true'']"
proof -
  have "Load_loop Map.empty ''leader = false'' = [''leader'' \<mapsto> ''false'']"
    by (simp add: Load_loop.simps [of Map.empty] Load_line_def SetProperty_def Trim_def isspace_def)
  then show ?thesis
    using ParseCommandLine_override [of "''leader''" "[''rdma.prop'' \<mapsto> ''leader = false'']" "''rdma.prop''" "''true''" Map.empty]
    by (simp add: Trim_def isspace_def)
qed

end
