(* ===== verification/Rpc.thy ===== *)
theory Rpc
  imports Log_Entry Utils
begin

text \<open>
  The remote procedure call layer: the message types and identifier ranges of
  \<^verbatim>\<open>src/src/rpc/common.h\<close>, \<^verbatim>\<open>RPCToken\<close>, the transport registry \<^verbatim>\<open>RPCFactory\<close>, and message
  buffers.

  eRPC itself is not part of the repository. A blocking call (\<^verbatim>\<open>enqueue_request\<close> and then polling
  until the continuation has run) is a parameter \<open>net\<close> of the client stubs: a function of the request
  type, the request message and the state of the server, which gives the response and the new state, or
  \<open>None\<close> when the server never answers. \<open>serves net t h\<close> states what eRPC documents for a handler
  \<open>h\<close> registered for type \<open>t\<close>: the handler runs on a copy of the request message and the caller
  receives a copy of its response. Bytes outside the messages are arbitrary on both sides.
\<close>

section \<open>The model\<close>

definition APPEND_ENTRY :: byte where "APPEND_ENTRY = 1"
definition ORDER_ENTRY :: byte where "ORDER_ENTRY = 2"
definition GET_N_DUR_ENTRY :: byte where "GET_N_DUR_ENTRY = 3"
definition FETCH_UNORDERED_ENTRIES :: byte where "FETCH_UNORDERED_ENTRIES = 4"
definition DEL_ORDERED_ENTRIES :: byte where "DEL_ORDERED_ENTRIES = 5"
definition SPEC_READ :: byte where "SPEC_READ = 6"
definition GET_GSN :: byte where "GET_GSN = 7"
definition GET_GSN_BATCH :: byte where "GET_GSN_BATCH = 8"
definition APPEND_BATCH :: byte where "APPEND_BATCH = 21"
definition REP_BATCH :: byte where "REP_BATCH = 22"
definition READ_ENTRY_BE :: byte where "READ_ENTRY_BE = 23"
definition UPDATE_GLBL_IDX :: byte where "UPDATE_GLBL_IDX = 24"

definition DL_CLI_RPCID_OFFSET :: byte where "DL_CLI_RPCID_OFFSET = 0"
definition CL_CLI_RPCID_OFFSET :: byte where "CL_CLI_RPCID_OFFSET = 64"
definition DL_SVR_RPCID_OFFSET :: byte where "DL_SVR_RPCID_OFFSET = 128"
definition CL_SVR_RPCID_OFFSET :: byte where "CL_SVR_RPCID_OFFSET = 192"
definition DL_RSV_RPCID :: byte where "DL_RSV_RPCID = 191"
definition CL_RSV_RPCID :: byte where "CL_RSV_RPCID = 254"

datatype Status = OK | ERROR | NOENT | NOFILE

definition Status_word :: "Status \<Rightarrow> u32" where
  "Status_word s = (case s of OK \<Rightarrow> 0 | ERROR \<Rightarrow> 1 | NOENT \<Rightarrow> 2 | NOFILE \<Rightarrow> 3)"

subsection \<open>Messages\<close>

record MsgBuffer =
  buf :: mem
  data_size :: nat

definition resize_msg_buffer :: "MsgBuffer \<Rightarrow> nat \<Rightarrow> MsgBuffer" where
  "resize_msg_buffer b n = b\<lparr>data_size := n\<rparr>"

definition same_msg :: "MsgBuffer \<Rightarrow> MsgBuffer \<Rightarrow> bool" where
  "same_msg a b \<longleftrightarrow> data_size a = data_size b \<and> (\<forall>x < data_size a. buf a x = buf b x)"

type_synonym 's net = "byte \<Rightarrow> MsgBuffer \<Rightarrow> 's \<Rightarrow> (MsgBuffer \<times> 's) option"

definition serves :: "'s net \<Rightarrow> byte \<Rightarrow> (MsgBuffer \<Rightarrow> 's \<Rightarrow> (MsgBuffer \<times> 's) option) \<Rightarrow> bool" where
  "serves net t h \<longleftrightarrow> (\<forall>req s. \<exists>req'. same_msg req req' \<and>
     (case h req' s of
        None \<Rightarrow> net t req s = None
      | Some (resp, s') \<Rightarrow> (\<exists>resp'. same_msg resp resp' \<and> net t req s = Some (resp', s'))))"

subsection \<open>Tokens\<close>

record RPCToken =
  completed :: bool

definition RPCToken_new :: RPCToken where
  "RPCToken_new = \<lparr>completed = False\<rparr>"

definition Complete :: "RPCToken \<Rightarrow> bool" where
  "Complete t = completed t"

definition SetComplete :: "RPCToken \<Rightarrow> RPCToken" where
  "SetComplete t = t\<lparr>completed := True\<rparr>"

definition RPCToken_Reset :: "RPCToken \<Rightarrow> RPCToken" where
  "RPCToken_Reset t = t\<lparr>completed := False\<rparr>"

subsection \<open>The registry of transports\<close>

definition RegisterRPC :: "(string \<rightharpoonup> 'c) \<Rightarrow> string \<Rightarrow> 'c \<Rightarrow> bool \<times> (string \<rightharpoonup> 'c)" where
  "RegisterRPC registry nm creator = (True, registry(nm \<mapsto> creator))"

definition CreateRPCTransport :: "(string \<rightharpoonup> (unit \<Rightarrow> 't)) \<Rightarrow> string \<Rightarrow> 't option" where
  "CreateRPCTransport registry rpc_name =
     (case registry rpc_name of None \<Rightarrow> None | Some creator \<Rightarrow> Some (creator ()))"

definition CreateSvrRPCTransport :: "(string \<rightharpoonup> (unit \<Rightarrow> 't)) \<Rightarrow> Properties \<Rightarrow> 't option" where
  "CreateSvrRPCTransport registry p = CreateRPCTransport registry (GetProperty p ''server.rpc_transport'' [])"

definition CreateCliRPCTransport :: "(string \<rightharpoonup> (unit \<Rightarrow> 't)) \<Rightarrow> Properties \<Rightarrow> 't option" where
  "CreateCliRPCTransport registry p = CreateRPCTransport registry (GetProperty p ''client.rpc_transport'' [])"

section \<open>Messages and what they hold\<close>

lemma same_msg_refl [simp]: "same_msg a a"
  by (simp add: same_msg_def)

lemma same_msg_get_le:
  assumes "same_msg a b" "i + LENGTH('a::len) div 8 \<le> data_size a"
  shows "(get_le (buf b) i :: 'a word) = get_le (buf a) i"
  unfolding get_le_def
  by (intro arg_cong [where f = le_word] bytes_at_cong) (use assms in \<open>simp add: same_msg_def\<close>)

lemma same_msg_entry_at:
  assumes "same_msg a b" "i + 32 + length (data e) \<le> data_size a" "entry_at (buf a) i e"
  shows "entry_at (buf b) i e"
  using assms by (subst entry_at_cong [where m = "buf a"]) (auto simp: same_msg_def)

lemma same_msg_entries_at:
  assumes "same_msg a b" "list_all wf_entry es" "i + tsz es \<le> data_size a" "entries_at (buf a) i es"
  shows "entries_at (buf b) i es"
  using assms by (intro ew.chain_frame [of es "buf a" i "buf b"]) (auto simp: same_msg_def)

lemma serves_Some:
  assumes "serves net t h" "\<And>req'. same_msg req req' \<Longrightarrow> \<exists>resp. h req' s = Some (resp, s' req') \<and> P req' resp"
  shows "\<exists>req' resp resp'. same_msg req req' \<and> P req' resp \<and> same_msg resp resp' \<and> net t req s = Some (resp', s' req')"
proof -
  obtain req' where r: "same_msg req req'" "case h req' s of
        None \<Rightarrow> net t req s = None
      | Some (resp, s') \<Rightarrow> (\<exists>resp'. same_msg resp resp' \<and> net t req s = Some (resp', s'))"
    using assms(1) by (auto simp: serves_def)
  obtain resp where "h req' s = Some (resp, s' req')" "P req' resp"
    using assms(2) [OF r(1)] by blast
  then show ?thesis using r by auto
qed

lemma serves_self: "serves (\<lambda>t. h) t h"
  unfolding serves_def by (intro allI exI [of _ _] conjI) (auto split: option.split)

end
