(* ===== verification/Dur_Log.thy ===== *)
theory Dur_Log
  imports Log_Entry Utils
begin

text \<open>
  The base class \<^verbatim>\<open>DurabilityLog\<close> of \<^verbatim>\<open>src/src/dur_log/dur_log.h\<close> and
  \<^verbatim>\<open>src/src/dur_log/dur_log.cc\<close>, with its in-memory hash map log, and the test double
  \<^verbatim>\<open>DurabilityLogMock\<close>. The record \<open>DurabilityLog\<close> holds the data members; the class
  \<^verbatim>\<open>DurabilityLogFlat\<close> extends it, as its record does.

  \<^verbatim>\<open>operator[]\<close> of a C++ map inserts a default value for a missing key; \<open>op_index\<close> returns the
  value and the map afterwards. Each method runs under \<^verbatim>\<open>lk_\<close>, so it is one step on the state. An
  uninitialised local variable that reaches the result is a parameter of the method.
\<close>

section \<open>The model\<close>

record DurabilityLog =
  dur_log :: "u64 \<rightharpoonup> LogEntry"
  reqid_to_seq_map :: "ReqID \<rightharpoonup> u64"
  sequencer_base :: Sequencer
  ordered_watermk_base :: u64
  dl_view :: u16
  is_primary :: bool
  pending_entries_ptr :: "LogEntry list"
  gsn :: u64

definition DurabilityLog_new :: DurabilityLog where
  "DurabilityLog_new =
     \<lparr>dur_log = Map.empty, reqid_to_seq_map = Map.empty, sequencer_base = Sequencer_new,
      ordered_watermk_base = - 1, dl_view = 0, is_primary = False, pending_entries_ptr = [], gsn = 0\<rparr>"

definition DurabilityLog_Initialize :: "Properties \<Rightarrow> 'a DurabilityLog_scheme \<Rightarrow> 'a DurabilityLog_scheme" where
  "DurabilityLog_Initialize p st =
     (let st = st\<lparr>sequencer_base := Sequencer_Reset (sequencer_base st)\<rparr>
      in if GetProperty p ''leader'' ''false'' \<noteq> ''true'' then st else st\<lparr>is_primary := True\<rparr>)"

definition DurabilityLog_AppendEntry :: "DurabilityLog \<Rightarrow> LogEntry \<Rightarrow> u64 \<times> LogEntry \<times> DurabilityLog" where
  "DurabilityLog_AppendEntry st e =
     (let (seq, sq) = GetNextSeq (sequencer_base st) 1;
          e = e\<lparr>log_idx := seq\<rparr>;
          reqid = (client_id e, client_seq e)
      in (seq, e, st\<lparr>sequencer_base := sq, dur_log := (dur_log st)(seq \<mapsto> e),
                     reqid_to_seq_map := (reqid_to_seq_map st)(reqid \<mapsto> seq)\<rparr>))"

definition OrderEntry :: "'a DurabilityLog_scheme \<Rightarrow> LogEntry \<Rightarrow> u64" where
  "OrderEntry st e = 0"

definition DurabilityLog_GetNumDurEntry :: "DurabilityLog \<Rightarrow> u64" where
  "DurabilityLog_GetNumDurEntry st = GetCurSeq (sequencer_base st) - 1"

definition DurabilityLog_GetNumOrderedEntry :: "DurabilityLog \<Rightarrow> u64" where
  "DurabilityLog_GetNumOrderedEntry st = ordered_watermk_base st"

partial_function (option) DurabilityLog_Fetch_loop ::
  "DurabilityLog \<Rightarrow> u64 \<Rightarrow> u64 \<Rightarrow> u32 \<Rightarrow> LogEntry list \<Rightarrow> (exn + LogEntry list) option" where
  "DurabilityLog_Fetch_loop st i n max_entries_num es =
     (if i \<le> GetCurSeq (sequencer_base st) then
        case dur_log st i of
          None \<Rightarrow> Some (Inl out_of_range)
        | Some e \<Rightarrow>
            if n + 1 \<ge> ucast max_entries_num then Some (Inr (es @ [e]))
            else DurabilityLog_Fetch_loop st (i + 1) (n + 1) max_entries_num (es @ [e])
      else Some (Inr es))"

definition DurabilityLog_FetchUnorderedEntries ::
  "u32 \<Rightarrow> DurabilityLog \<Rightarrow> LogEntry list \<Rightarrow> u32 \<Rightarrow> (exn + LogEntry list \<times> u32) option" where
  "DurabilityLog_FetchUnorderedEntries n st es max_entries_num =
     map_option (map_sum id (\<lambda>es. (es, n)))
       (DurabilityLog_Fetch_loop st (ordered_watermk_base st) 0 max_entries_num es)"

definition DurabilityLog_SpecReadEntry :: "DurabilityLog \<Rightarrow> u64 \<Rightarrow> LogEntry \<Rightarrow> int \<times> LogEntry" where
  "DurabilityLog_SpecReadEntry st idx e = (0, e)"

definition GetView :: "'a DurabilityLog_scheme \<Rightarrow> u16" where
  "GetView st = dl_view st"

definition GetGSN :: "'a DurabilityLog_scheme \<Rightarrow> u64 \<Rightarrow> u64 \<times> 'a DurabilityLog_scheme" where
  "GetGSN st batchSize = (gsn st, st\<lparr>gsn := gsn st + batchSize\<rparr>)"

subsection \<open>Garbage collection\<close>

fun delEntriesPrimary_max :: "ReqID list \<Rightarrow> u64 \<Rightarrow> (ReqID \<rightharpoonup> u64) \<Rightarrow> u64 \<times> (ReqID \<rightharpoonup> u64)" where
  "delEntriesPrimary_max [] max_seq rm = (max_seq, rm)"
| "delEntriesPrimary_max (rid # ids) max_seq rm =
     (let (v, rm) = op_index rm rid in delEntriesPrimary_max ids (max max_seq v) rm)"

partial_function (option) delEntriesPrimary_loop ::
  "u64 \<Rightarrow> u64 \<Rightarrow> u32 \<Rightarrow> DurabilityLog \<Rightarrow> (u32 \<times> DurabilityLog) option" where
  "delEntriesPrimary_loop s max_seq n_del st =
     (if s \<le> max_seq then
        case dur_log st s of
          None \<Rightarrow> delEntriesPrimary_loop (s + 1) max_seq n_del st
        | Some e \<Rightarrow> delEntriesPrimary_loop (s + 1) max_seq (n_del + 1)
            (st\<lparr>reqid_to_seq_map := (reqid_to_seq_map st)((client_id e, client_seq e) := None),
                dur_log := (dur_log st)(s := None)\<rparr>)
      else Some (n_del, st))"

definition DurabilityLog_delEntriesPrimary ::
  "u32 \<Rightarrow> DurabilityLog \<Rightarrow> ReqID list \<Rightarrow> (u32 \<times> DurabilityLog) option" where
  "DurabilityLog_delEntriesPrimary n_del st ids =
     (let (max_seq, rm) = delEntriesPrimary_max ids 0 (reqid_to_seq_map st)
      in map_option (\<lambda>(n_del, st). (n_del, st\<lparr>ordered_watermk_base := max_seq\<rparr>))
           (delEntriesPrimary_loop (ordered_watermk_base st + 1) max_seq n_del
              (st\<lparr>reqid_to_seq_map := rm\<rparr>)))"

fun delEntriesBackup_max ::
  "ReqID list \<Rightarrow> u64 \<Rightarrow> (u64 \<rightharpoonup> u64) \<Rightarrow> (ReqID \<rightharpoonup> u64) \<Rightarrow> u64 \<times> (u64 \<rightharpoonup> u64) \<times> (ReqID \<rightharpoonup> u64)" where
  "delEntriesBackup_max [] max_seq cm rm = (max_seq, cm, rm)"
| "delEntriesBackup_max (rid # ids) max_seq cm rm =
     (let cm = cm(fst rid \<mapsto> snd rid); (v, rm) = op_index rm rid
      in delEntriesBackup_max ids (max max_seq v) cm rm)"

fun delEntriesBackup_pending ::
  "LogEntry list \<Rightarrow> (u64 \<rightharpoonup> u64) \<Rightarrow> LogEntry list \<times> (u64 \<rightharpoonup> u64)" where
  "delEntriesBackup_pending [] cm = ([], cm)"
| "delEntriesBackup_pending (e # es) cm =
     (let (v, cm) = op_index cm (client_id e);
          (es', cm) = delEntriesBackup_pending es cm
      in if client_seq e \<le> v then (es', cm) else (e # es', cm))"

partial_function (option) delEntriesBackup_loop ::
  "u64 \<Rightarrow> u64 \<Rightarrow> (u64 \<rightharpoonup> u64) \<Rightarrow> u32 \<Rightarrow> DurabilityLog \<Rightarrow> (u32 \<times> DurabilityLog) option" where
  "delEntriesBackup_loop s max_seq cm n_del st =
     (if s \<le> max_seq then
        case dur_log st s of
          None \<Rightarrow> delEntriesBackup_loop (s + 1) max_seq cm n_del st
        | Some e \<Rightarrow>
            (case op_index cm (client_id e) of (v, cm) \<Rightarrow>
               delEntriesBackup_loop (s + 1) max_seq cm (if client_seq e > v then n_del else n_del + 1)
                 (st\<lparr>pending_entries_ptr :=
                       (if client_seq e > v then pending_entries_ptr st @ [e] else pending_entries_ptr st),
                     reqid_to_seq_map := (reqid_to_seq_map st)((client_id e, client_seq e) := None),
                     dur_log := (dur_log st)(s := None)\<rparr>))
      else Some (n_del, st))"

definition DurabilityLog_delEntriesBackup ::
  "DurabilityLog \<Rightarrow> ReqID list \<Rightarrow> (u32 \<times> DurabilityLog) option" where
  "DurabilityLog_delEntriesBackup st ids =
     (let (max_seq, cm, rm) = delEntriesBackup_max ids 0 Map.empty (reqid_to_seq_map st);
          (pend, cm) = delEntriesBackup_pending (pending_entries_ptr st) cm
      in map_option (\<lambda>(n_del, st). (n_del, st\<lparr>ordered_watermk_base := max_seq\<rparr>))
           (delEntriesBackup_loop (ordered_watermk_base st + 1) max_seq cm 0
              (st\<lparr>reqid_to_seq_map := rm, pending_entries_ptr := pend\<rparr>)))"

definition DurabilityLog_DelOrderedEntries ::
  "u32 \<Rightarrow> DurabilityLog \<Rightarrow> ReqID list \<Rightarrow> (u32 \<times> DurabilityLog) option" where
  "DurabilityLog_DelOrderedEntries n_del st ids =
     (if is_primary st then DurabilityLog_delEntriesPrimary n_del st ids
      else DurabilityLog_delEntriesBackup st ids)"

subsection \<open>The test double\<close>

record DurabilityLogMock = DurabilityLog +
  mock_client_id :: u64

fun Mock_Fetch_loop ::
  "nat \<Rightarrow> DurabilityLogMock \<Rightarrow> byte list \<Rightarrow> LogEntry list \<Rightarrow> LogEntry list \<times> DurabilityLogMock" where
  "Mock_Fetch_loop 0 st mock es = (es, st)"
| "Mock_Fetch_loop (Suc k) st mock es =
     (let (s, sq) = GetNextSeq (sequencer_base st) 1;
          e = LogEntry_new\<lparr>client_id := mock_client_id st, client_seq := s, data := mock,
                           esize := of_nat (length mock)\<rparr>
      in Mock_Fetch_loop k (st\<lparr>sequencer_base := sq\<rparr>) mock (es @ [e]))"

definition Mock_FetchUnorderedEntries ::
  "DurabilityLogMock \<Rightarrow> LogEntry list \<Rightarrow> u32 \<Rightarrow> LogEntry list \<times> u32 \<times> DurabilityLogMock" where
  "Mock_FetchUnorderedEntries st es max_entries_num =
     (let mock = map (\<lambda>c. of_nat (of_char c)) ''This is a mock data'';
          (es, st) = Mock_Fetch_loop (unat max_entries_num) st mock es
      in (es, max_entries_num, st))"

definition Mock_DelOrderedEntries :: "DurabilityLogMock \<Rightarrow> ReqID list \<Rightarrow> u32" where
  "Mock_DelOrderedEntries st req_ids = of_nat (length req_ids)"

section \<open>Properties of the model\<close>

subsection \<open>What an acknowledgement covers\<close>

text \<open>
  The garbage collector is told, for each client, the largest sequence number that is ordered.
  \<open>acked ids e\<close> says that this covers the entry \<open>e\<close>; a client that is not named counts as 0.
\<close>

definition reqid :: "LogEntry \<Rightarrow> ReqID" where
  "reqid e = (client_id e, client_seq e)"

definition acked :: "ReqID list \<Rightarrow> LogEntry \<Rightarrow> bool" where
  "acked ids e \<longleftrightarrow> client_seq e \<le> lookup0 (map_updates Map.empty ids) (client_id e)"

definition max_seq_of :: "(ReqID \<rightharpoonup> u64) \<Rightarrow> ReqID list \<Rightarrow> u64" where
  "max_seq_of rm ids = foldl (\<lambda>m rid. max m (lookup0 rm rid)) 0 ids"

definition touch :: "(ReqID \<rightharpoonup> u64) \<Rightarrow> ReqID list \<Rightarrow> (ReqID \<rightharpoonup> u64)" where
  "touch rm ids = (\<lambda>rid. if rid \<in> set ids \<and> rm rid = None then Some 0 else rm rid)"

lemma op_index_touch: "snd (op_index rm rid) = touch rm [rid]"
  by (rule ext) (auto simp: op_index_def touch_def split: option.split)

lemma lookup0_touch [simp]: "lookup0 (touch rm ids) = lookup0 rm"
  by (rule ext) (auto simp: touch_def lookup0_def split: option.split)

lemma touch_touch: "touch (touch rm [rid]) ids = touch rm (rid # ids)"
  by (rule ext) (auto simp: touch_def)

lemma delEntriesBackup_max_eq:
  "delEntriesBackup_max ids ms cm rm =
    (foldl (\<lambda>m rid. max m (lookup0 rm rid)) ms ids, map_updates cm ids, touch rm ids)"
proof (induction ids arbitrary: ms cm rm)
  case Nil
  show ?case by (simp add: touch_def)
next
  case (Cons rid ids)
  then show ?case by (simp add: case_prod_beta op_index_touch touch_touch)
qed

lemma delEntriesBackup_max_spec:
  "delEntriesBackup_max ids 0 Map.empty rm = (max_seq_of rm ids, map_updates Map.empty ids, touch rm ids)"
  by (simp add: delEntriesBackup_max_eq max_seq_of_def)

lemma max_seq_of_Max: "max_seq_of rm ids = Max (insert 0 (lookup0 rm ` set ids))"
  by (simp add: max_seq_of_def foldl_max)

lemma max_seq_of_in: "max_seq_of rm ids = 0 \<or> (\<exists>rid\<in>set ids. rm rid = Some (max_seq_of rm ids))"
proof -
  have "max_seq_of rm ids \<in> insert 0 (lookup0 rm ` set ids)"
    unfolding max_seq_of_Max by (rule Max_in) auto
  then show ?thesis
    by (auto simp: lookup0_def split: option.splits)
qed

lemma max_seq_of_ge: "rid \<in> set ids \<Longrightarrow> lookup0 rm rid \<le> max_seq_of rm ids"
  by (simp add: max_seq_of_Max)

lemma delEntriesBackup_pending_eq:
  "fst (delEntriesBackup_pending es cm) = filter (\<lambda>e. \<not> client_seq e \<le> lookup0 cm (client_id e)) es \<and>
   lookup0 (snd (delEntriesBackup_pending es cm)) = lookup0 cm"
  by (induction es arbitrary: cm) (auto simp: case_prod_beta Let_def)

subsection \<open>Garbage collection on a backup\<close>

definition entries_between :: "(u64 \<rightharpoonup> LogEntry) \<Rightarrow> nat \<Rightarrow> nat \<Rightarrow> LogEntry list" where
  "entries_between lg lo hi =
     concat (map (\<lambda>i. case lg (of_nat i) of None \<Rightarrow> [] | Some e \<Rightarrow> [e]) [lo..<Suc hi])"

lemma entries_between_Nil: "hi < lo \<Longrightarrow> entries_between lg lo hi = []"
  by (simp add: entries_between_def)

lemma entries_between_Cons:
  "lo \<le> hi \<Longrightarrow> entries_between lg lo hi =
    (case lg (of_nat lo) of None \<Rightarrow> [] | Some e \<Rightarrow> [e]) @ entries_between lg (Suc lo) hi"
  by (simp add: entries_between_def upt_rec [of lo] del: upt_Suc)

lemma entries_between_upd:
  assumes "lo < lo'" "hi < 2 ^ 64"
  shows "entries_between (lg(of_nat lo := x)) lo' hi = entries_between lg lo' hi"
proof -
  have "(of_nat k :: u64) \<noteq> of_nat lo" if "k \<in> set [lo'..<Suc hi]" for k
    using that assms by (subst of_nat_eq_u64) auto
  then show ?thesis
    unfolding entries_between_def by (intro arg_cong [where f = concat] map_cong) auto
qed

lemma delEntriesBackup_loop_spec:
  assumes "unat max_seq + 1 < 2 ^ 64"
  shows "delEntriesBackup_loop s max_seq cm n st =
    (let es = entries_between (dur_log st) (unat s) (unat max_seq)
     in Some (n + of_nat (length (filter (\<lambda>e. client_seq e \<le> lookup0 cm (client_id e)) es)),
          st\<lparr>pending_entries_ptr := pending_entries_ptr st @
                filter (\<lambda>e. \<not> client_seq e \<le> lookup0 cm (client_id e)) es,
             reqid_to_seq_map := (reqid_to_seq_map st) |` (- reqid ` set es),
             dur_log := (dur_log st) |` (- {s..max_seq})\<rparr>))"
proof (induction "unat max_seq + 1 - unat s" arbitrary: s cm n st rule: less_induct)
  case less
  show ?case
  proof (cases "s \<le> max_seq")
    case False
    then have "unat max_seq < unat s" by (simp add: word_le_nat_alt)
    moreover have "(- {s..max_seq}) = UNIV"
      using False by auto
    ultimately show ?thesis
      using False by (subst delEntriesBackup_loop.simps) (simp add: entries_between_Nil Compl_eq_Diff_UNIV)
  next
    case True
    then have le: "unat s \<le> unat max_seq" by (simp add: word_le_nat_alt)
    then have s1: "unat (s + 1) = Suc (unat s)"
      using assms by (subst unat_add_small) simp_all
    have dec: "unat max_seq + 1 - unat (s + 1) < unat max_seq + 1 - unat s"
      using le s1 by simp
    have rng: "(- {s..max_seq}) = (- {s + 1..max_seq}) - {s}"
      using True s1 by (auto simp: word_le_nat_alt) (metis Suc_leI le_neq_implies_less word_unat_eq_iff)
    note IH = less.hyps [OF dec]
    show ?thesis
    proof (cases "dur_log st s")
      case None
      then have "(dur_log st) |` (- {s..max_seq}) =
          (dur_log st) |` (- {s + 1..max_seq})"
        unfolding rng by (auto simp: restrict_map_def fun_eq_iff)
      then show ?thesis
        using IH [of cm n st] None True le
        by (subst delEntriesBackup_loop.simps) (simp add: entries_between_Cons s1)
    next
      case (Some e)
      let ?rest = "entries_between (dur_log st) (Suc (unat s)) (unat max_seq)"
      have es: "entries_between (dur_log st) (unat s) (unat max_seq) = e # ?rest"
        using Some le by (simp add: entries_between_Cons)
      have rest: "entries_between ((dur_log st)(s := None)) (Suc (unat s)) (unat max_seq) = ?rest"
        using assms entries_between_upd [of "unat s" "Suc (unat s)" "unat max_seq" "dur_log st" None] by simp
      have dl: "((dur_log st)(s := None)) |` (- {s + 1..max_seq}) = (dur_log st) |` (- {s..max_seq})"
        by (simp only: restrict_upd_None rng)
      have "- reqid ` set ?rest - {reqid e} = - reqid ` set (e # ?rest)"
        by auto
      then have rm: "((reqid_to_seq_map st)((client_id e, client_seq e) := None)) |` (- reqid ` set ?rest) =
          (reqid_to_seq_map st) |` (- reqid ` set (e # ?rest))"
        by (simp only: restrict_upd_None reqid_def)
      show ?thesis
        using True Some
        by (subst delEntriesBackup_loop.simps)
          (simp add: IH case_prod_beta Let_def s1 rest es dl rm not_less [symmetric] del: restrict_fun_upd image_insert list.set not_less)
    qed
  qed
qed

text \<open>Garbage collection on a backup, hash map version. The entries between the watermark and the
  largest named sequence number leave the log. An entry that the acknowledgement covers is deleted and
  counted; every other entry moves to the pending list, so none is lost. Pending entries that are now
  covered are dropped, and the watermark advances to the largest sequence number.\<close>

theorem DurabilityLog_delEntriesBackup_spec:
  fixes st :: DurabilityLog and ids :: "ReqID list"
  defines "ms \<equiv> max_seq_of (reqid_to_seq_map st) ids"
  defines "es \<equiv> entries_between (dur_log st) (unat (ordered_watermk_base st + 1)) (unat ms)"
  assumes "unat ms + 1 < 2 ^ 64"
  shows "\<exists>st'. DurabilityLog_delEntriesBackup st ids = Some (of_nat (length (filter (acked ids) es)), st') \<and>
    ordered_watermk_base st' = ms \<and>
    dur_log st' = dur_log st |` (- {ordered_watermk_base st + 1..ms}) \<and>
    pending_entries_ptr st' =
      filter (\<lambda>e. \<not> acked ids e) (pending_entries_ptr st) @ filter (\<lambda>e. \<not> acked ids e) es \<and>
    sequencer_base st' = sequencer_base st"
  using assms delEntriesBackup_pending_eq [of "pending_entries_ptr st" "map_updates Map.empty ids"]
  by (simp add: DurabilityLog_delEntriesBackup_def delEntriesBackup_max_spec delEntriesBackup_loop_spec
      case_prod_beta Let_def acked_def [abs_def])

definition sample_backup :: DurabilityLog where
  "sample_backup =
     (let e = (\<lambda>c s. (LogEntry_of [7])\<lparr>client_id := c, client_seq := s\<rparr>);
          app = (\<lambda>st e. snd (snd (DurabilityLog_AppendEntry st e)))
      in app (app (app DurabilityLog_new (e 1 5)) (e 2 9)) (e 1 6))"

theorem DurabilityLog_delEntriesBackup_spec_witness:
  "\<exists>st'. DurabilityLog_delEntriesBackup sample_backup [(1, 6)] = Some (2, st') \<and>
    map reqid (pending_entries_ptr st') = [(2, 9)] \<and> dur_log st' = Map.empty"
proof -
  have ms: "max_seq_of (reqid_to_seq_map sample_backup) [(1, 6)] = 2"
    by (simp add: sample_backup_def max_seq_of_def lookup0_def DurabilityLog_AppendEntry_def
        DurabilityLog_new_def GetNextSeq_def Sequencer_new_def Let_def)
  have wm: "ordered_watermk_base sample_backup + 1 = 0"
    by (simp add: sample_backup_def DurabilityLog_AppendEntry_def DurabilityLog_new_def GetNextSeq_def Let_def)
  have pend: "pending_entries_ptr sample_backup = []"
    by (simp add: sample_backup_def DurabilityLog_AppendEntry_def DurabilityLog_new_def GetNextSeq_def Let_def)
  have lg: "dur_log sample_backup =
      [0 \<mapsto> (LogEntry_of [7])\<lparr>client_id := 1, client_seq := 5, log_idx := 0\<rparr>,
       1 \<mapsto> (LogEntry_of [7])\<lparr>client_id := 2, client_seq := 9, log_idx := 1\<rparr>,
       2 \<mapsto> (LogEntry_of [7])\<lparr>client_id := 1, client_seq := 6, log_idx := 2\<rparr>]"
    by (simp add: sample_backup_def DurabilityLog_AppendEntry_def DurabilityLog_new_def GetNextSeq_def
        Sequencer_new_def Let_def)
  have "dur_log sample_backup |` (- {0..2}) = Map.empty"
    by (simp add: lg restrict_map_def fun_eq_iff)
  moreover have "entries_between (dur_log sample_backup) 0 2 =
      [(LogEntry_of [7])\<lparr>client_id := 1, client_seq := 5, log_idx := 0\<rparr>,
       (LogEntry_of [7])\<lparr>client_id := 2, client_seq := 9, log_idx := 1\<rparr>,
       (LogEntry_of [7])\<lparr>client_id := 1, client_seq := 6, log_idx := 2\<rparr>]"
    by (simp add: entries_between_Cons entries_between_Nil lg)
  ultimately show ?thesis
    using DurabilityLog_delEntriesBackup_spec [of sample_backup "[(1, 6)]"]
    by (auto simp: ms wm pend acked_def lookup0_def reqid_def)
qed

subsection \<open>Fetching\<close>

text \<open>A log from which nothing has been deleted yet has the watermark \<open>UINT64_MAX\<close>. Its
  \<^verbatim>\<open>FetchUnorderedEntries\<close> returns no entry at all, however many were appended, and the number it
  returns is the uninitialised outer variable \<^verbatim>\<open>n\<close> (the loop counts in an inner variable of the
  same name).\<close>

theorem DurabilityLog_Fetch_initial:
  assumes "length es < 2 ^ 64 - 1"
  shows "DurabilityLog_FetchUnorderedEntries n
      (foldl (\<lambda>st e. snd (snd (DurabilityLog_AppendEntry st e))) DurabilityLog_new es) acc max_num =
    Some (Inr (acc, n))"
proof -
  let ?st = "\<lambda>st es. foldl (\<lambda>st e. snd (snd (DurabilityLog_AppendEntry st e))) st es"
  have "ordered_watermk_base (?st st es) = ordered_watermk_base st \<and>
      sequencer_base (?st st es) = sequencer_base st + of_nat (length es)" for st
    by (induction es arbitrary: st) (simp_all add: DurabilityLog_AppendEntry_def GetNextSeq_def Let_def algebra_simps)
  from this [of DurabilityLog_new]
  have "ordered_watermk_base (?st DurabilityLog_new es) = - 1"
    "sequencer_base (?st DurabilityLog_new es) = of_nat (length es)"
    by (simp_all add: DurabilityLog_new_def Sequencer_new_def)
  moreover have "unat (- 1 :: u64) = 2 ^ 64 - 1"
    by (simp add: unsigned_minus_1_eq_mask mask_eq_exp_minus_1)
  then have "\<not> - 1 \<le> (of_nat (length es) :: u64)"
    using assms by (simp add: word_le_nat_alt unat_of_nat_small)
  ultimately show ?thesis
    by (simp add: DurabilityLog_FetchUnorderedEntries_def DurabilityLog_Fetch_loop.simps GetCurSeq_def)
qed

theorem DurabilityLog_Fetch_initial_witness:
  "DurabilityLog_FetchUnorderedEntries 77
      (foldl (\<lambda>st e. snd (snd (DurabilityLog_AppendEntry st e))) DurabilityLog_new [LogEntry_of [1], LogEntry_of [2]])
      [] 10 = Some (Inr ([], 77))"
  using DurabilityLog_Fetch_initial [of "[LogEntry_of [1], LogEntry_of [2]]"] by simp

end
