(* ===== verification/Dur_Log_Flat.thy ===== *)
theory Dur_Log_Flat
  imports Dur_Log
begin

text \<open>
  The durability log that the servers run, \<^verbatim>\<open>DurabilityLogFlat\<close> of
  \<^verbatim>\<open>src/src/dur_log/dur_log_flat.h\<close> and \<^verbatim>\<open>src/src/dur_log/dur_log_flat.cc\<close>: a ring of
  serialized entries in one RDMA memory region, followed by an 8 KB safe region that keeps an entry
  which crosses the end of the ring contiguous, and by four 64 bit words (sequencer, ordered watermark,
  ordered index watermark, indexer) that the consensus side reads and writes remotely.

  The memory region is the field \<open>mem_rg_raw\<close>; its addresses are offsets from the start of the
  region, and the four words live in it, as in the code. \<^verbatim>\<open>AppendEntry\<close> is split at the points where
  another thread can run: the space check, the reservation under \<^verbatim>\<open>idx_lk_\<close>, the serialization, the
  publication of the flag, the copy of the overflow to the start of the ring, and the registration on a
  backup. \<open>None\<close> is the busy wait of \<^verbatim>\<open>waitForPlace\<close>, or of the wait for a flag in
  \<^verbatim>\<open>delEntriesBackup\<close>, in a state where no other thread acts.
\<close>

section \<open>The model\<close>

definition PAGE_SIZE :: u64 where
  "PAGE_SIZE = 4096"

definition SAFE_RG_SIZE :: u64 where
  "SAFE_RG_SIZE = 2 * PAGE_SIZE"

record DurabilityLogFlat = DurabilityLog +
  mem_rg_raw :: mem
  rg_size :: u64
  idx_to_seq :: "u64 \<Rightarrow> u64"
  idx_map_elem_cnt :: u64
  pending_entries :: "LogEntry list"
  wait :: bool

definition control_addr :: "DurabilityLogFlat \<Rightarrow> nat" where
  "control_addr st = unat (rg_size st) + unat SAFE_RG_SIZE"

definition sequencer :: "DurabilityLogFlat \<Rightarrow> u64" where
  "sequencer st = get_le (mem_rg_raw st) (control_addr st)"

definition ordered_watermk :: "DurabilityLogFlat \<Rightarrow> u64" where
  "ordered_watermk st = get_le (mem_rg_raw st) (control_addr st + 8)"

definition ordered_idx_watermk :: "DurabilityLogFlat \<Rightarrow> u64" where
  "ordered_idx_watermk st = get_le (mem_rg_raw st) (control_addr st + 16)"

definition indexer :: "DurabilityLogFlat \<Rightarrow> u64" where
  "indexer st = get_le (mem_rg_raw st) (control_addr st + 24)"

definition set_sequencer :: "u64 \<Rightarrow> DurabilityLogFlat \<Rightarrow> DurabilityLogFlat" where
  "set_sequencer v st = st\<lparr>mem_rg_raw := put_le (mem_rg_raw st) (control_addr st) v\<rparr>"

definition set_ordered_watermk :: "u64 \<Rightarrow> DurabilityLogFlat \<Rightarrow> DurabilityLogFlat" where
  "set_ordered_watermk v st = st\<lparr>mem_rg_raw := put_le (mem_rg_raw st) (control_addr st + 8) v\<rparr>"

definition set_ordered_idx_watermk :: "u64 \<Rightarrow> DurabilityLogFlat \<Rightarrow> DurabilityLogFlat" where
  "set_ordered_idx_watermk v st = st\<lparr>mem_rg_raw := put_le (mem_rg_raw st) (control_addr st + 16) v\<rparr>"

definition set_indexer :: "u64 \<Rightarrow> DurabilityLogFlat \<Rightarrow> DurabilityLogFlat" where
  "set_indexer v st = st\<lparr>mem_rg_raw := put_le (mem_rg_raw st) (control_addr st + 24) v\<rparr>"

definition DurabilityLogFlat_new :: "mem \<Rightarrow> (u64 \<Rightarrow> u64) \<Rightarrow> DurabilityLogFlat" where
  "DurabilityLogFlat_new m0 a0 =
     DurabilityLog.extend DurabilityLog_new
       (DurabilityLogFlat.fields m0 0 a0 0 [] True)"

definition DurabilityLogFlat_Initialize ::
  "Properties \<Rightarrow> mem option \<Rightarrow> (u64 \<Rightarrow> u64) option \<Rightarrow> DurabilityLogFlat \<Rightarrow> exn + DurabilityLogFlat" where
  "DurabilityLogFlat_Initialize p region idx_array st =
     (let st = DurabilityLog_Initialize p st
      in case stoi (GetProperty p ''dur_log.mr_size_m'' ''512'') of
           Inl x \<Rightarrow> Inl x
         | Inr mr_size_m \<Rightarrow>
             (let rg = scast (of_int mr_size_m * 1024 * 1024 :: u32);
                  st = st\<lparr>rg_size := rg, idx_map_elem_cnt := rg div MetaDataSize\<rparr>;
                  st = (if GetProperty p ''wait'' ''true'' = ''false'' then st\<lparr>wait := False\<rparr> else st)
              in case region of
                   None \<Rightarrow> Inl (Exception ''Unable to allocate memory region'')
                 | Some m \<Rightarrow>
                     (case idx_array of
                        None \<Rightarrow> Inl (Exception ''Unable to allocate idx to seq map'')
                      | Some a \<Rightarrow>
                          Inr (set_ordered_idx_watermk 0 (set_ordered_watermk 0
                            (set_indexer Sequencer_new (set_sequencer Sequencer_new
                              (st\<lparr>mem_rg_raw := m, idx_to_seq := a\<rparr>))))))))"

subsection \<open>Appending\<close>

definition waitForPlace_waits :: "DurabilityLogFlat \<Rightarrow> u64 \<Rightarrow> bool" where
  "waitForPlace_waits st sz \<longleftrightarrow>
     wait st \<and> sequencer st + sz - ordered_watermk st \<ge> rg_size st - push_bit 6 PAGE_SIZE"

definition AppendEntry_reserve :: "DurabilityLogFlat \<Rightarrow> u64 \<Rightarrow> u64 \<times> u64 \<times> u64 \<times> DurabilityLogFlat" where
  "AppendEntry_reserve st e_size =
     (let seq = sequencer st;
          offset = seq mod rg_size st;
          st = st\<lparr>mem_rg_raw := SetFlag (mem_rg_raw st) (unat offset) 0\<rparr>;
          idx = indexer st;
          st = (if is_primary st
                then st\<lparr>idx_to_seq := (idx_to_seq st)(idx mod idx_map_elem_cnt st := seq)\<rparr> else st);
          st = set_indexer (indexer st + 1) st;
          st = set_sequencer (sequencer st + e_size) st
      in (seq, idx, offset, st))"

definition AppendEntry_serialize :: "DurabilityLogFlat \<Rightarrow> LogEntry \<Rightarrow> u64 \<Rightarrow> u64 \<times> DurabilityLogFlat" where
  "AppendEntry_serialize st e offset =
     (let (m, ety_size) = Serializer e (mem_rg_raw st) (unat offset)
      in (ety_size, st\<lparr>mem_rg_raw := m\<rparr>))"

definition AppendEntry_publish :: "DurabilityLogFlat \<Rightarrow> u64 \<Rightarrow> DurabilityLogFlat" where
  "AppendEntry_publish st offset = st\<lparr>mem_rg_raw := SetFlag (mem_rg_raw st) (unat offset) 1\<rparr>"

definition AppendEntry_rewind :: "DurabilityLogFlat \<Rightarrow> u64 \<Rightarrow> u64 \<Rightarrow> DurabilityLogFlat" where
  "AppendEntry_rewind st offset ety_size =
     (if offset + ety_size > rg_size st
      then st\<lparr>mem_rg_raw := write_bytes (mem_rg_raw st) 0
             (bytes_at (mem_rg_raw st) (unat (rg_size st)) (unat (offset + ety_size - rg_size st)))\<rparr>
      else st)"

definition AppendEntry_register :: "DurabilityLogFlat \<Rightarrow> LogEntry \<Rightarrow> u64 \<Rightarrow> DurabilityLogFlat" where
  "AppendEntry_register st e seq =
     (if \<not> is_primary st
      then st\<lparr>reqid_to_seq_map := (reqid_to_seq_map st)((client_id e, client_seq e) \<mapsto> seq)\<rparr>
      else st)"

definition AppendEntry :: "DurabilityLogFlat \<Rightarrow> LogEntry \<Rightarrow> (u64 \<times> LogEntry \<times> DurabilityLogFlat) option" where
  "AppendEntry st e =
     (let e_size = GetSize e
      in if waitForPlace_waits st e_size then None
         else let (seq, idx, offset, st) = AppendEntry_reserve st e_size;
                  e = e\<lparr>log_idx := idx, view := dl_view st\<rparr>;
                  (ety_size, st) = AppendEntry_serialize st e offset;
                  st = AppendEntry_publish st offset;
                  st = AppendEntry_rewind st offset ety_size;
                  st = AppendEntry_register st e seq
              in Some (seq, e, st))"

subsection \<open>Reading\<close>

partial_function (option) FetchUnorderedEntries_loop ::
  "DurabilityLogFlat \<Rightarrow> u64 \<Rightarrow> u32 \<Rightarrow> u32 \<Rightarrow> LogEntry list \<Rightarrow> (LogEntry list \<times> u32) option" where
  "FetchUnorderedEntries_loop st s n max_entries_num es =
     (if s < sequencer st then
        let ofst = s mod rg_size st;
            (e, sz) = Deserializer LogEntry_new (mem_rg_raw st) (unat ofst);
            s = s + sz;
            es = es @ [e];
            n = n + 1
        in if n \<ge> max_entries_num then Some (es, n)
           else FetchUnorderedEntries_loop st s n max_entries_num es
      else Some (es, n))"

definition FetchUnorderedEntries ::
  "DurabilityLogFlat \<Rightarrow> LogEntry list \<Rightarrow> u32 \<Rightarrow> (LogEntry list \<times> u32) option" where
  "FetchUnorderedEntries st es max_entries_num =
     (if is_primary st then Some (es, 0)
      else FetchUnorderedEntries_loop st (ordered_watermk st) 0 max_entries_num es)"

definition GetNumDurEntry :: "DurabilityLogFlat \<Rightarrow> u64" where
  "GetNumDurEntry st = indexer st"

definition GetNumOrderedEntry :: "DurabilityLogFlat \<Rightarrow> u64" where
  "GetNumOrderedEntry st = ordered_idx_watermk st"

definition SpecReadEntry :: "DurabilityLogFlat \<Rightarrow> u64 \<Rightarrow> LogEntry \<Rightarrow> int \<times> LogEntry" where
  "SpecReadEntry st idx e =
     (if idx \<le> indexer st - idx_map_elem_cnt st + 64 then (- 1, e)
      else if idx \<ge> indexer st then (- 2, e)
      else let seq = idx_to_seq st (idx mod idx_map_elem_cnt st);
               cur_seq = sequencer st
           in if cur_seq > rg_size st \<and> seq \<le> cur_seq - rg_size st + push_bit 6 PAGE_SIZE then (- 1, e)
              else let offset = seq mod rg_size st
                   in if GetIdx (mem_rg_raw st) (unat offset) \<noteq> idx then (0, e)
                      else let (e, sz) = Deserializer e (mem_rg_raw st) (unat offset)
                           in (sint (ucast sz :: u32), e))"

subsection \<open>Garbage collection\<close>

definition delEntriesPrimary :: "DurabilityLogFlat \<Rightarrow> ReqID list \<Rightarrow> u32 \<times> DurabilityLogFlat" where
  "delEntriesPrimary st max_seq_req_ids = (0, st)"

fun delEntriesBackup_flat_pending ::
  "LogEntry list \<Rightarrow> (u64 \<rightharpoonup> u64) \<Rightarrow> u32 \<Rightarrow> LogEntry list \<times> (u64 \<rightharpoonup> u64) \<times> u32" where
  "delEntriesBackup_flat_pending [] cm n_del = ([], cm, n_del)"
| "delEntriesBackup_flat_pending (e # es) cm n_del =
     (let (v, cm) = op_index cm (client_id e)
      in if client_seq e \<le> v then delEntriesBackup_flat_pending es cm (n_del + 1)
         else let (es, cm, n_del) = delEntriesBackup_flat_pending es cm n_del in (e # es, cm, n_del))"

partial_function (option) delEntriesBackup_flat_loop ::
  "u64 \<Rightarrow> u64 \<Rightarrow> (u64 \<rightharpoonup> u64) \<Rightarrow> u32 \<Rightarrow> DurabilityLogFlat \<Rightarrow> (u64 \<times> u32 \<times> DurabilityLogFlat) option" where
  "delEntriesBackup_flat_loop s max_seq cm n_del st =
     (if s \<le> max_seq then
        let ofst = unat (s mod rg_size st); m = mem_rg_raw st
        in if GetFlagFromBuf m ofst \<noteq> 1 then None
           else let cli_id = GetClientId m ofst;
                    cli_seq = GetClientSeq m ofst;
                    (v, cm) = op_index cm cli_id;
                    n_del = (if cli_seq > v then n_del else n_del + 1);
                    st = (if cli_seq > v
                          then st\<lparr>pending_entries := pending_entries st @ [fst (Deserializer LogEntry_new m ofst)]\<rparr>
                          else st);
                    st = st\<lparr>reqid_to_seq_map := (reqid_to_seq_map st)((cli_id, cli_seq) := None)\<rparr>;
                    s = s + GetSizeFromBuf m ofst;
                    st = set_ordered_idx_watermk (GetIdx m ofst + 1) st
                in delEntriesBackup_flat_loop s max_seq cm n_del st
      else Some (s, n_del, st))"

definition delEntriesBackup :: "DurabilityLogFlat \<Rightarrow> ReqID list \<Rightarrow> (u32 \<times> DurabilityLogFlat) option" where
  "delEntriesBackup st max_seq_req_ids =
     (let (max_seq, cm, rm) = delEntriesBackup_max max_seq_req_ids 0 Map.empty (reqid_to_seq_map st);
          st = st\<lparr>reqid_to_seq_map := rm\<rparr>;
          (pend, cm, n_del) = delEntriesBackup_flat_pending (pending_entries st) cm 0;
          st = st\<lparr>pending_entries := pend\<rparr>
      in case delEntriesBackup_flat_loop (ordered_watermk st) max_seq cm n_del st of
           None \<Rightarrow> None
         | Some (s, n_del, st) \<Rightarrow> Some (n_del, set_ordered_watermk s st))"

definition DelOrderedEntries :: "DurabilityLogFlat \<Rightarrow> ReqID list \<Rightarrow> (u32 \<times> DurabilityLogFlat) option" where
  "DelOrderedEntries st max_seq_req_ids =
     (if is_primary st then Some (delEntriesPrimary st max_seq_req_ids)
      else delEntriesBackup st max_seq_req_ids)"

section \<open>The ring\<close>

text \<open>
  Entries have logical positions that only grow; position \<open>p\<close> lives at offset
  \<open>p mod rg\<close>. An entry is stored twice over when it crosses the end of the ring: contiguously, its
  tail running into the safe region, and wrapped, its tail copied to the start. \<open>ring_at\<close> says
  that memory holds both views of an entry.
\<close>

definition ring_at :: "nat \<Rightarrow> mem \<Rightarrow> nat \<Rightarrow> LogEntry \<Rightarrow> bool" where
  "ring_at rg m p e \<longleftrightarrow> entry_at m (p mod rg) e \<and>
     (\<forall>k < 32 + length (data e). m ((p + k) mod rg) = entry_bytes e ! k)"

definition store_ring :: "nat \<Rightarrow> mem \<Rightarrow> nat \<Rightarrow> LogEntry \<Rightarrow> mem" where
  "store_ring rg m ofs e =
     (let m = write_bytes m ofs (entry_bytes e)
      in if ofs + esz e > rg then write_bytes m 0 (bytes_at m rg (ofs + esz e - rg)) else m)"

lemma mod_window:
  fixes x y rg :: nat
  assumes "x < y" "y < x + rg"
  shows "x mod rg \<noteq> y mod rg"
proof
  assume "x mod rg = y mod rg"
  then have "rg dvd y - x"
    using assms(1) by (metis less_imp_le mod_eq_dvd_iff_nat)
  then show False
    using assms by (auto dest: dvd_imp_le)
qed

lemma mod_add_offset:
  fixes p rg k :: nat
  assumes "p mod rg + k < 2 * rg"
  shows "(p + k) mod rg = (if p mod rg + k < rg then p mod rg + k else p mod rg + k - rg)"
proof -
  have "(p + k) mod rg = (p mod rg + k) mod rg" by (simp add: mod_add_left_eq)
  then show ?thesis using assms by (auto simp: le_mod_geq)
qed

lemma two_straddlers:
  fixes p q s t rg :: nat
  assumes "0 < rg" "p + s \<le> q" "q + t \<le> p + rg" "rg < p mod rg + s" "rg < q mod rg + t"
  shows False
proof -
  have p: "p = p div rg * rg + p mod rg" and q: "q = q div rg * rg + q mod rg" by simp_all
  have pm: "p mod rg < rg" using assms(1) by simp
  have "p div rg * rg + rg < q"
    using p assms(2, 4) by linarith
  then have "Suc (p div rg) * rg < q" by simp
  then have "Suc (p div rg) \<le> q div rg"
    using assms(1) by (metis div_le_mono div_mult_self_is_m less_imp_le)
  then have "Suc (p div rg) * rg \<le> q div rg * rg" by (rule mult_le_mono1)
  then have "p div rg * rg + rg \<le> q div rg * rg" by simp
  then show False
    using p q pm assms(3, 5) by linarith
qed

lemma ring_disjoint:
  fixes p q s t rg :: nat
  assumes rg: "0 < rg" "s \<le> rg" "t \<le> rg"
    and win: "p + s \<le> q" "q + t \<le> p + rg"
    and x: "p mod rg \<le> x" "x < p mod rg + s"
  shows "\<not> (q mod rg \<le> x \<and> x < q mod rg + t) \<and> \<not> x < q mod rg + t - rg"
proof -
  have pm: "p mod rg < rg" "q mod rg < rg" using rg(1) by simp_all
  define k where "k = x - p mod rg"
  have k: "x = p mod rg + k" "k < s" using x by (auto simp: k_def)
  have no: "(p + k) mod rg \<noteq> (q + l) mod rg" if "l < t" for l
    using win k(2) that by (intro mod_window) linarith+
  show ?thesis
  proof (cases "x < rg")
    case True
    then have pk: "(p + k) mod rg = x"
      using k(1) mod_add_offset [of p rg k] by simp
    have "\<not> (q mod rg \<le> x \<and> x < q mod rg + t)"
    proof
      assume "q mod rg \<le> x \<and> x < q mod rg + t"
      then have "(q + (x - q mod rg)) mod rg = x" "x - q mod rg < t"
        using True mod_add_offset [of q rg "x - q mod rg"] by auto
      then show False using no [of "x - q mod rg"] pk by simp
    qed
    moreover have "\<not> x < q mod rg + t - rg"
    proof
      assume a: "x < q mod rg + t - rg"
      define l where "l = x + rg - q mod rg"
      have l: "q mod rg + l = x + rg" "l < t" using a pm(2) by (simp_all add: l_def)
      then have "(q + l) mod rg = x"
        using True mod_add_offset [of q rg l] by simp
      then show False using no [OF l(2)] pk by simp
    qed
    ultimately show ?thesis by simp
  next
    case False
    then have sp: "rg < p mod rg + s" using k by simp
    have "\<not> (q mod rg \<le> x \<and> x < q mod rg + t)"
      using two_straddlers [OF rg(1) win sp] False by auto
    moreover have "\<not> x < q mod rg + t - rg"
      using False pm(2) rg(3) by linarith
    ultimately show ?thesis by simp
  qed
qed

lemma ring_at_cong:
  assumes "0 < rg" "\<And>x. x < rg + esz e \<Longrightarrow> m' x = m x" "ring_at rg m p e"
  shows "ring_at rg m' p e"
proof -
  have "x < rg + esz e" if "x < p mod rg + 32 + length (data e)" for x
    using that esz_bounds(1) [of e] mod_less_divisor [OF assms(1), of p] by linarith
  then have "entry_at m' (p mod rg) e"
    using assms(2, 3) by (subst entry_at_cong [where m = m]) (auto simp: ring_at_def)
  moreover have "(p + k) mod rg < rg + esz e" for k
    using mod_less_divisor [OF assms(1), of "p + k"] by linarith
  ultimately show ?thesis
    using assms(2, 3) by (simp add: ring_at_def)
qed

lemma store_ring_frame:
  "\<not> (ofs \<le> x \<and> x < ofs + esz e) \<Longrightarrow> \<not> x < ofs + esz e - rg \<Longrightarrow> store_ring rg m ofs e x = m x"
  using esz_bounds(1) [of e] by (auto simp: store_ring_def Let_def write_bytes_def)

lemma store_ring_cong:
  assumes "ofs < rg" "\<And>x. \<not> (ofs \<le> x \<and> x < ofs + 32) \<Longrightarrow> m' x = m x"
  shows "store_ring rg m' ofs e = store_ring rg m ofs e"
proof -
  have "write_bytes m' ofs (entry_bytes e) = write_bytes m ofs (entry_bytes e)"
    using assms(2) by (auto simp: write_bytes_def fun_eq_iff)
  then show ?thesis by (simp add: store_ring_def)
qed

lemma store_ring_copies:
  assumes "esz e \<le> rg" "ofs < rg"
  shows "entry_at (store_ring rg m ofs e) ofs e"
    and "rg \<le> ofs + k \<Longrightarrow> k < esz e \<Longrightarrow>
      store_ring rg m ofs e (ofs + k - rg) = store_ring rg m ofs e (ofs + k)"
proof -
  have sz: "ofs + esz e - rg \<le> ofs" using assms by simp
  let ?m = "write_bytes m ofs (entry_bytes e)"
  have hi: "store_ring rg m ofs e x = ?m x" if "ofs \<le> x" for x
    using that sz by (simp add: store_ring_def Let_def)
  have "entry_at ?m ofs e" by (simp add: entry_at_def)
  then show "entry_at (store_ring rg m ofs e) ofs e"
    by (subst entry_at_cong [where m = ?m]) (auto simp: hi)
  show "store_ring rg m ofs e (ofs + k - rg) = store_ring rg m ofs e (ofs + k)" if "rg \<le> ofs + k" "k < esz e"
  proof -
    have "rg < ofs + esz e" "ofs + k - rg < ofs + esz e - rg" using that by auto
    then have "store_ring rg m ofs e (ofs + k - rg) = ?m (rg + (ofs + k - rg))"
      by (simp add: store_ring_def Let_def write_bytes_def)
    then show ?thesis using that hi [of "ofs + k"] by simp
  qed
qed

lemma store_ring_at:
  assumes "esz e \<le> rg" "0 < rg"
  shows "ring_at rg (store_ring rg m (p mod rg) e) p e"
proof -
  let ?m = "store_ring rg m (p mod rg) e"
  have o: "p mod rg < rg" using assms(2) by simp
  note st = store_ring_copies [OF assms(1) o]
  have "?m ((p + k) mod rg) = entry_bytes e ! k" if "k < 32 + length (data e)" for k
  proof -
    have k: "k < esz e" using that esz_bounds(1) [of e] by simp
    then have "(p + k) mod rg = (if p mod rg + k < rg then p mod rg + k else p mod rg + k - rg)"
      using assms(1) o by (intro mod_add_offset) linarith
    then have "?m ((p + k) mod rg) = ?m (p mod rg + k)"
      using st(2) [OF _ k, of m] by simp
    also have "\<dots> = entry_bytes e ! k"
      using st(1) [of m] that by (auto simp: entry_at_def bytes_at_eq_iff)
    finally show ?thesis .
  qed
  then show ?thesis using st(1) by (simp add: ring_at_def)
qed

lemma store_ring_keeps:
  assumes "0 < rg" "esz e \<le> rg" "esz e' \<le> rg" "p' + esz e' \<le> p" "p + esz e \<le> p' + rg"
    and "ring_at rg m p' e'"
  shows "ring_at rg (store_ring rg m (p mod rg) e) p' e'"
proof -
  let ?m = "store_ring rg m (p mod rg) e"
  have same: "?m x = m x" if "p' mod rg \<le> x" "x < p' mod rg + esz e'" for x
    using ring_disjoint [OF assms(1, 3, 2, 4, 5) that] by (intro store_ring_frame) auto
  then have "entry_at ?m (p' mod rg) e'"
    using assms(6) esz_bounds(1) [of e'] by (subst entry_at_cong [where m = m]) (auto simp: ring_at_def)
  moreover have "?m ((p' + k) mod rg) = m ((p' + k) mod rg)" if "k < esz e'" for k
  proof -
    have "\<not> (p mod rg \<le> (p' + k) mod rg \<and> (p' + k) mod rg < p mod rg + esz e) \<and>
        \<not> (p' + k) mod rg < p mod rg + esz e - rg"
      using assms(1-5) that by (intro ring_disjoint [of rg 1 "esz e" "p' + k"]) auto
    then show ?thesis by (intro store_ring_frame) auto
  qed
  ultimately show ?thesis
    using assms(6) esz_bounds(1) [of e'] by (simp add: ring_at_def)
qed

section \<open>The state the log is in\<close>

text \<open>
  \<open>flat_inv st es k\<close> relates a state to the list \<open>es\<close> of all entries appended since the start, of
  which the first \<open>k\<close> are ordered. Entry \<open>i\<close> has the position \<open>pos es i\<close>. Entries that the ring has
  not overwritten since are in memory with their flag set; on the primary the index map finds them,
  on a backup the request map holds positions of appended entries only (a key that was merely looked up
  has the value 0).
\<close>

definition pos :: "LogEntry list \<Rightarrow> nat \<Rightarrow> nat" where
  "pos es i = tsz (take i es)"

definition stored_ok :: "LogEntry \<Rightarrow> bool" where
  "stored_ok e \<longleftrightarrow> wf_entry e \<and> flags e = 1 \<and> esz e \<le> unat SAFE_RG_SIZE"

definition flat_geometry :: "DurabilityLogFlat \<Rightarrow> bool" where
  "flat_geometry st \<longleftrightarrow> unat SAFE_RG_SIZE \<le> unat (rg_size st) \<and> unat (rg_size st) + 12288 < 2 ^ 64 \<and>
     idx_map_elem_cnt st = rg_size st div MetaDataSize"

definition in_memory :: "DurabilityLogFlat \<Rightarrow> LogEntry list \<Rightarrow> bool" where
  "in_memory st es \<longleftrightarrow> (\<forall>i < length es. tsz es \<le> pos es i + unat (rg_size st) \<longrightarrow>
     ring_at (unat (rg_size st)) (mem_rg_raw st) (pos es i) (es ! i))"

definition indexed :: "DurabilityLogFlat \<Rightarrow> LogEntry list \<Rightarrow> bool" where
  "indexed st es \<longleftrightarrow> (\<forall>i < length es. length es \<le> i + unat (idx_map_elem_cnt st) \<longrightarrow>
     idx_to_seq st (of_nat i mod idx_map_elem_cnt st) = of_nat (pos es i))"

definition registered :: "DurabilityLogFlat \<Rightarrow> LogEntry list \<Rightarrow> bool" where
  "registered st es \<longleftrightarrow> (\<forall>rid s. reqid_to_seq_map st rid = Some s \<longrightarrow>
     s = 0 \<or> (\<exists>i < length es. reqid (es ! i) = rid \<and> s = of_nat (pos es i)))"

definition numbered :: "LogEntry list \<Rightarrow> bool" where
  "numbered es \<longleftrightarrow> (\<forall>i < length es. stored_ok (es ! i) \<and> log_idx (es ! i) = of_nat i)"

definition flat_inv :: "DurabilityLogFlat \<Rightarrow> LogEntry list \<Rightarrow> nat \<Rightarrow> bool" where
  "flat_inv st es k \<longleftrightarrow> flat_geometry st \<and> numbered es \<and> k \<le> length es \<and>
     unat (sequencer st) = tsz es \<and> unat (indexer st) = length es \<and>
     unat (ordered_watermk st) = pos es k \<and> unat (ordered_idx_watermk st) = k \<and>
     in_memory st es \<and> (is_primary st \<longrightarrow> indexed st es) \<and> (\<not> is_primary st \<longrightarrow> registered st es)"

lemma pos_simps [simp]: "pos es 0 = 0" "length es \<le> i \<Longrightarrow> pos es i = tsz es"
  by (simp_all add: pos_def)

lemma pos_Suc: "i < length es \<Longrightarrow> pos es (Suc i) = pos es i + esz (es ! i)"
  by (simp add: pos_def take_Suc_conv_app_nth)

lemma pos_append [simp]: "i \<le> length es \<Longrightarrow> pos (es @ fs) i = pos es i"
  by (simp add: pos_def)

lemma pos_mono: "i \<le> j \<Longrightarrow> pos es i \<le> pos es j"
proof -
  assume "i \<le> j"
  then have "take j es = take i es @ take (j - i) (drop i es)"
    by (metis le_add_diff_inverse take_add)
  then show ?thesis by (simp add: pos_def)
qed

lemma pos_less: "i < j \<Longrightarrow> j \<le> length es \<Longrightarrow> pos es i + esz (es ! i) \<le> pos es j"
  using pos_mono [of "Suc i" j es] by (simp add: pos_Suc)

lemma pos_le_tsz: "pos es i \<le> tsz es"
  using pos_mono [of i "max i (length es)" es] by simp

lemma control_addr_eq: "control_addr st = unat (rg_size st) + 8192"
  by (simp add: control_addr_def SAFE_RG_SIZE_def PAGE_SIZE_def)

lemma control_addr_upd [simp]:
  "control_addr (st\<lparr>mem_rg_raw := m\<rparr>) = control_addr st"
  "control_addr (st\<lparr>pending_entries := pend\<rparr>) = control_addr st"
  "control_addr (st\<lparr>reqid_to_seq_map := rm\<rparr>) = control_addr st"
  "control_addr (st\<lparr>idx_to_seq := ix\<rparr>) = control_addr st"
  by (simp_all add: control_addr_def)

definition append_state :: "DurabilityLogFlat \<Rightarrow> LogEntry \<Rightarrow> DurabilityLogFlat" where
  "append_state st e =
     (let seq = sequencer st; idx = indexer st;
          m = put_le (put_le (mem_rg_raw st) (control_addr st + 24) (idx + 1))
                (control_addr st) (seq + of_nat (esz e))
      in st\<lparr>mem_rg_raw := store_ring (unat (rg_size st)) m (unat (seq mod rg_size st)) e,
            idx_to_seq := (if is_primary st then (idx_to_seq st)(idx mod idx_map_elem_cnt st := seq) else idx_to_seq st),
            reqid_to_seq_map := (if is_primary st then reqid_to_seq_map st
              else (reqid_to_seq_map st)(reqid e \<mapsto> seq))\<rparr>)"

lemma unat_mod_rg: "flat_geometry st \<Longrightarrow> unat (w mod rg_size st) < unat (rg_size st)"
  by (simp add: flat_geometry_def SAFE_RG_SIZE_def PAGE_SIZE_def unat_mod_distrib)

lemma AppendEntry_reserve_eq:
  assumes "flat_geometry st"
  shows "AppendEntry_reserve st sz =
    (sequencer st, indexer st, sequencer st mod rg_size st,
      st\<lparr>mem_rg_raw := put_le (put_le (SetFlag (mem_rg_raw st) (unat (sequencer st mod rg_size st)) 0)
             (control_addr st + 24) (indexer st + 1)) (control_addr st) (sequencer st + sz),
         idx_to_seq := (if is_primary st
           then (idx_to_seq st)(indexer st mod idx_map_elem_cnt st := sequencer st) else idx_to_seq st)\<rparr>)"
proof -
  have "unat (sequencer st mod rg_size st) + 30 \<le> control_addr st"
    using unat_mod_rg [OF assms, of "sequencer st"] by (simp add: control_addr_eq)
  then show ?thesis
    by (simp add: AppendEntry_reserve_def Let_def set_indexer_def set_sequencer_def sequencer_def indexer_def
        SetFlag_def FlagPos_def control_addr_def)
qed

lemma AppendEntry_write_eq:
  assumes g: "flat_geometry st" and e: "wf_entry e" "esz e \<le> unat SAFE_RG_SIZE" and o: "unat ofs < unat (rg_size st)"
  shows "AppendEntry_rewind (AppendEntry_publish (snd (AppendEntry_serialize st e ofs)) ofs) ofs
      (fst (AppendEntry_serialize st e ofs)) =
    st\<lparr>mem_rg_raw := store_ring (unat (rg_size st)) (mem_rg_raw st) (unat ofs) (e\<lparr>flags := 1\<rparr>)\<rparr>"
proof -
  have sz: "snd (Serializer e (mem_rg_raw st) (unat ofs)) = of_nat (esz e)"
    using ew.put_size [OF e(1)] by (intro word_eq_of_nat)
  have small: "unat ofs + esz e < 2 ^ 64"
    using g o e(2) by (simp add: flat_geometry_def SAFE_RG_SIZE_def PAGE_SIZE_def)
  then have u: "unat (ofs + of_nat (esz e)) = unat ofs + esz e"
    by (rule unat_add_esz [OF e(1)])
  then have gt: "ofs + of_nat (esz e) > rg_size st \<longleftrightarrow> unat ofs + esz e > unat (rg_size st)"
    by (simp add: word_less_nat_alt)
  have df: "unat (ofs + of_nat (esz e) - rg_size st) = unat ofs + esz e - unat (rg_size st)"
    if "unat ofs + esz e > unat (rg_size st)"
    using that u by (subst unat_sub) (simp_all add: word_le_nat_alt)
  have esz: "esz (e\<lparr>flags := 1\<rparr>) = esz e" by (simp add: esz_def)
  show ?thesis
    by (simp add: AppendEntry_serialize_def case_prod_beta sz AppendEntry_publish_def SetFlag_Serializer [unfolded Serializer_mem]
        Serializer_mem AppendEntry_rewind_def gt df store_ring_def esz Let_def)
qed

lemma AppendEntry_eq:
  assumes g: "flat_geometry st" and e: "wf_entry e" "esz e \<le> unat SAFE_RG_SIZE"
    and nw: "\<not> waitForPlace_waits st (GetSize e)"
  shows "AppendEntry st e =
    Some (sequencer st, e\<lparr>log_idx := indexer st, view := dl_view st\<rparr>,
      append_state st (e\<lparr>log_idx := indexer st, view := dl_view st, flags := 1\<rparr>))"
proof -
  let ?o = "sequencer st mod rg_size st" and ?rg = "unat (rg_size st)"
  let ?e = "e\<lparr>log_idx := indexer st, view := dl_view st\<rparr>"
  have gs: "GetSize e = of_nat (esz e)"
    using GetSize_eq [OF e(1)] by (rule word_eq_of_nat)
  have e': "wf_entry ?e" "esz ?e \<le> unat SAFE_RG_SIZE" "esz ?e = esz e" "esz (?e\<lparr>flags := 1\<rparr>) = esz e"
    using e by (simp_all add: wf_entry_def esz_def)
  have o: "unat ?o < ?rg" by (rule unat_mod_rg [OF g])
  define st1 where "st1 = snd (snd (snd (AppendEntry_reserve st (of_nat (esz e)))))"
  have r: "AppendEntry_reserve st (of_nat (esz e)) = (sequencer st, indexer st, ?o, st1)"
    and g1: "flat_geometry st1" and rg1: "rg_size st1 = rg_size st" and v1: "dl_view st1 = dl_view st"
    using g by (auto simp: st1_def AppendEntry_reserve_eq [OF g] flat_geometry_def)
  have "store_ring ?rg (mem_rg_raw st1) (unat ?o) (?e\<lparr>flags := 1\<rparr>) =
      mem_rg_raw (append_state st (?e\<lparr>flags := 1\<rparr>))"
    unfolding append_state_def Let_def st1_def AppendEntry_reserve_eq [OF g] e'(4)
    using o by (simp, intro store_ring_cong) (auto simp: put_le_def SetFlag_def FlagPos_def write_bytes_def)
  then show ?thesis
    using nw AppendEntry_write_eq [OF g1 e'(1, 2), of ?o] o
    by (simp add: AppendEntry_def gs r case_prod_beta rg1 v1 Let_def AppendEntry_register_def)
      (simp add: append_state_def st1_def AppendEntry_reserve_eq [OF g] Let_def reqid_def)
qed

section \<open>Appending\<close>

lemma store_ring_control:
  assumes "ofs < rg" "esz e \<le> rg" "rg + esz e \<le> a"
  shows "(get_le (store_ring rg m ofs e) a :: 'a::len word) = get_le m a"
proof -
  have "store_ring rg m ofs e (a + i) = m (a + i)" for i
    using assms by (intro store_ring_frame) auto
  then show ?thesis
    unfolding get_le_def by (intro arg_cong [where f = le_word] bytes_at_cong) simp
qed

lemma append_state_controls:
  assumes "flat_geometry st" "esz e \<le> unat SAFE_RG_SIZE"
  shows "sequencer (append_state st e) = sequencer st + of_nat (esz e)"
    "indexer (append_state st e) = indexer st + 1"
    "ordered_watermk (append_state st e) = ordered_watermk st"
    "ordered_idx_watermk (append_state st e) = ordered_idx_watermk st"
proof -
  let ?o = "unat (sequencer st mod rg_size st)"
  have "esz e \<le> unat (rg_size st)" "unat (rg_size st) + esz e \<le> control_addr st"
    using assms by (simp_all add: flat_geometry_def control_addr_def)
  then have c: "(get_le (store_ring (unat (rg_size st)) m ?o e) (control_addr st + j) :: u64) =
      get_le m (control_addr st + j)" for j m
    using unat_mod_rg [OF assms(1), of "sequencer st"] by (intro store_ring_control) auto
  note defs = append_state_def Let_def sequencer_def indexer_def ordered_watermk_def ordered_idx_watermk_def
  have ca: "control_addr (append_state st e) = control_addr st"
    by (simp add: control_addr_def append_state_def Let_def)
  have m: "mem_rg_raw (append_state st e) = store_ring (unat (rg_size st))
      (put_le (put_le (mem_rg_raw st) (control_addr st + 24) (indexer st + 1)) (control_addr st)
         (sequencer st + of_nat (esz e))) ?o e"
    by (simp add: append_state_def Let_def)
  show "sequencer (append_state st e) = sequencer st + of_nat (esz e)"
    using c [of _ 0] by (simp add: sequencer_def [of "append_state st e"] ca m)
  show "indexer (append_state st e) = indexer st + 1"
    using c [of _ 24] by (simp add: indexer_def [of "append_state st e"] ca m)
  show "ordered_watermk (append_state st e) = ordered_watermk st"
    using c [of _ 8] by (simp add: ordered_watermk_def ca m)
  show "ordered_idx_watermk (append_state st e) = ordered_idx_watermk st"
    using c [of _ 16] by (simp add: ordered_idx_watermk_def ca m)
qed

lemma flat_geometry_append [simp]: "flat_geometry (append_state st e) = flat_geometry st"
  by (simp add: flat_geometry_def append_state_def Let_def)

lemma in_memory_append:
  assumes g: "flat_geometry st" and n: "numbered es" "stored_ok e"
    and s: "unat (sequencer st) = tsz es" and mem: "in_memory st es"
  shows "in_memory (append_state st e) (es @ [e])"
  unfolding in_memory_def
proof (intro allI impI)
  let ?rg = "unat (rg_size st)"
  let ?m = "put_le (put_le (mem_rg_raw st) (control_addr st + 24) (indexer st + 1)) (control_addr st)
         (sequencer st + of_nat (esz e))"
  fix i assume i: "i < length (es @ [e])"
    and w: "tsz (es @ [e]) \<le> pos (es @ [e]) i + unat (rg_size (append_state st e))"
  have rg: "0 < ?rg" "unat SAFE_RG_SIZE \<le> ?rg" "unat SAFE_RG_SIZE = 8192"
    using g by (auto simp: flat_geometry_def SAFE_RG_SIZE_def PAGE_SIZE_def)
  have fit: "esz e \<le> ?rg" using n(2) rg by (simp add: stored_ok_def)
  have ofs: "unat (sequencer st mod rg_size st) = tsz es mod ?rg"
    by (simp add: unat_mod_distrib s)
  have m': "mem_rg_raw (append_state st e) = store_ring ?rg ?m (tsz es mod ?rg) e"
    by (simp add: append_state_def Let_def ofs)
  have "ring_at ?rg (mem_rg_raw (append_state st e)) (pos (es @ [e]) i) ((es @ [e]) ! i)"
  proof (cases "i < length es")
    case True
    have ok: "esz (es ! i) \<le> unat SAFE_RG_SIZE" using n(1) True by (simp add: numbered_def stored_ok_def)
    have "ring_at ?rg (mem_rg_raw st) (pos es i) (es ! i)"
      using mem True w by (simp add: in_memory_def append_state_def Let_def)
    moreover have "?m x = mem_rg_raw st x" if "x < ?rg + esz (es ! i)" for x
      using that ok by (simp add: put_le_def control_addr_def)
    ultimately have "ring_at ?rg ?m (pos es i) (es ! i)"
      using ring_at_cong [OF rg(1)] by blast
    then have "ring_at ?rg (store_ring ?rg ?m (tsz es mod ?rg) e) (pos es i) (es ! i)"
      using True w ok rg fit pos_less [of i "length es" es]
      by (intro store_ring_keeps) (simp_all add: append_state_def Let_def)
    then show ?thesis using True by (simp add: m' nth_append)
  next
    case False
    then have "i = length es" using i by simp
    then show ?thesis using store_ring_at [OF fit rg(1), of ?m "tsz es"] by (simp add: m')
  qed
  then show "ring_at (unat (rg_size (append_state st e))) (mem_rg_raw (append_state st e))
      (pos (es @ [e]) i) ((es @ [e]) ! i)"
    by (simp add: append_state_def Let_def)
qed

lemma indexed_append:
  assumes p: "is_primary st" "0 < idx_map_elem_cnt st" and len: "length es < 2 ^ 64"
    and s: "sequencer st = of_nat (tsz es)" "indexer st = of_nat (length es)" and ix: "indexed st es"
  shows "indexed (append_state st e) (es @ [e])"
  unfolding indexed_def
proof (intro allI impI)
  let ?c = "idx_map_elem_cnt st"
  fix i assume i: "i < length (es @ [e])" and w: "length (es @ [e]) \<le> i + unat (idx_map_elem_cnt (append_state st e))"
  have a: "idx_to_seq (append_state st e) = (idx_to_seq st)(of_nat (length es) mod ?c := of_nat (tsz es))"
    "idx_map_elem_cnt (append_state st e) = ?c"
    using p(1) by (simp_all add: append_state_def Let_def s)
  have um: "unat (of_nat j mod ?c) = j mod unat ?c" if "j < 2 ^ 64" for j
    using that by (simp add: unat_mod_distrib unat_of_nat_small)
  show "idx_to_seq (append_state st e) (of_nat i mod idx_map_elem_cnt (append_state st e)) =
      of_nat (pos (es @ [e]) i)"
  proof (cases "i < length es")
    case True
    then have "i mod unat ?c \<noteq> length es mod unat ?c"
      using w a(2) by (intro mod_window) simp_all
    then have "(of_nat i mod ?c) \<noteq> of_nat (length es) mod ?c"
      using um [of i] um [of "length es"] len True by (metis order_less_trans)
    then show ?thesis
      using ix True w a by (simp add: indexed_def)
  next
    case False
    then have "i = length es" using i by simp
    then show ?thesis by (simp add: a)
  qed
qed

lemma registered_append:
  assumes "\<not> is_primary st" "sequencer st = of_nat (tsz es)" "registered st es"
  shows "registered (append_state st e) (es @ [e])"
  unfolding registered_def
proof (intro allI impI)
  fix rid s assume r: "reqid_to_seq_map (append_state st e) rid = Some s"
  show "s = 0 \<or> (\<exists>i<length (es @ [e]). reqid ((es @ [e]) ! i) = rid \<and> s = of_nat (pos (es @ [e]) i))"
  proof (cases "rid = reqid e")
    case True
    then have "s = of_nat (pos (es @ [e]) (length es))"
      using r assms(1, 2) by (simp add: append_state_def Let_def)
    then show ?thesis using True by (intro disjI2 exI [of _ "length es"]) simp
  next
    case False
    then have "reqid_to_seq_map st rid = Some s"
      using r assms(1) by (simp add: append_state_def Let_def)
    then have "s = 0 \<or> (\<exists>i<length es. reqid (es ! i) = rid \<and> s = of_nat (pos es i))"
      using assms(3) unfolding registered_def by blast
    then show ?thesis
    proof (elim disjE exE conjE)
      fix i assume "i < length es" "reqid (es ! i) = rid" "s = of_nat (pos es i)"
      then show ?thesis by (intro disjI2 exI [of _ i]) (simp add: nth_append)
    qed simp
  qed
qed

lemma append_state_inv:
  assumes inv: "flat_inv st es k" and e: "stored_ok e" "log_idx e = of_nat (length es)"
    and b: "tsz es + esz e < 2 ^ 64"
  shows "flat_inv (append_state st e) (es @ [e]) k"
proof -
  have g: "flat_geometry st" and s: "unat (sequencer st) = tsz es" "unat (indexer st) = length es"
    and n: "numbered es" and kl: "k \<le> length es"
    using inv by (auto simp: flat_inv_def)
  have wf: "wf_entry e" "esz e \<le> unat SAFE_RG_SIZE" using e(1) by (auto simp: stored_ok_def)
  note c = append_state_controls [OF g wf(2)]
  have seq: "unat (sequencer st + of_nat (esz e)) = tsz es + esz e"
    using s(1) b by (subst unat_add_esz [OF wf(1)]) simp_all
  have "length es + 1 < 2 ^ 64"
    using tsz_ge_length [of es] b esz_bounds(1) [of e] by linarith
  then have idx: "unat (indexer st + 1) = length es + 1"
    using s(2) by (subst unat_add_small) simp_all
  have "0 < idx_map_elem_cnt st"
    using g by (simp add: flat_geometry_def SAFE_RG_SIZE_def PAGE_SIZE_def MetaDataSize_def FlagPos_def
        word_less_nat_alt unat_div_distrib div_greater_zero_iff)
  then have "indexed (append_state st e) (es @ [e])" if "is_primary st"
    using that inv \<open>length es + 1 < 2 ^ 64\<close> word_eq_of_nat [OF s(1)] word_eq_of_nat [OF s(2)]
    by (intro indexed_append) (auto simp: flat_inv_def)
  moreover have "registered (append_state st e) (es @ [e])" if "\<not> is_primary st"
    using that inv word_eq_of_nat [OF s(1)] by (intro registered_append) (auto simp: flat_inv_def)
  moreover have "in_memory (append_state st e) (es @ [e])"
    using inv e(1) by (intro in_memory_append) (auto simp: flat_inv_def)
  moreover have "numbered (es @ [e])"
    using n e by (auto simp: numbered_def nth_append less_Suc_eq)
  moreover have "is_primary (append_state st e) = is_primary st"
    by (simp add: append_state_def Let_def)
  ultimately show ?thesis
    using inv kl seq idx by (simp add: flat_inv_def c)
qed

lemma pos_less_tsz: "i < length es \<Longrightarrow> pos es i < tsz es"
  using pos_less [of i "length es" es] esz_bounds(1) [of "es ! i"] by simp

lemma waits_iff:
  assumes "flat_inv st es k" "wf_entry e" "tsz es + esz e < 2 ^ 64" "262144 \<le> unat (rg_size st)"
  shows "waitForPlace_waits st (GetSize e) \<longleftrightarrow>
    wait st \<and> unat (rg_size st) - 262144 \<le> tsz es + esz e - pos es k"
proof -
  have gs: "GetSize e = of_nat (esz e)"
    using GetSize_eq [OF assms(2)] by (rule word_eq_of_nat)
  have s: "unat (sequencer st) = tsz es" "unat (ordered_watermk st) = pos es k"
    using assms(1) by (simp_all add: flat_inv_def)
  have u: "unat (sequencer st + of_nat (esz e)) = tsz es + esz e"
    using assms(2, 3) s by (subst unat_add_esz) simp_all
  have "ordered_watermk st \<le> sequencer st + of_nat (esz e)"
    using u s pos_le_tsz [of es k] by (simp add: word_le_nat_alt)
  then have "unat (sequencer st + of_nat (esz e) - ordered_watermk st) = tsz es + esz e - pos es k"
    using u s by (simp add: unat_sub)
  moreover have pg: "push_bit 6 PAGE_SIZE = 262144"
    by (simp add: PAGE_SIZE_def push_bit_eq_mult)
  then have "unat (rg_size st - push_bit 6 PAGE_SIZE) = unat (rg_size st) - 262144"
    using assms(4) by (simp add: unat_sub word_le_nat_alt)
  ultimately show ?thesis
    by (simp add: waitForPlace_waits_def gs word_le_nat_alt)
qed

lemma AppendEntry_ok:
  assumes inv: "flat_inv st es k" and e: "wf_entry e" "esz e \<le> unat SAFE_RG_SIZE"
    and b: "tsz es + esz e < 2 ^ 64" and nw: "\<not> waitForPlace_waits st (GetSize e)"
  defines "e' \<equiv> e\<lparr>log_idx := of_nat (length es), view := dl_view st\<rparr>"
  shows "AppendEntry st e = Some (of_nat (tsz es), e', append_state st (e'\<lparr>flags := 1\<rparr>))"
    and "flat_inv (append_state st (e'\<lparr>flags := 1\<rparr>)) (es @ [e'\<lparr>flags := 1\<rparr>]) k"
proof -
  have g: "flat_geometry st" and s: "unat (sequencer st) = tsz es" "unat (indexer st) = length es"
    using inv by (auto simp: flat_inv_def)
  show "AppendEntry st e = Some (of_nat (tsz es), e', append_state st (e'\<lparr>flags := 1\<rparr>))"
    using AppendEntry_eq [OF g e nw] word_eq_of_nat [OF s(1)] word_eq_of_nat [OF s(2)] by (simp add: e'_def)
  have "stored_ok (e'\<lparr>flags := 1\<rparr>)" "esz (e'\<lparr>flags := 1\<rparr>) = esz e"
    using e by (simp_all add: e'_def stored_ok_def wf_entry_def esz_def)
  then show "flat_inv (append_state st (e'\<lparr>flags := 1\<rparr>)) (es @ [e'\<lparr>flags := 1\<rparr>]) k"
    using inv b by (intro append_state_inv) (simp_all add: e'_def)
qed


section \<open>Reading\<close>

lemma entry_in_memory:
  assumes "numbered es" "in_memory st es" "i < length es" "tsz es \<le> pos es i + unat (rg_size st)"
    and "unat s = pos es i"
  shows "entry_at (mem_rg_raw st) (unat (s mod rg_size st)) (es ! i)"
    and "Deserializer d (mem_rg_raw st) (unat (s mod rg_size st)) = (es ! i, of_nat (esz (es ! i)))"
proof -
  have ofs: "unat (s mod rg_size st) = pos es i mod unat (rg_size st)"
    by (simp add: unat_mod_distrib assms(5))
  show at: "entry_at (mem_rg_raw st) (unat (s mod rg_size st)) (es ! i)"
    using assms(2-4) by (simp add: in_memory_def ring_at_def ofs)
  have "stored_ok (es ! i)"
    using assms(1, 3) by (simp add: numbered_def)
  then show "Deserializer d (mem_rg_raw st) (unat (s mod rg_size st)) = (es ! i, of_nat (esz (es ! i)))"
    using at by (intro Deserializer_entry) (simp_all add: stored_ok_def)
qed

lemma unat_next_pos:
  fixes s :: u64
  assumes "numbered es" "tsz es < 2 ^ 64" "i < length es" "unat s = pos es i"
  shows "unat (s + of_nat (esz (es ! i))) = pos es (Suc i)"
proof -
  have "wf_entry (es ! i)"
    using assms(1, 3) by (simp add: numbered_def stored_ok_def)
  moreover have "pos es i + esz (es ! i) \<le> tsz es"
    using pos_less [of i "length es" es] assms(3) by simp
  then have "unat s + esz (es ! i) < 2 ^ 64"
    using assms(2, 4) by simp
  ultimately show ?thesis
    using assms(3, 4) by (subst unat_add_esz) (simp_all add: pos_Suc)
qed

lemma tsz_less: "unat (sequencer st) = tsz es \<Longrightarrow> tsz es < 2 ^ 64"
  using unsigned_less [of "sequencer st", where ?'a = nat] by simp

lemma flat_invD:
  assumes "flat_inv st es k"
  shows "flat_geometry st" "numbered es" "k \<le> length es" "in_memory st es"
    "unat (sequencer st) = tsz es" "unat (indexer st) = length es"
    "unat (ordered_watermk st) = pos es k" "unat (ordered_idx_watermk st) = k" "tsz es < 2 ^ 64"
  using assms tsz_less by (auto simp: flat_inv_def)

lemma FetchUnorderedEntries_loop_spec:
  assumes inv: "flat_inv st es k" and w: "tsz es \<le> pos es i + unat (rg_size st)" and i: "i \<le> length es"
    and s: "unat s = pos es i" and n: "unat n < max 1 (unat mx)"
  shows "FetchUnorderedEntries_loop st s n mx acc =
    (let fs = take (max 1 (unat mx) - unat n) (drop i es) in Some (acc @ fs, n + of_nat (length fs)))"
  using w i s n
proof (induction "length es - i" arbitrary: i s n acc)
  case 0
  then have "i = length es" by simp
  moreover have "\<not> s < sequencer st"
    using 0 inv by (simp add: flat_inv_def word_less_nat_alt)
  ultimately show ?case
    by (subst FetchUnorderedEntries_loop.simps) simp
next
  case (Suc l)
  then have i: "i < length es" by simp
  have lt: "s < sequencer st"
    using pos_less_tsz [OF i] Suc.prems(3) inv by (simp add: flat_inv_def word_less_nat_alt)
  note d = entry_in_memory(2) [OF flat_invD(2, 4) [OF inv] i Suc.prems(1, 3), of LogEntry_new]
  have mx: "unat mx < 2 ^ 32"
    using unsigned_less [of mx, where ?'a = nat] by simp
  have n1: "unat (n + 1) = unat n + 1"
    using Suc.prems(4) mx by (subst unat_add_small) (auto simp: max_def split: if_splits)
  have dr: "drop i es = es ! i # drop (Suc i) es"
    using i by (simp add: Cons_nth_drop_Suc)
  show ?case
  proof (cases "mx \<le> n + 1")
    case True
    then have "max 1 (unat mx) - unat n = 1"
      using Suc.prems(4) n1 by (auto simp: word_le_nat_alt max_def split: if_splits)
    then show ?thesis
      using lt d True by (subst FetchUnorderedEntries_loop.simps) (simp add: Let_def dr)
  next
    case False
    then have n': "unat (n + 1) < max 1 (unat mx)"
      by (auto simp: word_le_nat_alt)
    have "pos es i \<le> pos es (Suc i)" by (rule pos_mono) simp
    then have "FetchUnorderedEntries_loop st (s + of_nat (esz (es ! i))) (n + 1) mx (acc @ [es ! i]) =
      (let fs = take (max 1 (unat mx) - unat (n + 1)) (drop (Suc i) es)
       in Some ((acc @ [es ! i]) @ fs, n + 1 + of_nat (length fs)))"
      using Suc.hyps(2) Suc.prems(1) unat_next_pos [OF flat_invD(2, 9) [OF inv] i Suc.prems(3)] i n'
      by (intro Suc.hyps(1)) simp_all
    moreover have "max 1 (unat mx) - unat n = Suc (max 1 (unat mx) - unat (n + 1))"
      using n' n1 by simp
    ultimately show ?thesis
      using lt d False by (subst FetchUnorderedEntries_loop.simps) (simp add: Let_def dr add.assoc)
  qed
qed

text \<open>\<^verbatim>\<open>FetchUnorderedEntries\<close> on a backup returns the unordered entries in the order they were
  appended, up to the requested number (and one even if none was requested), and how many they are. It
  always ends. On the primary it returns nothing, since there the entries are read remotely.\<close>

theorem FetchUnorderedEntries_unordered:
  assumes "flat_inv st es k" "tsz es - pos es k \<le> unat (rg_size st)"
  shows "FetchUnorderedEntries st acc mx =
    (if is_primary st then Some (acc, 0)
     else let fs = take (max 1 (unat mx)) (drop k es) in Some (acc @ fs, of_nat (length fs)))"
  using assms FetchUnorderedEntries_loop_spec [OF assms(1), of k "ordered_watermk st" 0 mx acc]
  by (simp add: FetchUnorderedEntries_def flat_inv_def)

lemma push_bit_PAGE_SIZE: "push_bit 6 PAGE_SIZE = 262144"
  by (simp add: PAGE_SIZE_def push_bit_eq_mult)

text \<open>The three tests of \<^verbatim>\<open>SpecReadEntry\<close>: an index that the map no longer holds, one that is not yet assigned, and
  an entry that is about to be overwritten.\<close>

lemma SpecReadEntry_guards:
  assumes inv: "flat_inv st es k" and many: "unat (idx_map_elem_cnt st) \<le> length es + 64"
  shows "idx \<le> indexer st - idx_map_elem_cnt st + 64 \<longleftrightarrow> unat idx + unat (idx_map_elem_cnt st) \<le> length es + 64"
    "idx \<ge> indexer st \<longleftrightarrow> length es \<le> unat idx"
proof -
  have s: "unat (sequencer st) = tsz es" "unat (indexer st) = length es" using inv by (simp_all add: flat_inv_def)
  have len: "32 * length es < 2 ^ 64"
    using tsz_ge_length [of es] s(1) unsigned_less [of "sequencer st", where ?'a = nat] by simp
  have lo: "indexer st - idx_map_elem_cnt st + 64 = of_nat (length es + 64 - unat (idx_map_elem_cnt st))"
    using many s(2) by (simp add: of_nat_diff word_eq_of_nat)
  have "unat (indexer st - idx_map_elem_cnt st + 64) = length es + 64 - unat (idx_map_elem_cnt st)"
    unfolding lo by (rule unat_of_nat_small) (use len in simp)
  then show "idx \<le> indexer st - idx_map_elem_cnt st + 64 \<longleftrightarrow> unat idx + unat (idx_map_elem_cnt st) \<le> length es + 64"
    unfolding word_le_nat_alt using many by linarith
  show "idx \<ge> indexer st \<longleftrightarrow> length es \<le> unat idx" by (simp add: word_le_nat_alt s)
qed

lemma idx_to_seq_pos:
  assumes inv: "flat_inv st es k" "is_primary st" and i: "unat idx < length es" "length es \<le> unat idx + unat (idx_map_elem_cnt st)"
  shows "unat (idx_to_seq st (idx mod idx_map_elem_cnt st)) = pos es (unat idx)"
proof -
  have s: "unat (sequencer st) = tsz es" "indexed st es" using inv by (simp_all add: flat_inv_def)
  have "idx_to_seq st (idx mod idx_map_elem_cnt st) = of_nat (pos es (unat idx))"
    using s(2) i unfolding indexed_def by (auto dest: spec [of _ "unat idx"])
  then show ?thesis
    using pos_le_tsz [of es "unat idx"] s(1) unsigned_less [of "sequencer st", where ?'a = nat] by (simp add: unat_of_nat_small)
qed

lemma SpecReadEntry_old:
  assumes s: "unat (sequencer st) = tsz es" and seq: "unat seq = p" and rg: "262144 \<le> unat (rg_size st)"
  shows "sequencer st > rg_size st \<and> seq \<le> sequencer st - rg_size st + push_bit 6 PAGE_SIZE \<longleftrightarrow>
    unat (rg_size st) < tsz es \<and> p + unat (rg_size st) \<le> tsz es + 262144"
proof (cases "unat (rg_size st) < tsz es")
  case True
  then have "unat (sequencer st - rg_size st) = tsz es - unat (rg_size st)"
    using s by (subst unat_sub) (simp_all add: word_le_nat_alt)
  then have "unat (sequencer st - rg_size st + 262144) = tsz es - unat (rg_size st) + 262144"
    using rg s unsigned_less [of "sequencer st", where ?'a = nat] by (subst unat_add_small) simp_all
  then show ?thesis using True s seq by (auto simp: push_bit_PAGE_SIZE word_less_nat_alt word_le_nat_alt)
qed (simp add: word_less_nat_alt s)


text \<open>C34. Before the index map has filled up, \<^verbatim>\<open>SpecReadEntry\<close> serves nothing: the lower bound
  \<^verbatim>\<open>indexer - idx_map_elem_cnt_ + 64\<close> is computed in unsigned arithmetic and wraps around to a huge
  number, so every index that has been assigned is answered with -1.\<close>

theorem SpecReadEntry_before_full:
  assumes "flat_inv st es k" "length es + 64 < unat (idx_map_elem_cnt st)" "unat idx < length es"
  shows "SpecReadEntry st idx d = (- 1, d)"
proof -
  let ?c = "idx_map_elem_cnt st"
  have "unat ?c < 2 ^ 64"
    using unsigned_less [of ?c, where ?'a = nat] by simp
  then have "unat (indexer st + 64) = length es + 64"
    using assms(1, 2) by (subst unat_add_small) (simp_all add: flat_inv_def)
  then have u: "uint (indexer st + 64) = int (length es + 64)"
    by (simp only: uint_nat)
  have c: "int (length es + 64) < uint ?c" "uint idx < int (length es)"
    using assms(2, 3) by (simp_all only: uint_nat of_nat_less_iff)
  have "uint ?c < 2 ^ 64"
    using uint_lt2p [of ?c] by simp
  have "uint (indexer st + 64 - ?c) = int (length es + 64) - uint ?c + 2 ^ 64"
    using c(1) by (simp add: uint_sub_if' u)
  then have "uint idx \<le> uint (indexer st + 64 - ?c)"
    using c \<open>uint ?c < 2 ^ 64\<close> by linarith
  moreover have "indexer st - ?c + 64 = indexer st + 64 - ?c" by simp
  ultimately have "uint idx \<le> uint (indexer st - ?c + 64)" by (simp only:)
  then show ?thesis
    by (simp add: SpecReadEntry_def word_le_def)
qed

section \<open>Garbage collection on a backup\<close>

definition gc_upto :: "LogEntry list \<Rightarrow> nat \<Rightarrow> nat \<Rightarrow> nat" where
  "gc_upto es k ms = k + length (takeWhile (\<lambda>i. pos es i \<le> ms) [k..<length es])"

lemma gc_upto_step:
  "i < length es \<Longrightarrow> pos es i \<le> ms \<Longrightarrow> gc_upto es i ms = gc_upto es (Suc i) ms"
  "\<not> (i < length es \<and> pos es i \<le> ms) \<Longrightarrow> gc_upto es i ms = i"
  by (auto simp: gc_upto_def upt_rec [of i])

lemma gc_upto_le: "k \<le> length es \<Longrightarrow> gc_upto es k ms \<le> length es"
  using length_takeWhile_le [of "\<lambda>i. pos es i \<le> ms" "[k..<length es]"] by (simp add: gc_upto_def)

lemma gc_upto_ge: "k \<le> gc_upto es k ms"
  by (simp add: gc_upto_def)

lemma gc_upto_iff:
  assumes "k \<le> i" "i < length es"
  shows "i < gc_upto es k ms \<longleftrightarrow> pos es i \<le> ms"
  using assms
proof (induction "length es - k" arbitrary: k)
  case (Suc n)
  show ?case
  proof (cases "pos es k \<le> ms")
    case True
    then have "gc_upto es k ms = gc_upto es (Suc k) ms"
      using Suc.prems by (intro gc_upto_step) auto
    moreover have "i < gc_upto es (Suc k) ms \<longleftrightarrow> pos es i \<le> ms" if "Suc k \<le> i"
      using Suc.hyps(2) Suc.prems that by (intro Suc.hyps(1)) auto
    ultimately show ?thesis
      using True Suc.prems gc_upto_ge [of "Suc k" es ms] by (cases "i = k") auto
  next
    case False
    then show ?thesis
      using Suc.prems pos_mono [of k i es] by (simp add: gc_upto_step)
  qed
qed simp

lemma in_memory_control:
  assumes "flat_geometry st" "numbered es" "in_memory st es" "control_addr st \<le> a"
    and "rg_size st' = rg_size st" "mem_rg_raw st' = put_le (mem_rg_raw st) a (v :: u64)"
  shows "in_memory st' es"
  unfolding in_memory_def
proof (intro allI impI)
  fix i assume i: "i < length es" "tsz es \<le> pos es i + unat (rg_size st')"
  then have "ring_at (unat (rg_size st)) (mem_rg_raw st) (pos es i) (es ! i)"
    using assms(3, 5) by (simp add: in_memory_def)
  moreover have "esz (es ! i) \<le> unat SAFE_RG_SIZE"
    using assms(2) i(1) by (simp add: numbered_def stored_ok_def)
  then have "mem_rg_raw st' x = mem_rg_raw st x" if "x < unat (rg_size st) + esz (es ! i)" for x
    using that assms(4) by (simp add: assms(6) put_le_def control_addr_def)
  moreover have "0 < unat (rg_size st)"
    using assms(1) by (auto simp: flat_geometry_def SAFE_RG_SIZE_def PAGE_SIZE_def)
  ultimately show "ring_at (unat (rg_size st')) (mem_rg_raw st') (pos es i) (es ! i)"
    using ring_at_cong assms(5) by metis
qed

lemma delEntriesBackup_flat_pending_eq:
  assumes "\<And>c. f c = lookup0 cm c"
  shows "fst (delEntriesBackup_flat_pending es cm n) = filter (\<lambda>e. \<not> client_seq e \<le> f (client_id e)) es \<and>
    lookup0 (fst (snd (delEntriesBackup_flat_pending es cm n))) = lookup0 cm \<and>
    snd (snd (delEntriesBackup_flat_pending es cm n)) =
      n + of_nat (length (filter (\<lambda>e. client_seq e \<le> f (client_id e)) es))"
  using assms
  by (induction es arbitrary: cm n) (auto simp: case_prod_beta Let_def add.assoc)

text \<open>One step of the loop, and its end.\<close>

lemma delEntriesBackup_flat_loop_stop:
  assumes "ordered_idx_watermk st = of_nat i" "unat s = pos es i" "unat ms < pos es i"
  shows "delEntriesBackup_flat_loop s ms cm n st = Some (of_nat (pos es i), n, set_ordered_idx_watermk (of_nat i) st)"
proof -
  have "\<not> s \<le> ms" using assms(2, 3) by (simp add: word_le_nat_alt)
  moreover have "set_ordered_idx_watermk (of_nat i) st = st"
    using assms(1) [symmetric] by (simp add: set_ordered_idx_watermk_def ordered_idx_watermk_def)
  moreover have "s = of_nat (pos es i)" using assms(2) by (rule word_eq_of_nat)
  ultimately show ?thesis by (subst delEntriesBackup_flat_loop.simps) simp
qed

lemma delEntriesBackup_flat_loop_step:
  fixes st :: DurabilityLogFlat and es :: "LogEntry list" and i :: nat and f :: "u64 \<Rightarrow> u64"
  defines "e \<equiv> es ! i"
  defines "st1 \<equiv> set_ordered_idx_watermk (of_nat (Suc i))
      (st\<lparr>pending_entries := (if client_seq e \<le> f (client_id e) then pending_entries st else pending_entries st @ [e]),
          reqid_to_seq_map := (reqid_to_seq_map st)(reqid e := None)\<rparr>)"
  assumes st: "flat_geometry st" "numbered es" "in_memory st es" "unat (sequencer st) = tsz es"
    and i: "i < length es" "unat s = pos es i" "tsz es \<le> pos es i + unat (rg_size st)" "pos es i \<le> unat ms"
    and cm: "\<And>c. lookup0 cm c = f c"
  shows "delEntriesBackup_flat_loop s ms cm n st =
      delEntriesBackup_flat_loop (s + of_nat (esz e)) ms (snd (op_index cm (client_id e)))
        (if client_seq e \<le> f (client_id e) then n + 1 else n) st1"
    "flat_geometry st1" "in_memory st1 es" "unat (sequencer st1) = tsz es"
    "ordered_idx_watermk st1 = of_nat (Suc i)" "rg_size st1 = rg_size st"
    "unat (s + of_nat (esz e)) = pos es (Suc i)"
proof -
  note at = entry_in_memory [OF st(2, 3) i(1, 3, 2), folded e_def]
  have ok: "stored_ok e" "log_idx e = of_nat i" using st(2) i(1) by (simp_all add: numbered_def e_def)
  have sz: "GetSizeFromBuf (mem_rg_raw st) (unat (s mod rg_size st)) = of_nat (esz e)"
    using GetSizeFromBuf_eq [OF at(1)] ok(1) by (auto simp: stored_ok_def intro: word_eq_of_nat)
  have "s \<le> ms" using i(2, 4) by (simp add: word_le_nat_alt)
  then show "delEntriesBackup_flat_loop s ms cm n st =
      delEntriesBackup_flat_loop (s + of_nat (esz e)) ms (snd (op_index cm (client_id e)))
        (if client_seq e \<le> f (client_id e) then n + 1 else n) st1"
    using cm ok at(2) [of LogEntry_new]
    by (subst delEntriesBackup_flat_loop.simps)
      (simp add: Let_def case_prod_beta fields_at [OF at(1)] sz stored_ok_def st1_def
        reqid_def not_less [symmetric] add.commute del: not_less)
  show "flat_geometry st1" "in_memory st1 es" "unat (sequencer st1) = tsz es"
    "ordered_idx_watermk st1 = of_nat (Suc i)" "rg_size st1 = rg_size st"
    using st in_memory_control [OF st(1-3), of "control_addr st + 16" st1 "of_nat (Suc i)"]
    by (simp_all add: st1_def set_ordered_idx_watermk_def flat_geometry_def sequencer_def
        ordered_idx_watermk_def control_addr_def)
  show "unat (s + of_nat (esz e)) = pos es (Suc i)"
    unfolding e_def by (rule unat_next_pos [OF st(2) tsz_less [OF st(4)] i(1, 2)])
qed

lemma delEntriesBackup_flat_loop_spec:
  assumes "flat_geometry st" "numbered es" "in_memory st es" "unat (sequencer st) = tsz es"
    and "ordered_idx_watermk st = of_nat i" "i \<le> length es" "unat s = pos es i"
    and "tsz es \<le> pos es i + unat (rg_size st)" "unat ms < tsz es" "\<And>c. lookup0 cm c = f c"
  defines "j \<equiv> gc_upto es i (unat ms)"
  defines "fs \<equiv> drop i (take j es)"
  shows "delEntriesBackup_flat_loop s ms cm n st =
    Some (of_nat (pos es j), n + of_nat (length (filter (\<lambda>e. client_seq e \<le> f (client_id e)) fs)),
      set_ordered_idx_watermk (of_nat j)
        (st\<lparr>pending_entries := pending_entries st @ filter (\<lambda>e. \<not> client_seq e \<le> f (client_id e)) fs,
            reqid_to_seq_map := reqid_to_seq_map st |` (- reqid ` set fs)\<rparr>))"
  using assms(1-10) unfolding j_def fs_def
proof (induction "length es - i" arbitrary: i s n st cm)
  case 0
  then have "gc_upto es i (unat ms) = i" by (simp add: gc_upto_step)
  moreover have "delEntriesBackup_flat_loop s ms cm n st = Some (of_nat (pos es i), n, set_ordered_idx_watermk (of_nat i) st)"
    by (rule delEntriesBackup_flat_loop_stop) (use 0 in simp_all)
  ultimately show ?case by simp
next
  case (Suc l)
  then have i: "i < length es" by simp
  show ?case
  proof (cases "pos es i \<le> unat ms")
    case False
    then have "gc_upto es i (unat ms) = i" by (simp add: gc_upto_step)
    then show ?thesis using False Suc.prems(5, 7) by (simp add: delEntriesBackup_flat_loop_stop)
  next
    case True
    let ?e = "es ! i" and ?j = "gc_upto es (Suc i) (unat ms)"
    note step = delEntriesBackup_flat_loop_step [OF Suc.prems(1-4) i Suc.prems(7, 8) True Suc.prems(10)]
    define st1 where "st1 = set_ordered_idx_watermk (of_nat (Suc i))
      (st\<lparr>pending_entries := (if client_seq ?e \<le> f (client_id ?e) then pending_entries st else pending_entries st @ [?e]),
          reqid_to_seq_map := (reqid_to_seq_map st)(reqid ?e := None)\<rparr>)"
    note st1 = step(2-6) [folded st1_def]
    have w: "tsz es \<le> pos es (Suc i) + unat (rg_size st1)"
      using Suc.prems(8) st1(5) pos_mono [of i "Suc i" es] by simp
    have j: "gc_upto es i (unat ms) = ?j" using True i by (intro gc_upto_step)
    have "Suc i \<le> ?j" by (rule gc_upto_ge)
    then have fs: "drop i (take ?j es) = ?e # drop (Suc i) (take ?j es)"
      using i by (simp add: Cons_nth_drop_Suc [symmetric])
    have rm: "((reqid_to_seq_map st)(reqid ?e := None)) |` (- reqid ` set gs) =
        reqid_to_seq_map st |` (- reqid ` set (?e # gs))" for gs
      by (simp add: restrict_upd_None del: restrict_fun_upd) (rule arg_cong [where f = "restrict_map _"], auto)
    note IH = Suc.hyps(1) [OF _ st1(1) Suc.prems(2) st1(2, 3, 4) _ step(7) w Suc.prems(9), of "snd (op_index cm (client_id ?e))"]
    show ?thesis
      unfolding step(1) [folded st1_def] j fs using IH Suc.hyps(2) i Suc.prems(10)
      by (simp add: st1_def set_ordered_idx_watermk_def control_addr_def rm del: restrict_fun_upd list.set)
  qed
qed

lemma registered_max_seq:
  assumes "registered st es" "tsz es < 2 ^ 64" "es \<noteq> []"
  shows "unat (max_seq_of (reqid_to_seq_map st) ids) < tsz es"
proof -
  let ?ms = "max_seq_of (reqid_to_seq_map st) ids"
  have "?ms = 0 \<or> (\<exists>i < length es. ?ms = of_nat (pos es i))"
    using max_seq_of_in [of "reqid_to_seq_map st" ids] assms(1) unfolding registered_def by blast
  then show ?thesis
  proof
    assume "?ms = 0"
    then show ?thesis using assms(3) pos_less_tsz [of 0 es] by simp
  next
    assume "\<exists>i < length es. ?ms = of_nat (pos es i)"
    then obtain i where i: "i < length es" "?ms = of_nat (pos es i)" by blast
    then show ?thesis
      using pos_less_tsz [OF i(1)] assms(2) by (simp add: unat_of_nat_small)
  qed
qed

lemma registered_gc:
  assumes "registered st es" "reqid_to_seq_map st' = touch (reqid_to_seq_map st) ids |` A"
  shows "registered st' es"
  using assms by (auto simp: registered_def touch_def restrict_map_def split: if_splits)

lemma flat_inv_gc:
  assumes inv: "flat_inv st es k" and j: "j \<le> length es" and np: "\<not> is_primary st"
    and st': "st' = set_ordered_watermk (of_nat (pos es j)) (set_ordered_idx_watermk (of_nat j)
      (st\<lparr>pending_entries := pend, reqid_to_seq_map := touch (reqid_to_seq_map st) ids |` A\<rparr>))"
  shows "flat_inv st' es j"
proof -
  note I = flat_invD [OF inv]
  define st1 where "st1 = set_ordered_idx_watermk (of_nat j)
      (st\<lparr>pending_entries := pend, reqid_to_seq_map := touch (reqid_to_seq_map st) ids |` A\<rparr>)"
  have st1: "st' = set_ordered_watermk (of_nat (pos es j)) st1" by (simp add: st' st1_def)
  have "flat_geometry st1" "in_memory st1 es"
    using I(1) in_memory_control [OF I(1, 2, 4), of "control_addr st + 16" st1 "of_nat j"]
    by (simp_all add: st1_def set_ordered_idx_watermk_def flat_geometry_def)
  then have "in_memory st' es"
    using in_memory_control [OF _ I(2), of st1 "control_addr st1 + 8" st' "of_nat (pos es j)"]
    by (simp add: st1 set_ordered_watermk_def)
  moreover have "32 * length es < 2 ^ 64"
    using tsz_ge_length [of es] I(9) by linarith
  then have "unat (of_nat j :: u64) = j"
    using j by (intro unat_of_nat_small) simp
  moreover have "unat (of_nat (pos es j) :: u64) = pos es j"
    using I(9) pos_le_tsz [of es j] by (intro unat_of_nat_small) simp
  moreover have "registered st es"
    using inv np by (simp add: flat_inv_def)
  then have "registered st' es"
    by (rule registered_gc) (simp add: st' set_ordered_watermk_def set_ordered_idx_watermk_def)
  moreover have "\<not> is_primary st'" "flat_geometry st'"
    using np I(1) by (simp_all add: st' set_ordered_watermk_def set_ordered_idx_watermk_def flat_geometry_def)
  moreover have "sequencer st' = sequencer st" "indexer st' = indexer st"
    "ordered_watermk st' = of_nat (pos es j)" "ordered_idx_watermk st' = of_nat j"
    by (simp_all add: st' sequencer_def indexer_def ordered_watermk_def ordered_idx_watermk_def
        set_ordered_watermk_def set_ordered_idx_watermk_def control_addr_def)
  ultimately show ?thesis
    using I j by (simp add: flat_inv_def)
qed

text \<open>A backup deletes, for one list of request ids, the acknowledged entries up to position \<open>gc_upto\<close>.\<close>

lemma delEntriesBackup_ok:
  fixes st es k ids
  defines "j \<equiv> gc_upto es k (unat (max_seq_of (reqid_to_seq_map st) ids))"
  defines "fs \<equiv> pending_entries st @ drop k (take j es)"
  assumes inv: "flat_inv st es k" "\<not> is_primary st" "es \<noteq> []" "tsz es - pos es k \<le> unat (rg_size st)"
  shows "\<exists>st'. delEntriesBackup st ids = Some (of_nat (length (filter (acked ids) fs)), st') \<and>
    flat_inv st' es j \<and> k \<le> j \<and> pending_entries st' = filter (\<lambda>e. \<not> acked ids e) fs \<and>
    is_primary st' = is_primary st \<and> rg_size st' = rg_size st \<and> wait st' = wait st"
proof -
  note I = flat_invD [OF inv(1)]
  let ?ms = "max_seq_of (reqid_to_seq_map st) ids" and ?cm = "map_updates Map.empty ids"
  let ?pl = "delEntriesBackup_flat_pending (pending_entries st) ?cm 0"
  let ?f = "lookup0 ?cm"
  have "registered st es" using inv(1, 2) by (simp add: flat_inv_def)
  note ms = registered_max_seq [OF this I(9) inv(3), of ids]
  have pl: "fst ?pl = filter (\<lambda>e. \<not> acked ids e) (pending_entries st)" "lookup0 (fst (snd ?pl)) = lookup0 ?cm"
    "snd (snd ?pl) = of_nat (length (filter (acked ids) (pending_entries st)))"
    using delEntriesBackup_flat_pending_eq [of "lookup0 ?cm" ?cm "pending_entries st" 0]
    by (simp_all add: acked_def [abs_def])
  define st0 where "st0 = st\<lparr>reqid_to_seq_map := touch (reqid_to_seq_map st) ids, pending_entries := fst ?pl\<rparr>"
  have st0: "flat_geometry st0" "in_memory st0 es" "unat (sequencer st0) = tsz es"
    "ordered_idx_watermk st0 = of_nat k" "rg_size st0 = rg_size st" "ordered_watermk st0 = ordered_watermk st"
    using I word_eq_of_nat [OF I(8)]
    by (simp_all add: st0_def flat_geometry_def in_memory_def sequencer_def ordered_idx_watermk_def
        ordered_watermk_def control_addr_def)
  have w: "tsz es \<le> pos es k + unat (rg_size st0)"
    using inv(4) st0(5) by simp
  note loop = delEntriesBackup_flat_loop_spec [OF st0(1) I(2) st0(2, 3, 4) I(3, 7) w ms,
      of "fst (snd ?pl)" "lookup0 ?cm" "snd (snd ?pl)", folded j_def]
  define st' where "st' = set_ordered_watermk (of_nat (pos es j)) (set_ordered_idx_watermk (of_nat j)
      (st\<lparr>pending_entries := filter (\<lambda>e. \<not> acked ids e) fs,
          reqid_to_seq_map := touch (reqid_to_seq_map st) ids |` (- reqid ` set (drop k (take j es)))\<rparr>))"
  have "delEntriesBackup st ids =
      (case delEntriesBackup_flat_loop (ordered_watermk st0) ?ms (fst (snd ?pl)) (snd (snd ?pl)) st0 of
         None \<Rightarrow> None | Some (s, n_del, st) \<Rightarrow> Some (n_del, set_ordered_watermk s st))"
    by (simp add: delEntriesBackup_def delEntriesBackup_max_spec case_prod_beta Let_def st0_def)
  also have "\<dots> = Some (of_nat (length (filter (acked ids) fs)), st')"
    unfolding st0(6)
    by (subst loop) (simp_all add: pl fs_def st'_def, simp add: st0_def pl acked_def [abs_def])
  finally have "delEntriesBackup st ids = Some (of_nat (length (filter (acked ids) fs)), st')" .
  moreover have "flat_inv st' es j"
    using gc_upto_le [OF I(3), of "unat ?ms"] by (intro flat_inv_gc [OF inv(1) _ inv(2) st'_def]) (simp add: j_def)
  moreover have "pending_entries st' = filter (\<lambda>e. \<not> acked ids e) fs" "is_primary st' = is_primary st" "rg_size st' = rg_size st"
    "wait st' = wait st"
    by (simp_all add: st'_def set_ordered_watermk_def set_ordered_idx_watermk_def)
  ultimately show ?thesis
    using gc_upto_ge [of k es "unat ?ms"] by (auto simp: j_def)
qed

text \<open>C20. Garbage collection on a backup. With \<open>ms\<close> the largest position registered for one of the given
  request ids, \<^verbatim>\<open>delEntriesBackup\<close> ends and moves the watermarks past exactly the unordered entries up to
  position \<open>ms\<close>. Of these entries and the pending ones, those whose sequence number is at most the one given for their
  client (0 for a client that is not named) are deleted and counted, and all others are kept, in order, as
  pending entries. The entries that stay in the ring are untouched.\<close>

theorem delEntriesBackup_refines:
  fixes st es k ids
  defines "j \<equiv> gc_upto es k (unat (max_seq_of (reqid_to_seq_map st) ids))"
  defines "fs \<equiv> pending_entries st @ drop k (take j es)"
  assumes inv: "flat_inv st es k" "\<not> is_primary st" "es \<noteq> []" "tsz es - pos es k \<le> unat (rg_size st)"
  shows "\<exists>st'. delEntriesBackup st ids = Some (of_nat (length (filter (acked ids) fs)), st') \<and>
    flat_inv st' es j \<and> k \<le> j \<and> pending_entries st' = filter (\<lambda>e. \<not> acked ids e) fs"
  unfolding j_def fs_def using delEntriesBackup_ok [OF inv, of ids] by blast

text \<open>The first entry of a client is not protected on a backup. Whatever request ids a round names, an entry
  with sequence number 0 that lies below the new watermark is deleted, also when its client is not among
  the named ones: it is neither in the ring part that is still unordered nor among the pending entries.\<close>

theorem delEntriesBackup_first_entry_dropped:
  assumes inv: "flat_inv st es k" "\<not> is_primary st" "es \<noteq> []" "tsz es - pos es k \<le> unat (rg_size st)"
    and j: "j = gc_upto es k (unat (max_seq_of (reqid_to_seq_map st) ids))"
    and e: "e \<in> set (drop k (take j es))" "client_seq e = 0" "client_id e \<notin> fst ` set ids"
  shows "\<exists>n st'. delEntriesBackup st ids = Some (n, st') \<and> flat_inv st' es j \<and> e \<notin> set (pending_entries st')"
  using delEntriesBackup_ok [OF inv, of ids] e(2) unfolding j by (auto simp: acked_def)

section \<open>Initialization\<close>

definition init_state :: "u64 \<Rightarrow> mem \<Rightarrow> DurabilityLogFlat \<Rightarrow> DurabilityLogFlat" where
  "init_state rg m st = set_ordered_idx_watermk 0 (set_ordered_watermk 0
     (set_indexer 0 (set_sequencer 0
       (st\<lparr>rg_size := rg, idx_map_elem_cnt := rg div MetaDataSize, mem_rg_raw := m\<rparr>))))"

lemma init_state_inv:
  assumes "8192 \<le> unat rg" "unat rg + 12288 < 2 ^ 64" "reqid_to_seq_map st = Map.empty"
  shows "flat_inv (init_state rg m st) [] 0"
  using assms
  by (simp add: flat_inv_def flat_geometry_def numbered_def in_memory_def indexed_def registered_def
      init_state_def set_ordered_idx_watermk_def set_ordered_watermk_def set_indexer_def set_sequencer_def
      sequencer_def indexer_def ordered_watermk_def ordered_idx_watermk_def control_addr_def
      SAFE_RG_SIZE_def PAGE_SIZE_def)

lemma scast_region:
  assumes "0 < n" "n < 2048"
  shows "(scast (of_int n * 1024 * 1024 :: u32) :: u64) = of_int (n * 1048576)"
proof -
  have "sint (of_int (n * 1048576) :: u32) = n * 1048576"
    using assms by (intro sint_of_int_u32) simp_all
  moreover have "(of_int n * 1024 * 1024 :: u32) = of_int (n * 1048576)"
    by simp
  ultimately show ?thesis
    by (simp only: scast_eq)
qed

text \<open>C33. A region of 1 MB to 2047 MB: \<^verbatim>\<open>Initialize\<close> gives an empty log whose ring has exactly the
  configured size, with nothing ordered; the role follows the property \<^verbatim>\<open>leader\<close>, and the waiting
  for space is on unless the property \<^verbatim>\<open>wait\<close> turns it off. A failed allocation is an exception.\<close>

theorem DurabilityLogFlat_Initialize_establishes:
  assumes "stoi (GetProperty p ''dur_log.mr_size_m'' ''512'') = Inr n" "0 < n" "n < 2048"
  shows "DurabilityLogFlat_Initialize p None ar (DurabilityLogFlat_new m0 a0) =
      Inl (Exception ''Unable to allocate memory region'') \<and>
    (\<exists>st. DurabilityLogFlat_Initialize p (Some m) (Some a) (DurabilityLogFlat_new m0 a0) = Inr st \<and>
      flat_inv st [] 0 \<and> unat (rg_size st) = nat n * 1048576 \<and> pending_entries st = [] \<and>
      (is_primary st \<longleftrightarrow> p ''leader'' = Some ''true'') \<and> (wait st \<longleftrightarrow> p ''wait'' \<noteq> Some ''false''))"
proof -
  define rg where "rg = (of_int (n * 1048576) :: u64)"
  have "n * 1048576 < 2 ^ 64" using assms(3) by simp
  then have rg: "unat rg = nat n * 1048576"
    using assms(2) unfolding rg_def by (subst unat_of_int_u64) (simp_all add: nat_mult_distrib)
  have sc: "(scast (1048576 * of_int n :: u32) :: u64) = rg"
    using scast_region [OF assms(2, 3)] by (simp add: rg_def mult.commute)
  define st0 where "st0 = (DurabilityLog_Initialize p (DurabilityLogFlat_new m0 a0))
    \<lparr>wait := GetProperty p ''wait'' ''true'' \<noteq> ''false'', idx_to_seq := a\<rparr>"
  have "DurabilityLogFlat_Initialize p (Some m) (Some a) (DurabilityLogFlat_new m0 a0) = Inr (init_state rg m st0)"
    using assms by (simp add: DurabilityLogFlat_Initialize_def sc init_state_def st0_def Let_def
        set_ordered_idx_watermk_def set_ordered_watermk_def set_indexer_def set_sequencer_def control_addr_def
        Sequencer_new_def DurabilityLog_Initialize_def DurabilityLogFlat_new_def DurabilityLog.defs DurabilityLogFlat.defs)
  moreover have "flat_inv (init_state rg m st0) [] 0"
    using assms(2, 3) rg
    by (intro init_state_inv) (simp_all add: st0_def DurabilityLog_Initialize_def DurabilityLogFlat_new_def
        DurabilityLog_new_def DurabilityLog.defs DurabilityLogFlat.defs Let_def nat_less_iff)
  moreover have "rg_size (init_state rg m st0) = rg" "pending_entries (init_state rg m st0) = []"
    "is_primary (init_state rg m st0) \<longleftrightarrow> p ''leader'' = Some ''true''"
    "wait (init_state rg m st0) \<longleftrightarrow> p ''wait'' \<noteq> Some ''false''"
    by (simp_all add: init_state_def st0_def set_ordered_idx_watermk_def set_ordered_watermk_def set_indexer_def
        set_sequencer_def DurabilityLog_Initialize_def DurabilityLogFlat_new_def DurabilityLog_new_def GetProperty_def
        DurabilityLog.defs DurabilityLogFlat.defs Let_def split: option.splits)
  moreover have "DurabilityLogFlat_Initialize p None ar (DurabilityLogFlat_new m0 a0) =
      Inl (Exception ''Unable to allocate memory region'')"
    using assms(1) by (simp add: DurabilityLogFlat_Initialize_def Let_def)
  ultimately show ?thesis
    using rg by simp
qed

theorem DurabilityLogFlat_Initialize_establishes_witness:
  "\<exists>st. DurabilityLogFlat_Initialize [''leader'' \<mapsto> ''true''] (Some (\<lambda>_. 0)) (Some (\<lambda>_. 0))
      (DurabilityLogFlat_new (\<lambda>_. 0) (\<lambda>_. 0)) = Inr st \<and>
    flat_inv st [] 0 \<and> unat (rg_size st) = 512 * 1048576 \<and> is_primary st \<and> wait st"
proof -
  have "stoi (GetProperty [''leader'' \<mapsto> ''true''] ''dur_log.mr_size_m'' ''512'') = Inr 512"
    by (simp add: GetProperty_def stoi_def isspace_def isdigit_def)
  from DurabilityLogFlat_Initialize_establishes [OF this, of None "\<lambda>_. 0" "\<lambda>_. 0" "\<lambda>_. 0" "\<lambda>_. 0"]
  show ?thesis by auto
qed

section \<open>A running log\<close>

text \<open>The states that the witnesses of this theory use: a fresh log with a ring of \<open>rg\<close> bytes, and what
  it holds after appending entries with the given payloads.\<close>

definition fresh_log :: "bool \<Rightarrow> u64 \<Rightarrow> DurabilityLogFlat" where
  "fresh_log primary rg =
     init_state rg (\<lambda>_. 0) ((DurabilityLogFlat_new (\<lambda>_. 0) (\<lambda>_. 0))\<lparr>is_primary := primary\<rparr>)"

definition sample_entry :: "nat \<Rightarrow> LogEntry" where
  "sample_entry i = LogEntry_new\<lparr>client_id := 7, client_seq := of_nat i, log_idx := of_nat i, flags := 1\<rparr>"

lemma sample_entry_ok [simp]:
  "stored_ok (sample_entry i)" "log_idx (sample_entry i) = of_nat i" "esz (sample_entry i) = 32"
  by (simp_all add: sample_entry_def stored_ok_def wf_entry_def esz_def align4_def LogEntry_new_def
      SAFE_RG_SIZE_def PAGE_SIZE_def)

lemma tsz_sample [simp]: "sum_list (map (esz \<circ> sample_entry) xs) = 32 * length xs"
  by (induction xs) simp_all

lemma fresh_log_simps [simp]:
  "is_primary (fresh_log pr rg) = pr" "rg_size (fresh_log pr rg) = rg" "wait (fresh_log pr rg)"
  "idx_map_elem_cnt (fresh_log pr rg) = rg div MetaDataSize" "pending_entries (fresh_log pr rg) = []"
  by (simp_all add: fresh_log_def init_state_def set_ordered_idx_watermk_def set_ordered_watermk_def
      set_indexer_def set_sequencer_def DurabilityLogFlat_new_def DurabilityLog.defs DurabilityLogFlat.defs)

lemma fresh_log_inv: "8192 \<le> unat rg \<Longrightarrow> unat rg + 12288 < 2 ^ 64 \<Longrightarrow> flat_inv (fresh_log pr rg) [] 0"
  unfolding fresh_log_def
  by (rule init_state_inv)
    (simp_all add: DurabilityLogFlat_new_def DurabilityLog_new_def DurabilityLog.defs DurabilityLogFlat.defs)

lemma running_log:
  assumes "8192 \<le> unat rg" "unat rg + 12288 < 2 ^ 64" "32 * n < 2 ^ 64"
  shows "\<exists>st. flat_inv st (map sample_entry [0..<n]) 0 \<and> is_primary st = pr \<and> rg_size st = rg \<and>
    idx_map_elem_cnt st = rg div MetaDataSize \<and> pending_entries st = [] \<and> wait st \<and>
    (\<not> pr \<longrightarrow> (\<forall>i<n. reqid_to_seq_map st (7, of_nat i) = Some (of_nat (32 * i))))"
  using assms(3)
proof (induction n)
  case 0
  then show ?case
    using fresh_log_inv [OF assms(1, 2), of pr] by (intro exI [of _ "fresh_log pr rg"]) simp
next
  case (Suc n)
  then obtain st where st: "flat_inv st (map sample_entry [0..<n]) 0" "is_primary st = pr" "rg_size st = rg"
    "idx_map_elem_cnt st = rg div MetaDataSize" "pending_entries st = []" "wait st"
    "\<not> pr \<longrightarrow> (\<forall>i<n. reqid_to_seq_map st (7, of_nat i) = Some (of_nat (32 * i)))"
    by auto
  have "flat_inv (append_state st (sample_entry n)) (map sample_entry [0..<n] @ [sample_entry n]) 0"
    using Suc.prems by (intro append_state_inv [OF st(1)]) simp_all
  moreover have "sequencer st = of_nat (32 * n)"
    using flat_invD(5) [OF st(1)] by (intro word_eq_of_nat) simp
  then have "\<forall>i<Suc n. reqid_to_seq_map (append_state st (sample_entry n)) (7, of_nat i) = Some (of_nat (32 * i))"
    if "\<not> pr"
    using st(2, 7) that
    by (auto simp: append_state_def Let_def reqid_def sample_entry_def less_Suc_eq)
  ultimately show ?case
    using st by (intro exI [of _ "append_state st (sample_entry n)"]) (simp add: append_state_def Let_def)
qed


theorem FetchUnorderedEntries_unordered_witness:
  "\<exists>st. FetchUnorderedEntries st [] 2 = Some ([sample_entry 0, sample_entry 1], 2) \<and> \<not> is_primary st"
proof -
  obtain st where st: "flat_inv st (map sample_entry [0..<3]) 0" "\<not> is_primary st" "rg_size st = 1048576"
    using running_log [of 1048576 3 False] by auto
  have "map sample_entry [0..<3] = [sample_entry 0, sample_entry 1, sample_entry 2]"
    by (simp add: upt_rec numeral_2_eq_2)
  then show ?thesis
    using FetchUnorderedEntries_unordered [OF st(1), of "[]" 2] st(2, 3) by auto
qed


theorem SpecReadEntry_before_full_witness:
  "\<exists>st. flat_inv st [sample_entry 0, sample_entry 1] 0 \<and> SpecReadEntry st 1 LogEntry_new = (- 1, LogEntry_new)"
proof -
  obtain st where st: "flat_inv st (map sample_entry [0..<2]) 0" "idx_map_elem_cnt st = 1048576 div MetaDataSize"
    using running_log [of 1048576 2 True] by auto
  have "unat (idx_map_elem_cnt st) = 32768"
    by (simp add: st(2) MetaDataSize_def FlagPos_def unat_div_distrib)
  then show ?thesis
    using SpecReadEntry_before_full [OF st(1), of 1 LogEntry_new] st(1)
    by (intro exI [of _ st]) (simp add: upt_rec)
qed

theorem delEntriesBackup_refines_witness:
  "\<exists>st st'. delEntriesBackup st [(7, 1)] = Some (2, st') \<and> flat_inv st' (map sample_entry [0..<3]) 2 \<and>
    pending_entries st' = []"
proof -
  obtain st where st: "flat_inv st (map sample_entry [0..<3]) 0" "\<not> is_primary st" "rg_size st = 1048576"
    "pending_entries st = []" "\<forall>i<3. reqid_to_seq_map st (7, of_nat i) = Some (of_nat (32 * i))"
    using running_log [of 1048576 3 False] by auto
  have l: "map sample_entry [0..<3] = [sample_entry 0, sample_entry 1, sample_entry 2]"
    by (simp add: upt_rec numeral_2_eq_2)
  have "reqid_to_seq_map st (7, 1) = Some 32"
    using st(5) [THEN spec, of 1] by simp
  then have ms: "max_seq_of (reqid_to_seq_map st) [(7, 1)] = 32"
    by (simp add: max_seq_of_def lookup0_def)
  have "pos (map sample_entry [0..<3]) 0 = 0" "pos (map sample_entry [0..<3]) 1 = 32"
    "pos (map sample_entry [0..<3]) 2 = 64"
    unfolding l by (simp_all add: pos_def eval_nat_numeral)
  then have j: "gc_upto (map sample_entry [0..<3]) 0 32 = 2"
    by (simp add: gc_upto_def upt_rec numeral_2_eq_2)
  have ack: "acked [(7, 1)] (sample_entry 0)" "acked [(7, 1)] (sample_entry (Suc 0))"
    by (simp_all add: acked_def sample_entry_def lookup0_def LogEntry_new_def)
  have tk: "take 2 (map sample_entry [0..<3]) = [sample_entry 0, sample_entry 1]"
    unfolding l by (simp add: numeral_2_eq_2)
  have "map sample_entry [0..<3] \<noteq> []" "tsz (map sample_entry [0..<3]) \<le> 1048576"
    unfolding l by simp_all
  then obtain st' where "delEntriesBackup st [(7, 1)] = Some (2, st')" "flat_inv st' (map sample_entry [0..<3]) 2"
      "pending_entries st' = []"
    using delEntriesBackup_refines [OF st(1, 2), of "[(7, 1)]"] st(3, 4) by (auto simp: ms j tk ack)
  then show ?thesis by blast
qed

theorem delEntriesBackup_first_entry_dropped_witness:
  "\<exists>st n st'. delEntriesBackup st [] = Some (n, st') \<and> flat_inv st' (map sample_entry [0..<3]) 1 \<and>
    sample_entry 0 \<notin> set (pending_entries st')"
proof -
  obtain st where st: "flat_inv st (map sample_entry [0..<3]) 0" "\<not> is_primary st" "rg_size st = 1048576"
    using running_log [of 1048576 3 False] by auto
  have l: "map sample_entry [0..<3] = [sample_entry 0, sample_entry 1, sample_entry 2]"
    by (simp add: upt_rec numeral_2_eq_2)
  have "pos (map sample_entry [0..<3]) 0 = 0" "pos (map sample_entry [0..<3]) 1 = 32"
    "pos (map sample_entry [0..<3]) 2 = 64"
    unfolding l by (simp_all add: pos_def eval_nat_numeral)
  then have j: "1 = gc_upto (map sample_entry [0..<3]) 0 (unat (max_seq_of (reqid_to_seq_map st) []))"
    by (simp add: gc_upto_def upt_rec numeral_2_eq_2 max_seq_of_def)
  have "map sample_entry [0..<3] \<noteq> []" "tsz (map sample_entry [0..<3]) \<le> 1048576"
    "take 1 (map sample_entry [0..<3]) = [sample_entry 0]"
    unfolding l by simp_all
  moreover have "client_seq (sample_entry 0) = 0"
    by (simp add: sample_entry_def LogEntry_new_def)
  ultimately show ?thesis
    using delEntriesBackup_first_entry_dropped [OF st(1, 2) _ _ j, of "sample_entry 0"] st(3) by auto
qed

end
