(* ===== verification/Dur_Server.thy ===== *)
theory Dur_Server
  imports Rpc Dur_Log_Flat
begin

text \<open>
  The request handlers of a durability server, from \<^verbatim>\<open>src/src/dur_log/erpc_dl_transport.cc\<close>. Each
  takes the request message, a response buffer (\<^verbatim>\<open>pre_resp_msgbuf_\<close>, or a buffer the handler
  allocates) and the durability log, and gives the response and the new log. \<open>None\<close> is a handler that
  blocks, because \<^verbatim>\<open>AppendEntry\<close> waits for space or \<^verbatim>\<open>delEntriesBackup\<close> for a flag.
\<close>

section \<open>The model\<close>

definition AppendEntryHandler ::
  "MsgBuffer \<Rightarrow> MsgBuffer \<Rightarrow> DurabilityLogFlat \<Rightarrow> (MsgBuffer \<times> DurabilityLogFlat) option" where
  "AppendEntryHandler resp req st =
     (let e = fst (Deserializer LogEntry_new (buf req) 0);
          e = e\<lparr>flags := 0\<rparr>
      in case AppendEntry st e of
           None \<Rightarrow> None
         | Some (pri_seq, e, st) \<Rightarrow>
             Some ((resize_msg_buffer resp 8)\<lparr>buf := put_le (buf resp) 0 pri_seq\<rparr>, st))"

definition OrderEntryHandler ::
  "MsgBuffer \<Rightarrow> MsgBuffer \<Rightarrow> DurabilityLogFlat \<Rightarrow> (MsgBuffer \<times> DurabilityLogFlat) option" where
  "OrderEntryHandler resp req st =
     (let e = fst (Deserializer LogEntry_new (buf req) 0);
          e = e\<lparr>flags := 0\<rparr>
      in case AppendEntry st e of
           None \<Rightarrow> None
         | Some (s, e, st) \<Rightarrow>
             Some ((resize_msg_buffer resp 8)\<lparr>buf := put_le (buf resp) 0 s\<rparr>, st))"

definition GetNumDurEntryHandler ::
  "MsgBuffer \<Rightarrow> MsgBuffer \<Rightarrow> DurabilityLogFlat \<Rightarrow> (MsgBuffer \<times> DurabilityLogFlat) option" where
  "GetNumDurEntryHandler resp req st =
     (let m = put_le (buf resp) 0 (GetNumDurEntry st);
          m = put_le m 8 (GetNumOrderedEntry st);
          m = put_le m (2 * 8) (GetView st)
      in Some (resize_msg_buffer (resp\<lparr>buf := m\<rparr>) (2 * 8 + 2), st))"

definition SpecReadHandler ::
  "MsgBuffer \<Rightarrow> MsgBuffer \<Rightarrow> DurabilityLogFlat \<Rightarrow> (MsgBuffer \<times> DurabilityLogFlat) option" where
  "SpecReadHandler resp req st =
     (let idx = get_le (buf req) 0 :: u64;
          (ret_v, e) = SpecReadEntry st idx LogEntry_new
      in if ret_v \<le> 0
         then Some ((resize_msg_buffer resp 4)\<lparr>buf := put_le (buf resp) 0 (of_int ret_v :: u32)\<rparr>, st)
         else let (m, sz) = Serializer e (buf resp) 0
              in Some (resize_msg_buffer (resp\<lparr>buf := m\<rparr>) (unat sz), st))"

definition GetGSNHandler ::
  "MsgBuffer \<Rightarrow> MsgBuffer \<Rightarrow> DurabilityLogFlat \<Rightarrow> (MsgBuffer \<times> DurabilityLogFlat) option" where
  "GetGSNHandler resp req st =
     (let (g, st) = GetGSN st 1
      in Some (resize_msg_buffer (resp\<lparr>buf := put_le (buf resp) 0 g\<rparr>) 8, st))"

definition GetGSNBatchHandler ::
  "MsgBuffer \<Rightarrow> MsgBuffer \<Rightarrow> DurabilityLogFlat \<Rightarrow> (MsgBuffer \<times> DurabilityLogFlat) option" where
  "GetGSNBatchHandler resp req st =
     (let batchSize = get_le (buf req) 0 :: u64;
          (g, st) = GetGSN st batchSize
      in Some (resize_msg_buffer (resp\<lparr>buf := put_le (buf resp) 0 g\<rparr>) 8, st))"

definition FetchUnorderedEntriesHandler ::
  "MsgBuffer \<Rightarrow> MsgBuffer \<Rightarrow> DurabilityLogFlat \<Rightarrow> (MsgBuffer \<times> DurabilityLogFlat) option" where
  "FetchUnorderedEntriesHandler resp req st =
     (let max_entries_num = get_le (buf req) 0 :: u32
      in case FetchUnorderedEntries st [] max_entries_num of
           None \<Rightarrow> None
         | Some (unordered_entries, num) \<Rightarrow>
             let (m, total_entries_size) = MultiSerializer unordered_entries (buf resp) 0
             in Some (resize_msg_buffer (resp\<lparr>buf := m\<rparr>) (unat total_entries_size), st))"

definition DeleteOrderedEntriesHandler ::
  "MsgBuffer \<Rightarrow> MsgBuffer \<Rightarrow> DurabilityLogFlat \<Rightarrow> (MsgBuffer \<times> DurabilityLogFlat) option" where
  "DeleteOrderedEntriesHandler resp req st =
     (let req_ids = fst (ReqIdDeserializer [] (buf req) 0)
      in case DelOrderedEntries st req_ids of
           None \<Rightarrow> None
         | Some (n_del, st) \<Rightarrow>
             Some (resize_msg_buffer (resp\<lparr>buf := put_le (buf resp) 0 (ucast n_del :: u64)\<rparr>) 8, st))"

end
