(* ===== verification/Dur_Cli.thy ===== *)
theory Dur_Cli
  imports Dur_Server
begin

text \<open>
  The clients of a durability server: the RPC stubs \<^verbatim>\<open>DurabilityLogERPCCli\<close> of
  \<^verbatim>\<open>src/src/dur_log/dur_log_erpc_cli.cc\<close>, which the application clients use, and
  \<^verbatim>\<open>DurabilityLogFlatCli\<close> of \<^verbatim>\<open>src/src/dur_log/dur_log_flat_cli.cc\<close>, with which the consensus log
  reads the ring of the primary by RDMA and moves its watermarks.

  The RDMA library is not part of the repository: its operations are the fields of a parameter
  \<open>rdma\<close>. \<open>rdma_ok\<close> states what they are documented to do: a read copies bytes from a remote
  region to the local buffer, a write copies bytes from the local buffer to a remote region, and nothing else
  changes. The server state \<open>s\<close> that a stub changes through \<open>net\<close> is passed along explicitly.
\<close>

section \<open>The model\<close>

subsection \<open>RPC stubs\<close>

record DurabilityLogERPCCli =
  cli_is_primary :: bool
  req_buf :: MsgBuffer
  resp_buf :: MsgBuffer
  rpc_tkn :: RPCToken
  pending_reqs :: "nat list"

definition DL_local_rpc_id :: "bool \<Rightarrow> byte \<Rightarrow> byte" where
  "DL_local_rpc_id param global_rpc_id =
     (if \<not> param then DL_CLI_RPCID_OFFSET + global_rpc_id else CL_RSV_RPCID)"

definition DL_remote_rpc_id :: "bool \<Rightarrow> u64 option \<Rightarrow> byte \<Rightarrow> u64 \<Rightarrow> byte" where
  "DL_remote_rpc_id param client_id_prop local_rpc_cnt server_rpc_count =
     (if \<not> param
      then ucast (ucast DL_SVR_RPCID_OFFSET +
        (case client_id_prop of
           Some c \<Rightarrow> c mod server_rpc_count
         | None \<Rightarrow> ucast local_rpc_cnt mod server_rpc_count) :: u64)
      else DL_RSV_RPCID)"

definition IsPrimary :: "'a DurabilityLogERPCCli_scheme \<Rightarrow> bool" where
  "IsPrimary c = cli_is_primary c"

definition ERPCCli_InitializeConn :: "Properties \<Rightarrow> string \<Rightarrow> 'a DurabilityLogERPCCli_scheme \<Rightarrow> 'a DurabilityLogERPCCli_scheme" where
  "ERPCCli_InitializeConn p server_uri c =
     c\<lparr>cli_is_primary := (server_uri = GetProperty p ''dur_log.primary_uri'' ''localhost:31850'')\<rparr>"

definition call ::
  "'s net \<Rightarrow> byte \<Rightarrow> 'a DurabilityLogERPCCli_scheme \<Rightarrow> mem \<Rightarrow> nat \<Rightarrow> 's \<Rightarrow>
    (MsgBuffer \<times> 'a DurabilityLogERPCCli_scheme \<times> 's) option" where
  "call net t c m len s =
     (let req = resize_msg_buffer ((req_buf c)\<lparr>buf := m\<rparr>) len
      in case net t req s of
           None \<Rightarrow> None
         | Some (r, s) \<Rightarrow> Some (r, c\<lparr>req_buf := req, resp_buf := r\<rparr>, s))"

definition ERPCCli_AppendEntry ::
  "'s net \<Rightarrow> 'a DurabilityLogERPCCli_scheme \<Rightarrow> LogEntry \<Rightarrow> 's \<Rightarrow>
    (u64 \<times> 'a DurabilityLogERPCCli_scheme \<times> 's) option" where
  "ERPCCli_AppendEntry net c e s =
     (let (m, len) = Serializer e (buf (req_buf c)) 0
      in case call net APPEND_ENTRY c m (unat len) s of
           None \<Rightarrow> None
         | Some (r, c, s) \<Rightarrow> Some (get_le (buf r) 0, c, s))"

definition ERPCCli_GetNumDurEntry ::
  "'s net \<Rightarrow> 'a DurabilityLogERPCCli_scheme \<Rightarrow> 's \<Rightarrow>
    ((u64 \<times> u64 \<times> u16) \<times> 'a DurabilityLogERPCCli_scheme \<times> 's) option" where
  "ERPCCli_GetNumDurEntry net c s =
     (case call net GET_N_DUR_ENTRY c (put_le (buf (req_buf c)) 0 (0 :: u32)) 4 s of
        None \<Rightarrow> None
      | Some (r, c, s) \<Rightarrow>
          Some ((get_le (buf r) 0, get_le (buf r) 8, get_le (buf r) (2 * 8)), c, s))"

definition ERPCCli_FetchUnorderedEntries ::
  "'s net \<Rightarrow> 'a DurabilityLogERPCCli_scheme \<Rightarrow> LogEntry list \<Rightarrow> u32 \<Rightarrow> 's \<Rightarrow>
    (u32 \<times> LogEntry list \<times> 'a DurabilityLogERPCCli_scheme \<times> 's) option" where
  "ERPCCli_FetchUnorderedEntries net c es max_entries_num s =
     (case call net FETCH_UNORDERED_ENTRIES c (put_le (buf (req_buf c)) 0 max_entries_num) 4 s of
        None \<Rightarrow> None
      | Some (r, c, s) \<Rightarrow>
          (case MultiDeserializer es (buf r) 0 of (es, n) \<Rightarrow> Some (ucast n, es, c, s)))"

definition ERPCCli_DeleteOrderedEntries ::
  "'s net \<Rightarrow> 'a DurabilityLogERPCCli_scheme \<Rightarrow> ReqID list \<Rightarrow> 's \<Rightarrow>
    (u64 \<times> 'a DurabilityLogERPCCli_scheme \<times> 's) option" where
  "ERPCCli_DeleteOrderedEntries net c req_ids s =
     (let (m, len) = ReqIdSerializer req_ids (buf (req_buf c)) 0
      in case call net DEL_ORDERED_ENTRIES c m (unat len) s of
           None \<Rightarrow> None
         | Some (r, c, s) \<Rightarrow>
             if data_size r < 8 then Some (0, c, s) else Some (get_le (buf r) 0, c, s))"

definition ERPCCli_SpecRead ::
  "'s net \<Rightarrow> 'a DurabilityLogERPCCli_scheme \<Rightarrow> u64 \<Rightarrow> LogEntry \<Rightarrow> 's \<Rightarrow>
    (int \<times> LogEntry \<times> 'a DurabilityLogERPCCli_scheme \<times> 's) option" where
  "ERPCCli_SpecRead net c idx e s =
     (case call net SPEC_READ c (put_le (buf (req_buf c)) 0 idx) 8 s of
        None \<Rightarrow> None
      | Some (r, c, s) \<Rightarrow>
          if data_size r < unat MetaDataSize then Some (sint (get_le (buf r) 0 :: u32), e, c, s)
          else let (e, sz) = Deserializer e (buf r) 0 in Some (sint (ucast sz :: u32), e, c, s))"

definition ERPCCli_ProcessFetchedEntries :: "LogEntry list \<Rightarrow> ReqID list \<Rightarrow> u64 \<times> ReqID list" where
  "ERPCCli_ProcessFetchedEntries es req_ids = (0, req_ids)"

definition ERPCCli_CheckAndRunOnce ::
  "(RPCToken \<Rightarrow> RPCToken) \<Rightarrow> 'a DurabilityLogERPCCli_scheme \<Rightarrow> bool \<times> 'a DurabilityLogERPCCli_scheme" where
  "ERPCCli_CheckAndRunOnce run c =
     (if Complete (rpc_tkn c) then (True, c)
      else let c = c\<lparr>rpc_tkn := run (rpc_tkn c)\<rparr> in (Complete (rpc_tkn c), c))"

definition AddPendingReq :: "'a DurabilityLogERPCCli_scheme \<Rightarrow> nat \<Rightarrow> 'a DurabilityLogERPCCli_scheme" where
  "AddPendingReq c token = c\<lparr>pending_reqs := pending_reqs c @ [token]\<rparr>"

definition CheckPendingReq ::
  "((nat \<Rightarrow> RPCToken) \<Rightarrow> nat \<Rightarrow> RPCToken) \<Rightarrow> 'a DurabilityLogERPCCli_scheme \<Rightarrow> (nat \<Rightarrow> RPCToken) \<Rightarrow>
    'a DurabilityLogERPCCli_scheme \<times> (nat \<Rightarrow> RPCToken)" where
  "CheckPendingReq run c tokens =
     (case pending_reqs c of
        [] \<Rightarrow> (c, tokens)
      | t # ts \<Rightarrow>
          let tokens = run tokens
          in (if Complete (tokens t) then c\<lparr>pending_reqs := ts\<rparr> else c, tokens))"

definition getGSN ::
  "'s net \<Rightarrow> 'a DurabilityLogERPCCli_scheme \<Rightarrow> 's \<Rightarrow> (u64 \<times> 'a DurabilityLogERPCCli_scheme \<times> 's) option" where
  "getGSN net c s =
     (case call net GET_GSN c (buf (req_buf c)) 0 s of
        None \<Rightarrow> None
      | Some (r, c, s) \<Rightarrow> if data_size r < 8 then Some (- 1, c, s) else Some (get_le (buf r) 0, c, s))"

definition getGSNBatch ::
  "'s net \<Rightarrow> 'a DurabilityLogERPCCli_scheme \<Rightarrow> u64 \<Rightarrow> 's \<Rightarrow> (u64 \<times> 'a DurabilityLogERPCCli_scheme \<times> 's) option" where
  "getGSNBatch net c batchSize s =
     (case call net GET_GSN_BATCH c (put_le (buf (req_buf c)) 0 batchSize) 8 s of
        None \<Rightarrow> None
      | Some (r, c, s) \<Rightarrow> if data_size r < 8 then Some (- 1, c, s) else Some (get_le (buf r) 0, c, s))"

subsection \<open>Remote memory\<close>

record rdma =
  rd_read :: "mem \<Rightarrow> nat \<Rightarrow> mem \<Rightarrow> nat \<Rightarrow> nat \<Rightarrow> mem"
  rd_read2 :: "mem \<Rightarrow> nat \<Rightarrow> nat \<Rightarrow> mem \<Rightarrow> nat \<Rightarrow> nat \<Rightarrow> nat \<Rightarrow> nat \<Rightarrow> mem"
  rd_write :: "mem \<Rightarrow> nat \<Rightarrow> mem \<Rightarrow> nat \<Rightarrow> nat \<Rightarrow> mem"

definition rdma_ok :: "rdma \<Rightarrow> bool" where
  "rdma_ok q \<longleftrightarrow>
     (\<forall>l lo r ro n. rd_read q l lo r ro n = write_bytes l lo (bytes_at r ro n)) \<and>
     (\<forall>l lo1 lo2 r ro1 ro2 n1 n2. rd_read2 q l lo1 lo2 r ro1 ro2 n1 n2 =
        write_bytes (write_bytes l lo1 (bytes_at r ro1 n1)) lo2 (bytes_at r ro2 n2)) \<and>
     (\<forall>l lo r ro n. rd_write q l lo r ro n = write_bytes r ro (bytes_at l lo n))"

record DurabilityLogFlatCli = DurabilityLogERPCCli +
  mr :: mem
  mr_offset_for_gc :: u64
  remote_size :: u64
  total_fetch_b :: u64
  total_fetch_n :: u64

definition DurabilityLogFlatCli_new :: "MsgBuffer \<Rightarrow> MsgBuffer \<Rightarrow> mem \<Rightarrow> DurabilityLogFlatCli" where
  "DurabilityLogFlatCli_new req resp m0 =
     \<lparr>cli_is_primary = False, req_buf = req, resp_buf = resp, rpc_tkn = RPCToken_new, pending_reqs = [],
      mr = m0, mr_offset_for_gc = 0, remote_size = 0, total_fetch_b = 0, total_fetch_n = 0\<rparr>"

definition FlatCli_rg_size :: "DurabilityLogFlatCli \<Rightarrow> u64" where
  "FlatCli_rg_size c = remote_size c - SAFE_RG_SIZE - PAGE_SIZE"

definition FlatCli_InitializeConn ::
  "Properties \<Rightarrow> string \<Rightarrow> mem \<Rightarrow> u64 \<Rightarrow> DurabilityLogFlatCli \<Rightarrow> exn + DurabilityLogFlatCli" where
  "FlatCli_InitializeConn p svr m0 rsize c =
     (let c = ERPCCli_InitializeConn p svr c
      in if \<not> IsPrimary c then Inr c
         else case stoi (GetProperty p ''dur_log.mr_size_m'' ''512'') of
                Inl x \<Rightarrow> Inl x
              | Inr n \<Rightarrow>
                  (let mr_size = scast (of_int n * 1024 * 1024 :: u32);
                       c = c\<lparr>mr := m0, mr_offset_for_gc := mr_size - PAGE_SIZE\<rparr>
                   in if GetProperty p ''test'' ''false'' = ''false'' \<and> cli_is_primary c
                      then Inr (c\<lparr>remote_size := rsize\<rparr>) else Inr c))"

definition getUnorderedRange ::
  "rdma \<Rightarrow> DurabilityLogFlatCli \<Rightarrow> mem \<Rightarrow> (u64 \<times> u64) \<times> DurabilityLogFlatCli" where
  "getUnorderedRange q c remote =
     (let rg = FlatCli_rg_size c;
          m = rd_read q (mr c) 0 remote (unat (rg + SAFE_RG_SIZE)) (2 * 8);
          ordered_watermk = get_le m 8;
          end_sequence = get_le m 0
      in ((ordered_watermk, end_sequence), c\<lparr>mr := m\<rparr>))"

definition FlatCli_FetchUnorderedEntries ::
  "rdma \<Rightarrow> DurabilityLogFlatCli \<Rightarrow> mem \<Rightarrow> LogEntry list \<Rightarrow> u64 \<Rightarrow> u32 \<Rightarrow>
    (u32 \<times> LogEntry list \<times> DurabilityLogFlatCli) option" where
  "FlatCli_FetchUnorderedEntries q c remote es from max_fetch_size =
     (let rg = FlatCli_rg_size c;
          (range, c) = getUnorderedRange q c remote;
          begin_sequence = fst range;
          end_sequence = snd range
      in if from \<ge> end_sequence then Some (0, es, c)
         else let begin_sequence = max begin_sequence from;
                  end_sequence = (if max_fetch_size > 0
                    then min end_sequence (begin_sequence + ucast max_fetch_size) else end_sequence);
                  begin_ofst = begin_sequence mod rg;
                  end_ofst = end_sequence mod rg;
                  read_size = end_sequence - begin_sequence
              in if begin_ofst = end_ofst then Some (0, es, c)
                 else let m = (if begin_ofst < end_ofst
                            then rd_read q (mr c) 0 remote (unat begin_ofst) (unat read_size)
                            else rd_read2 q (mr c) 0 (unat (rg - begin_ofst)) remote (unat begin_ofst) 0
                                   (unat (ucast (rg - begin_ofst) :: u32)) (unat (ucast end_ofst :: u32)));
                          c = c\<lparr>mr := m\<rparr>
                      in case MultiDeserializerMaxSize es m 0 read_size of
                           None \<Rightarrow> None
                         | Some (es, fetch_size) \<Rightarrow>
                             if fetch_size = 0 then Some (0, es, c)
                             else Some (ucast fetch_size,
                                    es @ [LogEntry_new\<lparr>client_seq := begin_sequence + fetch_size\<rparr>],
                                    c\<lparr>total_fetch_b := total_fetch_b c + fetch_size,
                                      total_fetch_n := total_fetch_n c + 1\<rparr>))"

definition FlatCli_DeleteOrderedEntries ::
  "rdma \<Rightarrow> DurabilityLogFlat net \<Rightarrow> DurabilityLogFlatCli \<Rightarrow> ReqID list \<Rightarrow> DurabilityLogFlat \<Rightarrow>
    (u64 \<times> DurabilityLogFlatCli \<times> DurabilityLogFlat) option" where
  "FlatCli_DeleteOrderedEntries q net c seqs st =
     (if IsPrimary c then
        if length seqs < 2 then None
        else let rg = FlatCli_rg_size c;
                 m = put_le (mr c) (unat (mr_offset_for_gc c)) (fst (seqs ! 0));
                 m = put_le m (unat (mr_offset_for_gc c) + 8) (fst (seqs ! 1));
                 remote = rd_write q m (unat (mr_offset_for_gc c)) (mem_rg_raw st)
                            (unat (rg + SAFE_RG_SIZE + 8)) (2 * 8)
             in Some (fst (seqs ! 0), c\<lparr>mr := m\<rparr>, st\<lparr>mem_rg_raw := remote\<rparr>)
      else ERPCCli_DeleteOrderedEntries net c seqs st)"

text \<open>
  The asynchronous variant gives the operation it has started, a write of local memory to remote memory
  (local offset, remote offset, size) or a request; \<open>complete_deletion\<close> is what the server and the
  completion do before \<^verbatim>\<open>CheckAndRunOnce\<close> reports the operation as completed.
\<close>

datatype deletion = DelWrite nat nat nat | DelRequest MsgBuffer

definition ERPCCli_DeleteOrderedEntriesAsync ::
  "'a DurabilityLogERPCCli_scheme \<Rightarrow> ReqID list \<Rightarrow> 'a DurabilityLogERPCCli_scheme \<times> MsgBuffer" where
  "ERPCCli_DeleteOrderedEntriesAsync c req_ids =
     (let c = c\<lparr>rpc_tkn := RPCToken_Reset (rpc_tkn c)\<rparr>;
          (m, len) = ReqIdSerializer req_ids (buf (req_buf c)) 0;
          req = resize_msg_buffer ((req_buf c)\<lparr>buf := m\<rparr>) (unat len)
      in (c\<lparr>req_buf := req\<rparr>, req))"

definition FlatCli_DeleteOrderedEntriesAsync ::
  "DurabilityLogFlatCli \<Rightarrow> ReqID list \<Rightarrow> (DurabilityLogFlatCli \<times> deletion) option" where
  "FlatCli_DeleteOrderedEntriesAsync c seqs =
     (if IsPrimary c then
        if length seqs < 2 then None
        else let rg = FlatCli_rg_size c;
                 m = put_le (mr c) (unat (mr_offset_for_gc c)) (fst (seqs ! 0));
                 m = put_le m (unat (mr_offset_for_gc c) + 8) (fst (seqs ! 1))
             in Some (c\<lparr>mr := m\<rparr>, DelWrite (unat (mr_offset_for_gc c)) (unat (rg + SAFE_RG_SIZE + 8)) (2 * 8))
      else let (c, req) = ERPCCli_DeleteOrderedEntriesAsync c seqs in Some (c, DelRequest req))"

definition complete_deletion ::
  "rdma \<Rightarrow> DurabilityLogFlat net \<Rightarrow> deletion \<Rightarrow> DurabilityLogFlatCli \<Rightarrow> DurabilityLogFlat \<Rightarrow>
    (DurabilityLogFlatCli \<times> DurabilityLogFlat) option" where
  "complete_deletion q net d c st =
     (case d of
        DelWrite lo ro n \<Rightarrow> Some (c, st\<lparr>mem_rg_raw := rd_write q (mr c) lo (mem_rg_raw st) ro n\<rparr>)
      | DelRequest req \<Rightarrow>
          (case net DEL_ORDERED_ENTRIES req st of
             None \<Rightarrow> None
           | Some (r, st) \<Rightarrow> Some (c\<lparr>resp_buf := r, rpc_tkn := SetComplete (rpc_tkn c)\<rparr>, st)))"

subsection \<open>What to collect after a fetch\<close>

fun maxSeq_upd :: "(u64 \<times> u64) list \<Rightarrow> u64 \<Rightarrow> u64 \<Rightarrow> (u64 \<times> u64) list" where
  "maxSeq_upd [] c s = [(c, s)]"
| "maxSeq_upd ((c', s') # ms) c s =
     (if c < c' then (c, s) # (c', s') # ms
      else if c = c' then (c', if s > s' then s else s') # ms
      else (c', s') # maxSeq_upd ms c s)"

definition maxSeqForClient :: "LogEntry list \<Rightarrow> (u64 \<times> u64) list" where
  "maxSeqForClient es = foldl (\<lambda>ms e. maxSeq_upd ms (client_id e) (client_seq e)) [] es"

definition ProcessFetchedEntries ::
  "DurabilityLogFlatCli \<Rightarrow> LogEntry list \<Rightarrow> ReqID list \<Rightarrow> (u64 \<times> ReqID list) option" where
  "ProcessFetchedEntries c es req_ids =
     (if length es < 2 then None
      else let last2 = es ! (length es - 2);
               req_ids =
                 (if IsPrimary c
                  then req_ids @ [(client_seq (last es), 0)] @ [(log_idx last2 + 1, 0)]
                  else req_ids @ filter (\<lambda>cs. fst cs \<noteq> 0) (maxSeqForClient es))
           in Some (log_idx last2, req_ids))"

section \<open>Fetching from the primary\<close>

text \<open>
  \<open>linear st p\<close> is the ring of \<open>st\<close> read from position \<open>p\<close> on as if it did not wrap around.
  A fetch copies a part of it to the local buffer, in one piece or in two.
\<close>

definition linear :: "DurabilityLogFlat \<Rightarrow> nat \<Rightarrow> mem" where
  "linear st p = (\<lambda>x. mem_rg_raw st ((p + x) mod unat (rg_size st)))"

definition connected :: "DurabilityLogFlatCli \<Rightarrow> DurabilityLogFlat \<Rightarrow> bool" where
  "connected c st \<longleftrightarrow> remote_size c = rg_size st + SAFE_RG_SIZE + PAGE_SIZE"

lemma connected_rg [simp]: "connected c st \<Longrightarrow> FlatCli_rg_size c = rg_size st"
  by (simp add: connected_def FlatCli_rg_size_def)

lemma get_le_copied:
  "i + LENGTH('a::len) div 8 \<le> n \<Longrightarrow>
    (get_le (write_bytes l lo (bytes_at r ro n)) (lo + i) :: 'a word) = get_le r (ro + i)"
  unfolding get_le_def
  by (intro arg_cong [where f = le_word] bytes_at_cong) (simp add: write_bytes_def add.assoc)

lemma unat_control: "flat_geometry st \<Longrightarrow> unat (rg_size st + SAFE_RG_SIZE) = control_addr st"
  by (subst unat_add_small) (simp_all add: flat_geometry_def control_addr_def SAFE_RG_SIZE_def PAGE_SIZE_def)

lemma getUnorderedRange_eq:
  assumes "rdma_ok q" "connected c st" "flat_geometry st"
  shows "fst (getUnorderedRange q c (mem_rg_raw st)) = (ordered_watermk st, sequencer st)"
    "FlatCli_rg_size (snd (getUnorderedRange q c (mem_rg_raw st))) = rg_size st"
proof -
  note a = unat_control [OF assms(3)]
  have r: "rd_read q l lo r ro n = write_bytes l lo (bytes_at r ro n)" for l lo r ro n
    using assms(1) by (simp add: rdma_ok_def)
  show "fst (getUnorderedRange q c (mem_rg_raw st)) = (ordered_watermk st, sequencer st)"
    using get_le_copied [of 8 16 "mr c" 0 "mem_rg_raw st" "control_addr st", where ?'a = 64]
      get_le_copied [of 0 16 "mr c" 0 "mem_rg_raw st" "control_addr st", where ?'a = 64] assms(2)
    by (simp add: getUnorderedRange_def Let_def a r ordered_watermk_def sequencer_def)
  show "FlatCli_rg_size (snd (getUnorderedRange q c (mem_rg_raw st))) = rg_size st"
    using assms(2) by (simp add: getUnorderedRange_def Let_def FlatCli_rg_size_def connected_def)
qed

lemma entries_linear:
  assumes "in_memory st es" "tsz es \<le> pos es i + unat (rg_size st)" "i \<le> j"
  shows "entries_at (linear st (pos es i)) (pos es j - pos es i) (drop j es)"
  using assms(3)
proof (induction "length es - j" arbitrary: j)
  case (Suc l)
  then have j: "j < length es" by simp
  have ge: "pos es i \<le> pos es j" using Suc.prems by (rule pos_mono)
  have "ring_at (unat (rg_size st)) (mem_rg_raw st) (pos es j) (es ! j)"
    using assms ge j by (simp add: in_memory_def)
  then have "entry_at (linear st (pos es i)) (pos es j - pos es i) (es ! j)"
    using ge by (auto simp: ring_at_def entry_at_def linear_def bytes_at_eq_iff)
  moreover have "entries_at (linear st (pos es i)) (pos es (Suc j) - pos es i) (drop (Suc j) es)"
    using Suc.hyps(2) Suc.prems by (intro Suc.hyps(1)) simp_all
  then have "entries_at (linear st (pos es i)) (pos es j - pos es i + esz (es ! j)) (drop (Suc j) es)"
    using ge by (simp add: pos_Suc j)
  ultimately show ?case
    by (simp add: Cons_nth_drop_Suc [OF j, symmetric])
qed simp

lemma fetched_bytes:
  fixes b n rg :: nat and rgw bo eo rs :: u64
  assumes q: "rdma_ok q" and rg: "n < rg" "rg < 2 ^ 32" "unat rgw = rg" and x: "x < n"
    and bo: "unat bo = b mod rg" and eo: "unat eo = (b + n) mod rg" and rs: "unat rs = n"
  shows "(if bo < eo then rd_read q l 0 r (unat bo) (unat rs)
      else rd_read2 q l 0 (unat (rgw - bo)) r (unat bo) 0 (unat (ucast (rgw - bo) :: u32)) (unat (ucast eo :: u32))) x =
    r ((b + x) mod rg)"
proof -
  have o: "b mod rg < rg" using rg(1) by simp
  have en: "(b + n) mod rg = (if b mod rg + n < rg then b mod rg + n else b mod rg + n - rg)"
    using o rg(1) by (intro mod_add_offset) linarith
  have ex: "(b + x) mod rg = (if b mod rg + x < rg then b mod rg + x else b mod rg + x - rg)"
    using o rg(1) x by (intro mod_add_offset) linarith
  show ?thesis
  proof (cases "b mod rg + n < rg")
    case True
    then have "bo < eo" using bo eo en x by (simp add: word_less_nat_alt)
    then show ?thesis
      using q True x by (simp add: rdma_ok_def bo rs ex write_bytes_def)
  next
    case False
    then have "\<not> bo < eo" using bo eo en rg(1) by (simp add: word_less_nat_alt)
    moreover have d: "unat (rgw - bo) = rg - b mod rg"
      using bo o rg(3) by (subst unat_sub) (simp_all add: word_le_nat_alt)
    then have "unat (ucast (rgw - bo) :: u32) = rg - b mod rg"
      using rg(2) by (simp add: unsigned_ucast_eq take_bit_nat_eq_self)
    moreover have "b mod rg + n - rg < 2 ^ 32" using o rg(1, 2) by linarith
    then have "unat (ucast eo :: u32) = b mod rg + n - rg"
      using eo en False by (simp add: unsigned_ucast_eq take_bit_nat_eq_self)
    ultimately show ?thesis
      using q False x o by (auto simp: rdma_ok_def bo d ex write_bytes_def add.commute)
  qed
qed

lemma tsz_eq_0_iff: "tsz es = 0 \<longleftrightarrow> es = []"
  by (cases es) (simp_all add: esz_def)

lemma fit_prefix_0: "fit_prefix 0 es = []"
  using esz_bounds(1) [of "hd es"] by (cases es) auto

lemma tsz_fit_prefix: "tsz (fit_prefix n es) \<le> n"
proof (induction es arbitrary: n)
  case (Cons e es)
  show ?case using Cons.IH [of "n - esz e"] by auto
qed simp

lemma MultiDeserializerMaxSize_linear:
  assumes inv: "flat_inv st es k" and w: "tsz es \<le> pos es i + unat (rg_size st)" and i: "i \<le> length es"
    and n: "unat rs \<le> tsz es - pos es i" and m: "\<And>x. x < unat rs \<Longrightarrow> m x = linear st (pos es i) x"
  shows "MultiDeserializerMaxSize acc m 0 rs =
    (let fs = fit_prefix (unat rs) (drop i es) in Some (acc @ fs, of_nat (tsz fs)))"
proof -
  note I = flat_invD [OF inv]
  have "entries_at (linear st (pos es i)) 0 (drop i es)"
    using entries_linear [OF I(4) w, of i] by simp
  moreover have "list_all wf_entry (drop i es)"
    using I(2) by (auto simp: list_all_length numbered_def stored_ok_def)
  moreover have "tsz es = pos es i + tsz (drop i es)"
    unfolding pos_def by (metis append_take_drop_id map_append sum_list_append)
  ultimately show ?thesis
    using MultiDeserializerMaxSize_loop_chain [of "linear st (pos es i)" 0 0 "drop i es" rs m acc] n m
    by (simp add: MultiDeserializerMaxSize_def Let_def)
qed

text \<open>The range of positions that a fetch reads, and its ends in the ring.\<close>

lemma fetch_range:
  fixes st es i frm mx
  defines "lim \<equiv> (if 0 < mx then min (tsz es) (pos es i + unat mx) else tsz es)"
  defines "b \<equiv> max (ordered_watermk st) frm"
  defines "e \<equiv> (if (mx :: u32) > 0 then min (sequencer st) (b + ucast mx) else sequencer st)"
  assumes s: "unat (sequencer st) = tsz es" "tsz es + 2 ^ 32 \<le> 2 ^ 64" and b: "unat b = pos es i"
  shows "pos es i \<le> lim" "lim \<le> tsz es" "unat (e - b) = lim - pos es i"
    "unat (b mod rg_size st) = pos es i mod unat (rg_size st)" "unat (e mod rg_size st) = lim mod unat (rg_size st)"
proof -
  have "unat mx < 2 ^ 32" using unsigned_less [of mx, where ?'a = nat] by simp
  then have "unat (b + ucast mx) = pos es i + unat mx"
    using b s(2) pos_le_tsz [of es i] by (subst unat_add_small) simp_all
  then have e: "unat e = lim"
    using s(1) by (simp add: e_def lim_def min_def word_le_nat_alt word_gt_0 unat_gt_0)
  show lim: "pos es i \<le> lim" "lim \<le> tsz es" using pos_le_tsz [of es i] by (auto simp: lim_def)
  show "unat (e - b) = lim - pos es i" using b e lim by (subst unat_sub) (simp_all add: word_le_nat_alt)
  show "unat (b mod rg_size st) = pos es i mod unat (rg_size st)" "unat (e mod rg_size st) = lim mod unat (rg_size st)"
    by (simp_all add: unat_mod_distrib b e)
qed

lemma of_nat_tsz_eq_0:
  assumes "tsz fs < 2 ^ 64"
  shows "(of_nat (tsz fs) :: u64) = 0 \<longleftrightarrow> fs = []"
  using of_nat_eq_u64 [OF assms, of 0] tsz_eq_0_iff [of fs] by simp

lemma FlatCli_FetchUnorderedEntries_ok:
  fixes st es k i q c mx
  defines "lim \<equiv> (if 0 < mx then min (tsz es) (pos es i + unat mx) else tsz es)"
  defines "fs \<equiv> fit_prefix (lim - pos es i) (drop i es)"
  assumes q: "rdma_ok q" "connected c st" and inv: "flat_inv st es k"
    and live: "tsz es - pos es k < unat (rg_size st)" "unat (rg_size st) < 2 ^ 32" "tsz es + 2 ^ 32 \<le> 2 ^ 64"
    and i: "k \<le> i" "i \<le> length es" "unat (max (ordered_watermk st) frm) = pos es i" "frm < sequencer st"
  shows "\<exists>c'. FlatCli_FetchUnorderedEntries q c (mem_rg_raw st) acc frm mx =
      Some (if fs = [] then (0, acc, c')
            else (of_nat (tsz fs), acc @ fs @ [LogEntry_new\<lparr>client_seq := of_nat (pos es i + tsz fs)\<rparr>], c')) \<and>
    connected c' st \<and> IsPrimary c' = IsPrimary c \<and> mr_offset_for_gc c' = mr_offset_for_gc c"
proof -
  note I = flat_invD [OF inv]
  define c1 where "c1 = snd (getUnorderedRange q c (mem_rg_raw st))"
  define b where "b = max (ordered_watermk st) frm"
  define e where "e = (if mx > 0 then min (sequencer st) (b + ucast mx) else sequencer st)"
  define n where "n = lim - pos es i"
  have c1: "getUnorderedRange q c (mem_rg_raw st) = ((ordered_watermk st, sequencer st), c1)"
    "connected c1 st" "IsPrimary c1 = IsPrimary c" "mr_offset_for_gc c1 = mr_offset_for_gc c"
    using getUnorderedRange_eq(1) [OF q I(1)] q(2)
    by (simp_all add: c1_def prod_eq_iff getUnorderedRange_def Let_def connected_def IsPrimary_def)
  have b: "unat b = pos es i" using i(3) by (simp add: b_def)
  note R = fetch_range(1-3, 5) [OF I(5) live(3) i(3), of mx, folded lim_def b_def, folded e_def]
  have n: "lim = pos es i + n" "n \<le> tsz es - pos es i" "n < unat (rg_size st)"
    using R(1, 2) live(1) pos_mono [OF i(1), of es] by (auto simp: n_def)
  note rs = R(3) [folded n_def] and bo = fetch_range(4) [OF I(5) live(3) i(3), folded b_def] and eo = R(4) [unfolded n(1)]
  have w: "tsz es \<le> pos es i + unat (rg_size st)"
    using live(1) pos_mono [OF i(1), of es] by simp
  note unfold = FlatCli_FetchUnorderedEntries_def Let_def c1(1) connected_rg [OF q(2)] prod.case fst_conv snd_conv
    b_def [symmetric] e_def [symmetric]
  show ?thesis
  proof (cases "n = 0")
    case True
    then have "b mod rg_size st = e mod rg_size st" using bo eo by (simp add: word_unat_eq_iff)
    then have "FlatCli_FetchUnorderedEntries q c (mem_rg_raw st) acc frm mx = Some (0, acc, c1)"
      unfolding unfold by simp
    then show ?thesis using c1(2-4) True fit_prefix_0 by (simp add: fs_def n_def [symmetric])
  next
    case False
    then have "unat (b mod rg_size st) \<noteq> unat (e mod rg_size st)"
      using bo eo n(3) mod_window [of "pos es i" "pos es i + n" "unat (rg_size st)"] by simp
    then have ne: "b mod rg_size st \<noteq> e mod rg_size st" by metis
    define m where "m = (if b mod rg_size st < e mod rg_size st
       then rd_read q (mr c1) 0 (mem_rg_raw st) (unat (b mod rg_size st)) (unat (e - b))
       else rd_read2 q (mr c1) 0 (unat (rg_size st - b mod rg_size st)) (mem_rg_raw st) (unat (b mod rg_size st)) 0
              (unat (ucast (rg_size st - b mod rg_size st) :: u32)) (unat (ucast (e mod rg_size st) :: u32)))"
    have "m x = linear st (pos es i) x" if "x < n" for x
      unfolding m_def linear_def
      by (rule fetched_bytes [OF q(1) n(3) live(2) refl that bo eo rs])
    then have md: "MultiDeserializerMaxSize acc m 0 (e - b) = Some (acc @ fs, of_nat (tsz fs))"
      using MultiDeserializerMaxSize_linear [OF inv w i(2), of "e - b" m acc] n(2)
      by (simp add: rs Let_def fs_def n_def)
    have bw: "b + of_nat (tsz fs) = of_nat (pos es i + tsz fs)" using word_eq_of_nat [OF b] by simp
    have "tsz fs \<le> n" unfolding fs_def n_def by (rule tsz_fit_prefix)
    then have z: "(of_nat (tsz fs) :: u64) = 0 \<longleftrightarrow> fs = []" using n(3) live(2) by (intro of_nat_tsz_eq_0) simp
    have "\<not> sequencer st \<le> frm" using i(4) by simp
    then have "FlatCli_FetchUnorderedEntries q c (mem_rg_raw st) acc frm mx =
        Some (if fs = [] then (0, acc, c1\<lparr>mr := m\<rparr>)
            else (of_nat (tsz fs), acc @ fs @ [LogEntry_new\<lparr>client_seq := of_nat (pos es i + tsz fs)\<rparr>],
              c1\<lparr>mr := m, total_fetch_b := total_fetch_b c1 + of_nat (tsz fs), total_fetch_n := total_fetch_n c1 + 1\<rparr>))"
      unfolding unfold m_def [symmetric] md option.case z bw using ne by (simp add: ucast_of_nat_32 del: of_nat_add)
    then show ?thesis
      using c1(2-4) by (cases "fs = []") (simp_all add: connected_def IsPrimary_def)
  qed
qed

text \<open>C25. Fetching from the primary. Starting at the later of the ordered watermark and \<open>from\<close>, the
  consensus side reads the ring remotely, in two pieces when the range wraps around, and obtains exactly
  the unordered entries from there on that fit in the requested number of bytes, in append order and each
  complete, followed by the marker that carries the position after the last one. It returns their size,
  and 0 if no entry fits. It always ends.\<close>

theorem FlatCli_FetchUnorderedEntries_correct:
  fixes st es k i q c mx
  defines "lim \<equiv> (if 0 < mx then min (tsz es) (pos es i + unat mx) else tsz es)"
  defines "fs \<equiv> fit_prefix (lim - pos es i) (drop i es)"
  assumes q: "rdma_ok q" "connected c st" and inv: "flat_inv st es k"
    and live: "tsz es - pos es k < unat (rg_size st)" "unat (rg_size st) < 2 ^ 32" "tsz es + 2 ^ 32 \<le> 2 ^ 64"
    and i: "k \<le> i" "i \<le> length es" "unat (max (ordered_watermk st) frm) = pos es i" "frm < sequencer st"
  shows "\<exists>c'. FlatCli_FetchUnorderedEntries q c (mem_rg_raw st) acc frm mx =
      Some (if fs = [] then (0, acc, c')
            else (of_nat (tsz fs), acc @ fs @ [LogEntry_new\<lparr>client_seq := of_nat (pos es i + tsz fs)\<rparr>], c')) \<and>
    connected c' st \<and> IsPrimary c' = IsPrimary c \<and> mr_offset_for_gc c' = mr_offset_for_gc c"
  unfolding lim_def fs_def by (rule FlatCli_FetchUnorderedEntries_ok [OF assms(3-)])

section \<open>What a fetch lets the servers collect\<close>

lemma map_of_maxSeq_upd:
  assumes "sorted_wrt (<) (map fst ms)"
  shows "map_of (maxSeq_upd ms c s) =
      (map_of ms)(c \<mapsto> (case map_of ms c of None \<Rightarrow> s | Some s' \<Rightarrow> max s s'))"
    and "sorted_wrt (<) (map fst (maxSeq_upd ms c s))"
    and "set (map fst (maxSeq_upd ms c s)) = insert c (set (map fst ms))"
proof -
  have "map_of ms c = None" if "sorted_wrt (<) (map fst ((c', s') # ms))" "c < c'" for c' s' ms
    using that by (force simp: map_of_eq_None_iff)
  note new = this
  have dom: "set (map fst (maxSeq_upd ms c s)) = insert c (set (map fst ms))" for ms
  proof (induction ms)
    case (Cons x ms)
    then show ?case by (cases x) (simp add: insert_commute)
  qed simp
  then show "set (map fst (maxSeq_upd ms c s)) = insert c (set (map fst ms))" .
  show "map_of (maxSeq_upd ms c s) = (map_of ms)(c \<mapsto> (case map_of ms c of None \<Rightarrow> s | Some s' \<Rightarrow> max s s'))"
    using assms
  proof (induction ms)
    case (Cons x ms)
    obtain c' s' where x: "x = (c', s')" by force
    show ?case
      using Cons new [of c' s' ms] by (auto simp: x fun_upd_twist max_def fun_eq_iff)
  qed simp
  show "sorted_wrt (<) (map fst (maxSeq_upd ms c s))"
    using assms
  proof (induction ms)
    case (Cons x ms)
    obtain c' s' where x: "x = (c', s')" by force
    show ?case
      using Cons dom [of ms] by (auto simp: x)
  qed simp
qed

lemma maxSeqForClient_spec:
  "sorted_wrt (<) (map fst (maxSeqForClient es)) \<and>
   (\<forall>c. map_of (maxSeqForClient es) c =
     (if c \<in> client_id ` set es then Some (Max (client_seq ` {e \<in> set es. client_id e = c})) else None))"
proof (induction es rule: rev_induct)
  case Nil
  show ?case by (simp add: maxSeqForClient_def)
next
  case (snoc e es)
  have step: "maxSeqForClient (es @ [e]) = maxSeq_upd (maxSeqForClient es) (client_id e) (client_seq e)"
    by (simp add: maxSeqForClient_def)
  note upd = map_of_maxSeq_upd [of "maxSeqForClient es" "client_id e" "client_seq e"]
  have "map_of (maxSeqForClient (es @ [e])) c =
     (if c \<in> client_id ` set (es @ [e]) then Some (Max (client_seq ` {e' \<in> set (es @ [e]). client_id e' = c})) else None)" for c
  proof (cases "c = client_id e")
    case False
    then have "{e' \<in> set (es @ [e]). client_id e' = c} = {e' \<in> set es. client_id e' = c}" by auto
    then show ?thesis using snoc upd(1) False by (auto simp: step)
  next
    case True
    have ins: "client_seq ` {e' \<in> set (es @ [e]). client_id e' = c} =
        insert (client_seq e) (client_seq ` {e' \<in> set es. client_id e' = c})"
      using True by auto
    show ?thesis
    proof (cases "c \<in> client_id ` set es")
      case True
      then have ne: "client_seq ` {e' \<in> set es. client_id e' = c} \<noteq> {}" by auto
      have "map_of (maxSeqForClient (es @ [e])) c =
          Some (max (client_seq e) (Max (client_seq ` {e' \<in> set es. client_id e' = c})))"
        using snoc upd(1) True \<open>c = client_id e\<close> by (simp add: step)
      then show ?thesis
        using ne \<open>c = client_id e\<close> unfolding ins by simp
    next
      case False
      then have em: "{e' \<in> set es. client_id e' = c} = {}" by auto
      have "map_of (maxSeqForClient (es @ [e])) c = Some (client_seq e)"
        using snoc upd(1) False \<open>c = client_id e\<close> by (simp add: step)
      then show ?thesis
        using \<open>c = client_id e\<close> unfolding ins em by simp
    qed
  qed
  then show ?case using snoc upd(2) by (simp add: step)
qed

lemma map_of_filter_key: "c \<noteq> 0 \<Longrightarrow> map_of (filter (\<lambda>cs. fst cs \<noteq> 0) ms) c = map_of ms c" for c :: u64
  by (induction ms) auto

lemma lookup0_sorted:
  assumes "distinct (map fst ms)"
  shows "map_updates Map.empty ms = map_of ms"
proof
  fix c
  show "map_updates Map.empty ms c = map_of ms c"
  proof (cases "c \<in> fst ` set ms")
    case True
    then obtain i where i: "i < length ms" "fst (ms ! i) = c"
      by (auto simp: in_set_conv_nth)
    then have "(c, snd (ms ! i)) \<in> set ms" by (metis nth_mem prod.collapse)
    then have "map_of ms c = Some (snd (ms ! i))" using assms by (simp add: map_of_eq_Some_iff)
    then show ?thesis using map_updates_distinct [OF assms i(1), of Map.empty] i(2) by simp
  next
    case False
    then have "map_of ms c = None" by (simp add: map_of_eq_None_iff)
    then show ?thesis using map_updates_notin [OF False, of Map.empty] by simp
  qed
qed

lemma acked_maxSeq:
  assumes d: "client_id d = 0"
  shows "acked (filter (\<lambda>cs. fst cs \<noteq> 0) (maxSeqForClient (fs @ [d]))) e \<longleftrightarrow>
    client_seq e = 0 \<or> client_id e \<noteq> 0 \<and> (\<exists>f\<in>set fs. client_id f = client_id e \<and> client_seq e \<le> client_seq f)"
    (is "acked ?ids e \<longleftrightarrow> ?R")
proof -
  note ms = maxSeqForClient_spec [of "fs @ [d]"]
  have "distinct (map fst (maxSeqForClient (fs @ [d])))"
    using ms strict_sorted_iff by blast
  then have "distinct (map fst ?ids)"
    by (rule distinct_map_filter)
  note lk = lookup0_sorted [OF this]
  let ?S = "{f \<in> set fs. client_id f = client_id e}"
  show ?thesis
  proof (cases "client_id e \<noteq> 0 \<and> client_id e \<in> client_id ` set fs")
    case True
    then have "{f \<in> set (fs @ [d]). client_id f = client_id e} = ?S"
      using d by auto
    then have "map_of ?ids (client_id e) = Some (Max (client_seq ` ?S))"
      using True ms by (simp add: map_of_filter_key)
    then have "acked ?ids e \<longleftrightarrow> client_seq e \<le> Max (client_seq ` ?S)"
      by (simp add: acked_def lookup0_def lk)
    moreover have "finite (client_seq ` ?S)" "client_seq ` ?S \<noteq> {}" using True by auto
    ultimately show ?thesis
      using True by (auto simp: Max_ge_iff)
  next
    case False
    then have "map_of ?ids (client_id e) = None"
      using d ms by (cases "client_id e = 0") (auto simp: map_of_filter_key map_of_eq_None_iff)
    then show ?thesis
      using False by (auto simp: acked_def lookup0_def lk image_iff)
  qed
qed

lemma length_maxSeq: "length (maxSeqForClient es) \<le> length es"
proof -
  note ms = maxSeqForClient_spec [of es]
  have "distinct (map fst (maxSeqForClient es))"
    using ms strict_sorted_iff by blast
  then have "length (maxSeqForClient es) = card (fst ` set (maxSeqForClient es))"
    using distinct_card [of "map fst (maxSeqForClient es)"] by simp
  also have "fst ` set (maxSeqForClient es) \<subseteq> client_id ` set es"
    using ms by (metis (no_types, lifting) map_of_eq_None_iff option.simps(3) subsetI)
  then have "card (fst ` set (maxSeqForClient es)) \<le> card (client_id ` set es)"
    by (intro card_mono) simp_all
  also have "\<dots> \<le> length es"
    using card_image_le [of "set es" client_id] card_length [of es] by simp
  finally show ?thesis .
qed

lemma ProcessFetchedEntries_backup:
  assumes "\<not> IsPrimary c" "fs \<noteq> []"
  shows "ProcessFetchedEntries c (fs @ [d]) [] =
    Some (log_idx (last fs), filter (\<lambda>cs. fst cs \<noteq> 0) (maxSeqForClient (fs @ [d])))"
  using assms by (simp add: ProcessFetchedEntries_def Let_def nth_append last_conv_nth)

text \<open>C26. After a fetch the consensus log tells each backup the largest client sequence number it fetched
  per client. These acknowledgements cover every fetched entry of a client, and they cover an entry of the
  same client only up to the largest sequence number fetched from it: with the garbage collection of the
  backups, fetched entries are deleted and a later one is never deleted before it was fetched.\<close>

theorem ProcessFetchedEntries_acks:
  assumes "\<not> IsPrimary c" "fs \<noteq> []" "client_id d = 0" "\<forall>f\<in>set fs. client_id f \<noteq> 0"
  shows "\<exists>ids. ProcessFetchedEntries c (fs @ [d]) [] = Some (log_idx (last fs), ids) \<and>
    (\<forall>e. client_id e \<in> client_id ` set fs \<longrightarrow>
      (acked ids e \<longleftrightarrow> (\<exists>f\<in>set fs. client_id f = client_id e \<and> client_seq e \<le> client_seq f)))"
  using ProcessFetchedEntries_backup [OF assms(1, 2), of d] acked_maxSeq [OF assms(3), of fs] assms(4)
  by (auto simp: image_iff)

lemma flat_inv_watermarks:
  assumes inv: "flat_inv st es k" and j: "j \<le> length es"
  shows "flat_inv (set_ordered_idx_watermk (of_nat j) (set_ordered_watermk (of_nat (pos es j)) st)) es j"
    (is "flat_inv ?st' es j")
proof -
  note I = flat_invD [OF inv]
  define st1 where "st1 = set_ordered_watermk (of_nat (pos es j)) st"
  have "flat_geometry st1" "in_memory st1 es" "control_addr st1 = control_addr st"
    using I(1) in_memory_control [OF I(1, 2, 4), of "control_addr st + 8" st1 "of_nat (pos es j)"]
    by (simp_all add: st1_def set_ordered_watermk_def flat_geometry_def)
  then have "in_memory ?st' es"
    using in_memory_control [OF _ I(2), of st1 "control_addr st1 + 16" ?st' "of_nat j"]
    by (simp add: st1_def [symmetric] set_ordered_idx_watermk_def)
  moreover have "32 * length es < 2 ^ 64"
    using tsz_ge_length [of es] I(9) by linarith
  then have "unat (of_nat j :: u64) = j"
    using j by (intro unat_of_nat_small) simp
  moreover have "unat (of_nat (pos es j) :: u64) = pos es j"
    using I(9) pos_le_tsz [of es j] by (intro unat_of_nat_small) simp
  moreover have "sequencer ?st' = sequencer st" "indexer ?st' = indexer st"
    "ordered_watermk ?st' = of_nat (pos es j)" "ordered_idx_watermk ?st' = of_nat j"
    "is_primary ?st' = is_primary st" "flat_geometry ?st' = flat_geometry st"
    "indexed ?st' es = indexed st es" "registered ?st' es = registered st es"
    by (simp_all add: sequencer_def indexer_def ordered_watermk_def ordered_idx_watermk_def indexed_def registered_def
        set_ordered_watermk_def set_ordered_idx_watermk_def flat_geometry_def)
  ultimately show ?thesis
    using inv I j by (simp add: flat_inv_def)
qed

lemma FlatCli_Delete_primary:
  assumes "rdma_ok q" "connected c st" "flat_geometry st" "IsPrimary c" "seqs = [(a, x), (b, y)]"
  shows "\<exists>c'. FlatCli_DeleteOrderedEntries q net c seqs st =
    Some (a, c', set_ordered_idx_watermk b (set_ordered_watermk a st))"
proof -
  let ?g = "unat (mr_offset_for_gc c)"
  let ?m = "put_le (put_le (mr c) ?g a) (?g + 8) b"
  have ad: "unat (rg_size st + SAFE_RG_SIZE + 8) = control_addr st + 8"
    using assms(3) unat_control [OF assms(3)]
    by (subst unat_add_small) (simp_all add: flat_geometry_def control_addr_eq)
  have pr: "put_le (put_le m x a) (x + 8) b = write_bytes m x (le_bytes a @ le_bytes b)" for m x
    using write_bytes_append [of m x "le_bytes a" "le_bytes b"] by (simp add: put_le_def)
  have w: "rd_write q l lo r ro n = write_bytes r ro (bytes_at l lo n)" for l lo r ro n
    using assms(1) by (simp add: rdma_ok_def)
  have "rd_write q ?m ?g (mem_rg_raw st) (control_addr st + 8) 16 =
      put_le (put_le (mem_rg_raw st) (control_addr st + 8) a) (control_addr st + 8 + 8) b"
    unfolding pr w by simp
  moreover have "control_addr st + 8 + 8 = control_addr st + 16" by simp
  ultimately have "rd_write q ?m ?g (mem_rg_raw st) (control_addr st + 8) 16 =
      put_le (put_le (mem_rg_raw st) (control_addr st + 8) a) (control_addr st + 16) b"
    by (simp only:)
  then show ?thesis
    using assms(2, 4, 5)
    by (simp add: FlatCli_DeleteOrderedEntries_def ad Let_def set_ordered_watermk_def set_ordered_idx_watermk_def)
qed

lemma ProcessFetchedEntries_primary:
  assumes "IsPrimary c" "numbered es" "0 < n" "k + n \<le> length es" "client_seq d = of_nat (pos es (k + n))"
  shows "ProcessFetchedEntries c (take n (drop k es) @ [d]) [] =
    Some (of_nat (k + n - 1), [(of_nat (pos es (k + n)), 0), (of_nat (k + n), 0)])"
proof -
  have l: "length (take n (drop k es)) = n" using assms(4) by simp
  have "(take n (drop k es) @ [d]) ! (Suc n - 2) = es ! (k + n - 1)"
    using assms(3, 4) l by (simp add: nth_append)
  moreover have "(of_nat (k + n - 1) + 1 :: u64) = of_nat (k + n)"
    using assms(3) by (simp add: of_nat_diff)
  ultimately show ?thesis
    using assms l by (simp add: ProcessFetchedEntries_def Let_def numbered_def)
qed

text \<open>Garbage collection on the primary. After a fetch of \<open>n\<close> entries behind the watermark, the
  acknowledgement that \<^verbatim>\<open>ProcessFetchedEntries\<close> builds and \<^verbatim>\<open>DeleteOrderedEntries\<close> writes to the
  memory of the primary moves both watermarks past exactly these \<open>n\<close> entries, and changes nothing else:
  afterwards the log is the same with \<open>n\<close> more ordered entries.\<close>

theorem FlatCli_collect_primary:
  assumes "rdma_ok q" "connected c st" "IsPrimary c" "flat_inv st es k" "0 < n" "k + n \<le> length es"
    and "client_seq d = of_nat (pos es (k + n))"
  shows "\<exists>ids c' st'. ProcessFetchedEntries c (take n (drop k es) @ [d]) [] = Some (of_nat (k + n - 1), ids) \<and>
    FlatCli_DeleteOrderedEntries q net c ids st = Some (of_nat (pos es (k + n)), c', st') \<and>
    flat_inv st' es (k + n) \<and> is_primary st' = is_primary st \<and> rg_size st' = rg_size st"
proof -
  note I = flat_invD [OF assms(4)]
  note p = ProcessFetchedEntries_primary [OF assms(3) I(2) assms(5-7)]
  obtain c' where "FlatCli_DeleteOrderedEntries q net c [(of_nat (pos es (k + n)), 0), (of_nat (k + n), 0)] st =
      Some (of_nat (pos es (k + n)), c', set_ordered_idx_watermk (of_nat (k + n)) (set_ordered_watermk (of_nat (pos es (k + n))) st))"
    using FlatCli_Delete_primary [OF assms(1, 2) I(1) assms(3)] by blast
  with p flat_inv_watermarks [OF assms(4, 6)] show ?thesis
    by (auto simp: set_ordered_watermk_def set_ordered_idx_watermk_def)
qed

section \<open>Calls over RPC\<close>

lemma call_served:
  assumes "serves net t h"
    and "\<And>req'. same_msg (resize_msg_buffer ((req_buf c)\<lparr>buf := m\<rparr>) len) req' \<Longrightarrow>
      \<exists>resp. h req' s = Some (resp, s') \<and> P resp"
  shows "\<exists>resp r c'. P resp \<and> same_msg resp r \<and> call net t c m len s = Some (r, c', s')"
proof -
  let ?req = "resize_msg_buffer ((req_buf c)\<lparr>buf := m\<rparr>) len"
  obtain req' resp r where "P resp" "same_msg resp r" "net t ?req s = Some (r, s')"
    using serves_Some [OF assms(1), of ?req s "\<lambda>_. s'" "\<lambda>_. P"] assms(2) by blast
  then show ?thesis
    by (auto simp: call_def Let_def)
qed

text \<open>A message with one entry, and what a server does on it.\<close>

definition entry_msg :: "LogEntry \<Rightarrow> MsgBuffer \<Rightarrow> bool" where
  "entry_msg e req \<longleftrightarrow> entry_at (buf req) 0 e \<and> data_size req = esz e"

lemma entry_msg_Serializer:
  assumes "wf_entry e"
  shows "entry_msg e (resize_msg_buffer (b\<lparr>buf := fst (Serializer e m 0)\<rparr>) (unat (snd (Serializer e m 0))))"
  using entry_at_Serializer [of e m 0] ew.put_size [OF assms, of m 0] by (simp add: entry_msg_def resize_msg_buffer_def)

lemma entry_msg_same: "entry_msg e req \<Longrightarrow> same_msg req req' \<Longrightarrow> entry_msg e req'"
  using same_msg_entry_at [of req req' 0 e] esz_bounds(1) [of e] by (simp add: entry_msg_def same_msg_def)

lemma AppendEntryHandler_ok:
  assumes inv: "flat_inv st es k" and req: "entry_msg e req"
    and e: "wf_entry e" "flags e \<noteq> 0" "esz e \<le> unat SAFE_RG_SIZE" "tsz es + esz e < 2 ^ 64"
    and room: "262144 \<le> unat (rg_size st)" "tsz es + esz e - pos es k + 262144 < unat (rg_size st)"
  defines "e' \<equiv> e\<lparr>log_idx := of_nat (length es), view := dl_view st, flags := 1\<rparr>"
  shows "\<exists>resp. AppendEntryHandler resp0 req st = Some (resp, append_state st e') \<and>
      get_le (buf resp) 0 = (of_nat (tsz es) :: u64) \<and> data_size resp = 8"
    and "flat_inv (append_state st e') (es @ [e']) k"
proof -
  have e0: "wf_entry (e\<lparr>flags := 0\<rparr>)" "esz (e\<lparr>flags := 0\<rparr>) = esz e" "GetSize (e\<lparr>flags := 0\<rparr>) = GetSize e"
    using e(1) by (simp_all add: wf_entry_def esz_def GetSize_def)
  have nw: "\<not> waitForPlace_waits st (GetSize (e\<lparr>flags := 0\<rparr>))"
    using waits_iff [OF inv e(1, 4) room(1)] room(2) e0(3) by auto
  have up: "e\<lparr>flags := 0, log_idx := i, view := v, flags := 1\<rparr> = e\<lparr>log_idx := i, view := v, flags := 1\<rparr>" for i v
    by simp
  have app: "AppendEntry st (e\<lparr>flags := 0\<rparr>) = Some (of_nat (tsz es), (e\<lparr>flags := 0, log_idx := of_nat (length es), view := dl_view st\<rparr>), append_state st e')"
    and inv': "flat_inv (append_state st e') (es @ [e']) k"
    using AppendEntry_ok [OF inv e0(1) _ _ nw] e(3, 4) e0(2) by (simp_all add: e'_def)
  have "Deserializer LogEntry_new (buf req) 0 = (e, of_nat (esz e))"
    using req by (intro Deserializer_entry [OF _ e(1, 2)]) (simp add: entry_msg_def)
  then show "\<exists>resp. AppendEntryHandler resp0 req st = Some (resp, append_state st e') \<and>
      get_le (buf resp) 0 = (of_nat (tsz es) :: u64) \<and> data_size resp = 8"
    by (simp add: AppendEntryHandler_def Let_def app resize_msg_buffer_def)
  show "flat_inv (append_state st e') (es @ [e']) k" by (rule inv')
qed

lemma ERPCCli_AppendEntry_ok:
  assumes net: "serves net APPEND_ENTRY (AppendEntryHandler resp0)" and inv: "flat_inv st es k"
    and e: "wf_entry e" "flags e \<noteq> 0" "esz e \<le> unat SAFE_RG_SIZE" "tsz es + esz e < 2 ^ 64"
    and room: "262144 \<le> unat (rg_size st)" "tsz es + esz e - pos es k + 262144 < unat (rg_size st)"
  shows "\<exists>c' st'. ERPCCli_AppendEntry net c e st = Some (of_nat (tsz es), c', st') \<and> IsPrimary c' = IsPrimary c \<and>
    flat_inv st' (es @ [e\<lparr>log_idx := of_nat (length es), view := dl_view st, flags := 1\<rparr>]) k"
proof -
  let ?e = "e\<lparr>log_idx := of_nat (length es), view := dl_view st, flags := 1\<rparr>"
  let ?m = "fst (Serializer e (buf (req_buf c)) 0)" and ?len = "unat (snd (Serializer e (buf (req_buf c)) 0))"
  note msg = entry_msg_Serializer [OF e(1), where b = "req_buf c" and m = "buf (req_buf c)"]
  have "\<exists>resp. AppendEntryHandler resp0 req' st = Some (resp, append_state st ?e) \<and>
      get_le (buf resp) 0 = (of_nat (tsz es) :: u64) \<and> data_size resp = 8"
    if "same_msg (resize_msg_buffer ((req_buf c)\<lparr>buf := ?m\<rparr>) ?len) req'" for req'
    by (rule AppendEntryHandler_ok(1) [OF inv entry_msg_same [OF msg that] e room])
  from call_served [OF net this]
  obtain resp r c' where r: "get_le (buf resp) 0 = (of_nat (tsz es) :: u64)" "data_size resp = 8" "same_msg resp r"
    "call net APPEND_ENTRY c ?m ?len st = Some (r, c', append_state st ?e)" by blast
  then have "get_le (buf r) 0 = (of_nat (tsz es) :: u64)"
    using same_msg_get_le [OF r(3), of 0, where ?'a = 64] by simp
  moreover have "IsPrimary c' = IsPrimary c"
    using r(4) by (auto simp: call_def IsPrimary_def Let_def split: option.splits)
  ultimately show ?thesis
    using r(4) AppendEntryHandler_ok(2) [OF inv msg e room] by (simp add: ERPCCli_AppendEntry_def case_prod_beta)
qed

text \<open>Appending through the client stub: when the server has room, the call returns the position that the
  server assigned, and the server afterwards holds the entry with the payload and the request id that the
  client sent, under the next index. The flags of the request must not be 0, since the server would
  otherwise not read the payload; the server publishes its own flag.\<close>

theorem ERPCCli_AppendEntry_appends:
  assumes net: "serves net APPEND_ENTRY (AppendEntryHandler resp0)" and inv: "flat_inv st es k"
    and e: "wf_entry e" "flags e \<noteq> 0" "esz e \<le> unat SAFE_RG_SIZE" "tsz es + esz e < 2 ^ 64"
    and room: "262144 \<le> unat (rg_size st)" "tsz es + esz e - pos es k + 262144 < unat (rg_size st)"
  shows "\<exists>c' st'. ERPCCli_AppendEntry net c e st = Some (of_nat (tsz es), c', st') \<and>
    flat_inv st' (es @ [e\<lparr>log_idx := of_nat (length es), view := dl_view st, flags := 1\<rparr>]) k"
  using ERPCCli_AppendEntry_ok [OF assms, of c] by blast

text \<open>A speculative read through the client stub returns what the log of the server answers: the same
  code for a miss, the same entry and size for a hit. The client tells the two apart by the length of the
  response.\<close>

theorem ERPCCli_SpecRead_agrees:
  assumes net: "serves net SPEC_READ (SpecReadHandler resp0)"
    and ans: "SpecReadEntry st idx LogEntry_new = (v, e)"
    and v: "v \<in> {- 2, - 1, 0} \<or> v = int (esz e) \<and> stored_ok e"
  shows "\<exists>c'. ERPCCli_SpecRead net c idx d st = Some (v, if v \<le> 0 then d else e, c', st)"
proof -
  let ?m = "put_le (buf (req_buf c)) 0 idx"
  let ?P = "\<lambda>resp. if v \<le> 0 then data_size resp = 4 \<and> get_le (buf resp) 0 = (of_int v :: u32)
    else data_size resp = esz e \<and> entry_at (buf resp) 0 e"
  have h: "\<exists>resp. SpecReadHandler resp0 req' st = Some (resp, st) \<and> ?P resp"
    if "same_msg (resize_msg_buffer ((req_buf c)\<lparr>buf := ?m\<rparr>) 8) req'" for req'
  proof -
    have "get_le (buf req') 0 = idx"
      using same_msg_get_le [OF that, of 0, where ?'a = 64] by (simp add: resize_msg_buffer_def)
    moreover have "\<not> v \<le> 0 \<Longrightarrow> unat (snd (Serializer e (buf resp0) 0)) = esz e"
      using v ew.put_size [of e "buf resp0" 0] by (auto simp: stored_ok_def)
    ultimately show ?thesis
      using ans entry_at_Serializer [of e "buf resp0" 0]
      by (auto simp: SpecReadHandler_def Let_def case_prod_beta resize_msg_buffer_def)
  qed
  from call_served [OF net h]
  obtain resp r c' where r: "?P resp" "same_msg resp r" "call net SPEC_READ c ?m 8 st = Some (r, c', st)" by blast
  show ?thesis
  proof (cases "v \<le> 0")
    case True
    then have "v \<in> {- 2, - 1, 0}" using v by (auto simp: esz_def)
    then have "sint (of_int v :: u32) = v" by auto
    moreover have "get_le (buf r) 0 = (of_int v :: u32)" "data_size r = 4"
      using same_msg_get_le [OF r(2), of 0, where ?'a = 32] r(1, 2) True by (auto simp: same_msg_def)
    ultimately show ?thesis
      using r(3) True by (simp add: ERPCCli_SpecRead_def MetaDataSize_def FlagPos_def)
  next
    case False
    then have ok: "v = int (esz e)" "stored_ok e" using v by auto
    have "entry_at (buf r) 0 e" "data_size r = esz e"
      using same_msg_entry_at [OF r(2), of 0 e] esz_bounds(1) [of e] r(1, 2) False by (auto simp: same_msg_def)
    then have "Deserializer d (buf r) 0 = (e, of_nat (esz e))" "\<not> data_size r < 32"
      using Deserializer_entry [of "buf r" 0 e d] ok(2) esz_bounds(1) [of e] by (auto simp: stored_ok_def)
    moreover have "sint (ucast (of_nat (esz e) :: u64) :: u32) = int (esz e)"
      using ok(2) by (intro sint_ucast_of_nat) (simp add: stored_ok_def SAFE_RG_SIZE_def PAGE_SIZE_def)
    ultimately show ?thesis
      using r(3) False ok(1) by (simp add: ERPCCli_SpecRead_def MetaDataSize_def FlagPos_def)
  qed
qed

lemma DeleteOrderedEntries_request:
  assumes ans: "DelOrderedEntries st ids = Some (n, st')" and len: "length ids < 2 ^ 32"
    and req: "same_msg (resize_msg_buffer (r\<lparr>buf := fst (ReqIdSerializer ids m 0)\<rparr>) (unat (snd (ReqIdSerializer ids m 0)))) req'"
  shows "\<exists>resp. DeleteOrderedEntriesHandler resp0 req' st = Some (resp, st') \<and>
    get_le (buf resp) 0 = (ucast n :: u64) \<and> data_size resp = 8"
proof -
  note img = ReqIdSerializer_image [OF len, of m 0]
  have l: "unat (snd (ReqIdSerializer ids m 0)) = 4 + 16 * length ids"
    unfolding img(3) using len by (intro unat_of_nat_small) simp
  have "get_le (buf req') 0 = (of_nat (length ids) :: u32)"
    using same_msg_get_le [OF req, of 0, where ?'a = 32] img(1) l by (simp add: resize_msg_buffer_def)
  moreover have "chain reqid_at (\<lambda>_. 16) (buf req') (0 + 4) ids"
    by (rule rw.chain_frame [OF _ img(2)])
      (use req l in \<open>auto simp: same_msg_def resize_msg_buffer_def sum_list_triv list_all_iff\<close>)
  ultimately have "ReqIdDeserializer [] (buf req') 0 = (ids, 4 + of_nat (16 * length ids))"
    using ReqIdDeserializer_batch [of "buf req'" 0 ids "[]"] len by simp
  then show ?thesis
    by (simp add: DeleteOrderedEntriesHandler_def Let_def ans resize_msg_buffer_def)
qed

text \<open>Garbage collection through the client stub: when \<^verbatim>\<open>DelOrderedEntries\<close> of the server returns for the
  given request ids, the call leaves the server exactly in the state of the local call and returns the same
  number of deleted entries; no request id is lost or altered on the way.\<close>

theorem ERPCCli_DeleteOrderedEntries_agrees:
  assumes net: "serves net DEL_ORDERED_ENTRIES (DeleteOrderedEntriesHandler resp0)"
    and ans: "DelOrderedEntries st ids = Some (n, st')" and len: "length ids < 2 ^ 32"
  shows "\<exists>c'. ERPCCli_DeleteOrderedEntries net c ids st = Some (ucast n, c', st')"
proof -
  let ?m = "fst (ReqIdSerializer ids (buf (req_buf c)) 0)" and ?len = "unat (snd (ReqIdSerializer ids (buf (req_buf c)) 0))"
  note h = DeleteOrderedEntries_request [OF ans len, where r = "req_buf c" and m = "buf (req_buf c)" and ?resp0.0 = resp0]
  from call_served [OF net h]
  obtain resp r c' where r: "get_le (buf resp) 0 = (ucast n :: u64)" "data_size resp = 8" "same_msg resp r"
    "call net DEL_ORDERED_ENTRIES c ?m ?len st = Some (r, c', st')" by blast
  then have "get_le (buf r) 0 = (ucast n :: u64)" "data_size r = 8"
    using same_msg_get_le [OF r(3), of 0, where ?'a = 64] by (simp_all add: same_msg_def)
  then show ?thesis
    using r(4) by (simp add: ERPCCli_DeleteOrderedEntries_def case_prod_beta)
qed

section \<open>Asynchronous deletion\<close>

definition same_conn :: "DurabilityLogFlatCli \<Rightarrow> DurabilityLogFlatCli \<Rightarrow> bool" where
  "same_conn c c' \<longleftrightarrow> IsPrimary c' = IsPrimary c \<and> remote_size c' = remote_size c"

lemma same_connD: "same_conn c c' \<Longrightarrow> IsPrimary c' = IsPrimary c" "same_conn c c' \<Longrightarrow> connected c' st = connected c st"
  by (simp_all add: same_conn_def connected_def)

text \<open>The asynchronous deletion, once completed, does to the server what the blocking one does: it changes the
  server in the same way, and neither returns when the other does not.\<close>

theorem FlatCli_DeleteOrderedEntriesAsync_equiv:
  "(case FlatCli_DeleteOrderedEntriesAsync c seqs of
      None \<Rightarrow> None
    | Some (c1, d) \<Rightarrow> map_option snd (complete_deletion q net d c1 st)) =
   map_option (\<lambda>(_, _, st'). st') (FlatCli_DeleteOrderedEntries q net c seqs st)"
  by (auto simp: FlatCli_DeleteOrderedEntriesAsync_def FlatCli_DeleteOrderedEntries_def complete_deletion_def Let_def
      ERPCCli_DeleteOrderedEntriesAsync_def ERPCCli_DeleteOrderedEntries_def call_def split: option.split prod.split)

lemma async_delete_primary:
  assumes "rdma_ok q" "connected c st" "flat_geometry st" "IsPrimary c"
  shows "\<exists>c1 d. FlatCli_DeleteOrderedEntriesAsync c [(a, x), (b, y)] = Some (c1, d) \<and> same_conn c c1 \<and>
    complete_deletion q net d c1 st = Some (c1, set_ordered_idx_watermk b (set_ordered_watermk a st))"
  using FlatCli_Delete_primary [OF assms(1-4), of "[(a, x), (b, y)]" a x b y net] assms(4)
  by (auto simp: FlatCli_DeleteOrderedEntriesAsync_def FlatCli_DeleteOrderedEntries_def complete_deletion_def Let_def
      same_conn_def IsPrimary_def)

lemma async_delete_backup:
  assumes net: "serves net DEL_ORDERED_ENTRIES (DeleteOrderedEntriesHandler resp0)"
    and ans: "DelOrderedEntries st ids = Some (n, st')" and len: "length ids < 2 ^ 32" and c: "\<not> IsPrimary c"
  shows "\<exists>c1 d c2. FlatCli_DeleteOrderedEntriesAsync c ids = Some (c1, d) \<and>
    complete_deletion q net d c1 st = Some (c2, st') \<and> same_conn c c2"
proof -
  let ?req = "resize_msg_buffer ((req_buf c)\<lparr>buf := fst (ReqIdSerializer ids (buf (req_buf c)) 0)\<rparr>)
    (unat (snd (ReqIdSerializer ids (buf (req_buf c)) 0)))"
  obtain r where "net DEL_ORDERED_ENTRIES ?req st = Some (r, st')"
    using serves_Some [OF net, of ?req st "\<lambda>_. st'" "\<lambda>_ _. True"] DeleteOrderedEntries_request [OF ans len] by blast
  then show ?thesis
    using c by (auto simp: FlatCli_DeleteOrderedEntriesAsync_def ERPCCli_DeleteOrderedEntriesAsync_def complete_deletion_def
        Let_def case_prod_beta same_conn_def IsPrimary_def)
qed

text \<open>Client sessions and server threads. With \<open>n\<close> server threads, at most 63 of them, every application client
  connects to the identifier of one of the threads (128 to 127 + n), never to the identifier reserved for the
  consensus log, whatever its configured id or its counter; the consensus log always connects to the reserved one.\<close>

theorem DL_remote_rpc_id_served:
  assumes "0 < n" "unat n \<le> 63"
  shows "unat (DL_remote_rpc_id False cid cnt n) \<in> {128 ..< 128 + unat n} \<and>
    DL_remote_rpc_id False cid cnt n \<noteq> DL_RSV_RPCID \<and> DL_remote_rpc_id True cid cnt n = DL_RSV_RPCID"
proof -
  let ?x = "case cid of Some c \<Rightarrow> c mod n | None \<Rightarrow> ucast cnt mod n"
  have x: "unat ?x < unat n"
    using assms(1) by (auto split: option.split simp: word_less_nat_alt unat_mod_distrib)
  have "unat (128 + ?x) = 128 + unat ?x"
    using x assms(2) by (subst unat_add_small) simp_all
  then have "unat (ucast (128 + ?x) :: byte) = 128 + unat ?x"
    using x assms(2) by (simp add: unsigned_ucast_eq take_bit_nat_eq_self)
  then have u: "unat (DL_remote_rpc_id False cid cnt n) = 128 + unat ?x"
    by (simp add: DL_remote_rpc_id_def DL_SVR_RPCID_OFFSET_def)
  moreover have "unat DL_RSV_RPCID = 191" by (simp add: DL_RSV_RPCID_def)
  ultimately show ?thesis
    using x assms(2) by (auto simp: DL_remote_rpc_id_def)
qed

section \<open>Witnesses\<close>

definition copy_rdma :: rdma where
  "copy_rdma =
     \<lparr>rd_read = \<lambda>l lo r ro n. write_bytes l lo (bytes_at r ro n),
      rd_read2 = \<lambda>l lo1 lo2 r ro1 ro2 n1 n2. write_bytes (write_bytes l lo1 (bytes_at r ro1 n1)) lo2 (bytes_at r ro2 n2),
      rd_write = \<lambda>l lo r ro n. write_bytes r ro (bytes_at l lo n)\<rparr>"

lemma copy_rdma_ok: "rdma_ok copy_rdma"
  by (simp add: rdma_ok_def copy_rdma_def)

definition sample_cli :: "bool \<Rightarrow> u64 \<Rightarrow> DurabilityLogFlatCli" where
  "sample_cli pr rg =
     \<lparr>cli_is_primary = pr, req_buf = \<lparr>buf = \<lambda>_. 0, data_size = 0\<rparr>, resp_buf = \<lparr>buf = \<lambda>_. 0, data_size = 0\<rparr>,
      rpc_tkn = RPCToken_new, pending_reqs = [], mr = \<lambda>_. 0, mr_offset_for_gc = rg - PAGE_SIZE,
      remote_size = rg + SAFE_RG_SIZE + PAGE_SIZE, total_fetch_b = 0, total_fetch_n = 0\<rparr>"

lemma sample_cli_simps [simp]:
  "IsPrimary (sample_cli pr rg) = pr" "rg_size st = rg \<Longrightarrow> connected (sample_cli pr rg) st"
  by (simp_all add: sample_cli_def IsPrimary_def connected_def)

theorem FlatCli_FetchUnorderedEntries_correct_witness:
  "\<exists>(st :: DurabilityLogFlat) c'. FlatCli_FetchUnorderedEntries copy_rdma (sample_cli True 1048576) (mem_rg_raw st) [] 32 0 =
      Some (64, [sample_entry 1, sample_entry 2, LogEntry_new\<lparr>client_seq := 96\<rparr>], c')"
proof -
  obtain st where st: "flat_inv st (map sample_entry [0..<3]) 0" "rg_size st = 1048576"
    using running_log [of 1048576 3 True] by auto
  let ?es = "map sample_entry [0..<3]"
  note I = flat_invD [OF st(1)]
  have l: "?es = [sample_entry 0, sample_entry 1, sample_entry 2]"
    by (simp add: upt_rec numeral_2_eq_2)
  have p: "pos ?es 1 = 32" "pos ?es 0 = 0" "tsz ?es = 96"
    unfolding l by (simp_all add: pos_def)
  have wm: "ordered_watermk st = 0" "sequencer st = 96"
    using I(5, 7) p word_eq_of_nat [of "sequencer st" 96] by (simp_all add: unat_eq_0)
  have v: "valid (sample_entry i)" for i by (simp add: valid_def sample_entry_def)
  have fs: "fit_prefix 64 (drop 1 ?es) = [sample_entry 1, sample_entry 2]"
    unfolding l by (simp add: v)
  have "\<exists>c'. FlatCli_FetchUnorderedEntries copy_rdma (sample_cli True 1048576) (mem_rg_raw st) [] 32 0 =
      Some (64, [sample_entry 1, sample_entry 2, LogEntry_new\<lparr>client_seq := 96\<rparr>], c')"
    using FlatCli_FetchUnorderedEntries_correct [OF copy_rdma_ok _ st(1), where c = "sample_cli True 1048576"
        and i = 1 and frm = 32 and mx = 0 and acc = "[]"]
      st(2) p wm fs by (auto simp: max_def)
  then show ?thesis by blast
qed

theorem ProcessFetchedEntries_acks_witness:
  "\<exists>ids. ProcessFetchedEntries (sample_cli False 1048576) ([sample_entry 3, sample_entry 5] @ [LogEntry_new]) [] =
      Some (5, ids) \<and> acked ids (sample_entry 4) \<and> \<not> acked ids (sample_entry 6)"
proof -
  have "\<forall>f\<in>set [sample_entry 3, sample_entry 5]. client_id f \<noteq> 0" "client_id LogEntry_new = 0"
    by (simp_all add: sample_entry_def LogEntry_new_def)
  then obtain ids where "ProcessFetchedEntries (sample_cli False 1048576) ([sample_entry 3, sample_entry 5] @ [LogEntry_new]) [] =
      Some (log_idx (last [sample_entry 3, sample_entry 5]), ids)"
    and a: "\<forall>e. client_id e \<in> client_id ` set [sample_entry 3, sample_entry 5] \<longrightarrow>
      (acked ids e \<longleftrightarrow> (\<exists>f\<in>set [sample_entry 3, sample_entry 5]. client_id f = client_id e \<and> client_seq e \<le> client_seq f))"
    using ProcessFetchedEntries_acks [of "sample_cli False 1048576" "[sample_entry 3, sample_entry 5]" LogEntry_new] by auto
  moreover have "acked ids (sample_entry 4)" "\<not> acked ids (sample_entry 6)"
    using a by (simp_all add: sample_entry_def LogEntry_new_def)
  ultimately show ?thesis by simp
qed

theorem FlatCli_collect_primary_witness:
  "\<exists>st ids c' st'. ProcessFetchedEntries (sample_cli True 1048576)
      (take 2 (drop 0 (map sample_entry [0..<3])) @ [LogEntry_new\<lparr>client_seq := 64\<rparr>]) [] = Some (1, ids) \<and>
    FlatCli_DeleteOrderedEntries copy_rdma (\<lambda>_ _ _. None) (sample_cli True 1048576) ids st = Some (64, c', st') \<and>
    flat_inv st' (map sample_entry [0..<3]) 2"
proof -
  obtain st where st: "flat_inv st (map sample_entry [0..<3]) 0" "rg_size st = 1048576"
    using running_log [of 1048576 3 True] by auto
  have "pos (map sample_entry [0..<3]) 2 = 64"
    by (simp add: pos_def upt_rec take_map)
  then show ?thesis
    using FlatCli_collect_primary [OF copy_rdma_ok _ _ st(1), of "sample_cli True 1048576" 2 "LogEntry_new\<lparr>client_seq := 64\<rparr>" "\<lambda>_ _ _. None"]
      st(2) by (intro exI [of _ st]) (auto simp: numeral_2_eq_2)
qed

theorem ERPCCli_AppendEntry_appends_witness:
  "\<exists>c' st'. ERPCCli_AppendEntry (\<lambda>t. AppendEntryHandler \<lparr>buf = \<lambda>_. 0, data_size = 0\<rparr>) (sample_cli True 1048576)
      ((LogEntry_of [1, 2, 3])\<lparr>flags := 1\<rparr>) (fresh_log True 1048576) = Some (0, c', st')"
proof -
  let ?e = "(LogEntry_of [1, 2, 3])\<lparr>flags := 1\<rparr>"
  have "wf_entry ?e" "esz ?e = 36" "flags ?e \<noteq> 0"
    by (simp_all add: wf_entry_def LogEntry_of_def LogEntry_new_def esz_def align4_def)
  then show ?thesis
    using ERPCCli_AppendEntry_appends [OF serves_self [of "AppendEntryHandler \<lparr>buf = \<lambda>_. 0, data_size = 0\<rparr>"],
        of "fresh_log True 1048576" "[]" 0 ?e "sample_cli True 1048576"] fresh_log_inv [of 1048576 True]
    by (auto simp: SAFE_RG_SIZE_def PAGE_SIZE_def)
qed

theorem ERPCCli_SpecRead_agrees_witness:
  "\<exists>c'. ERPCCli_SpecRead (\<lambda>t. SpecReadHandler \<lparr>buf = \<lambda>_. 0, data_size = 0\<rparr>) (sample_cli True 1048576) 0 LogEntry_new
      (fresh_log True 1048576) = Some (- 1, LogEntry_new, c', fresh_log True 1048576)"
proof -
  have "SpecReadEntry (fresh_log True 1048576) 0 LogEntry_new = (- 1, LogEntry_new)"
    by (simp add: SpecReadEntry_def)
  from ERPCCli_SpecRead_agrees [OF serves_self [of "SpecReadHandler \<lparr>buf = \<lambda>_. 0, data_size = 0\<rparr>"] this,
      of "sample_cli True 1048576" LogEntry_new]
  show ?thesis by simp
qed

theorem ERPCCli_DeleteOrderedEntries_agrees_witness:
  "\<exists>c'. ERPCCli_DeleteOrderedEntries (\<lambda>t. DeleteOrderedEntriesHandler \<lparr>buf = \<lambda>_. 0, data_size = 0\<rparr>)
      (sample_cli False 1048576) [(7, 1), (9, 4)] (fresh_log True 1048576) = Some (0, c', fresh_log True 1048576)"
proof -
  have "DelOrderedEntries (fresh_log True 1048576) [(7, 1), (9, 4)] = Some (0, fresh_log True 1048576)"
    by (simp add: DelOrderedEntries_def delEntriesPrimary_def)
  from ERPCCli_DeleteOrderedEntries_agrees [OF serves_self [of "DeleteOrderedEntriesHandler \<lparr>buf = \<lambda>_. 0, data_size = 0\<rparr>"] this,
      of "sample_cli False 1048576"]
  show ?thesis by simp
qed

theorem DL_remote_rpc_id_served_witness:
  "unat (DL_remote_rpc_id False (Some 10) 0 4) \<in> {128 ..< 132} \<and> DL_remote_rpc_id False None 255 4 \<noteq> DL_RSV_RPCID"
  using DL_remote_rpc_id_served [of 4 "Some 10" 0] DL_remote_rpc_id_served [of 4 None 255] by simp

end
