(* ===== verification/Shard_Client.thy ===== *)
theory Shard_Client
  imports Rpc
begin

text \<open>
  The RPC stubs with which the consensus log, the readers and the shard primaries talk to a storage shard, from
  \<^verbatim>\<open>src/src/cons_log/storage/shard_client.cc\<close>. An asynchronous stub fills the request buffer of the client and
  gives the request that it enqueues (type and message); the caller hands the request to the network when it
  waits for the completion. A client has one request buffer, so it can have one outstanding request.
\<close>

section \<open>The model\<close>

record ShardClient =
  sc_req :: MsgBuffer
  sc_resp :: MsgBuffer

type_synonym request = "byte \<times> MsgBuffer"

definition APPEND_ENTRY_BE :: byte where "APPEND_ENTRY_BE = 26"

definition SHD_rpc_id :: "u32 option \<Rightarrow> byte" where
  "SHD_rpc_id param = (case param of None \<Rightarrow> 0 | Some th \<Rightarrow> ucast th)"

definition enqueue :: "ShardClient \<Rightarrow> byte \<Rightarrow> mem \<Rightarrow> nat \<Rightarrow> ShardClient \<times> request" where
  "enqueue c t m len = (let req = resize_msg_buffer ((sc_req c)\<lparr>buf := m\<rparr>) len in (c\<lparr>sc_req := req\<rparr>, (t, req)))"

definition AppendBatchAsync_num ::
  "ShardClient \<Rightarrow> LogEntry list \<Rightarrow> u64 \<Rightarrow> u32 \<Rightarrow> (ShardClient \<times> request) option" where
  "AppendBatchAsync_num c es from num =
     (case MultiSerializer_num es from num (buf (sc_req c)) 0 False of
        None \<Rightarrow> None
      | Some (m, len) \<Rightarrow> Some (enqueue c APPEND_BATCH m (unat len)))"

definition AppendBatchAsync ::
  "ShardClient \<Rightarrow> LogEntry list \<Rightarrow> u64 \<Rightarrow> u64 \<Rightarrow> u32 \<Rightarrow> (u64 \<times> ShardClient \<times> request) option" where
  "AppendBatchAsync c es from to itrv =
     (case MultiSerializer_itrv es from to itrv (buf (sc_req c)) 0 of
        None \<Rightarrow> None
      | Some (m, actual_end, len) \<Rightarrow> Some (actual_end, enqueue c APPEND_BATCH m (unat len)))"

definition UpdateGlobalIdxAsync :: "ShardClient \<Rightarrow> u64 \<Rightarrow> ShardClient \<times> request" where
  "UpdateGlobalIdxAsync c idx = enqueue c UPDATE_GLBL_IDX (put_le (buf (sc_req c)) 0 idx) 8"

definition ReplicateBatchAsync :: "ShardClient \<Rightarrow> mem \<Rightarrow> nat \<Rightarrow> ShardClient \<times> request" where
  "ReplicateBatchAsync c b n = enqueue c REP_BATCH (write_bytes (buf (sc_req c)) 0 (bytes_at b 0 n)) n"

definition ShardClient_ReadEntry ::
  "'s net \<Rightarrow> ShardClient \<Rightarrow> u64 \<Rightarrow> LogEntry \<Rightarrow> 's \<Rightarrow> (bool \<times> LogEntry \<times> ShardClient \<times> 's) option" where
  "ShardClient_ReadEntry net c idx e s =
     (case enqueue c READ_ENTRY_BE (put_le (buf (sc_req c)) 0 idx) 8 of (c, t, req) \<Rightarrow>
        (case net t req s of
           None \<Rightarrow> None
         | Some (r, s) \<Rightarrow>
             let c = c\<lparr>sc_resp := r\<rparr>
             in if data_size r \<le> 4 then Some (False, e, c, s)
                else Some (True, fst (Deserializer e (buf r) 0), c, s)))"

definition ShardClient_AppendEntry ::
  "'s net \<Rightarrow> ShardClient \<Rightarrow> LogEntry \<Rightarrow> 's \<Rightarrow> (bool \<times> ShardClient \<times> 's) option" where
  "ShardClient_AppendEntry net c e s =
     (case Serializer e (buf (sc_req c)) 0 of (m, len) \<Rightarrow>
        (case enqueue c APPEND_ENTRY_BE m (unat len) of (c, t, req) \<Rightarrow>
           (case net t req s of
              None \<Rightarrow> None
            | Some (r, s) \<Rightarrow> Some (\<not> data_size r \<le> 4, c\<lparr>sc_resp := r\<rparr>, s))))"

definition allRPCCompleted :: "RPCToken list \<Rightarrow> bool" where
  "allRPCCompleted tokens = list_all Complete tokens"

section \<open>What a message carries\<close>

text \<open>\<open>batch_msg req xs\<close>: the message holds the entries \<open>xs\<close>, as \<^verbatim>\<open>MultiSerializer\<close> writes them.\<close>

definition batch_msg :: "MsgBuffer \<Rightarrow> LogEntry list \<Rightarrow> bool" where
  "batch_msg req xs \<longleftrightarrow> get_le (buf req) 0 = (of_nat (length xs) :: u32) \<and> entries_at (buf req) 4 xs \<and>
     data_size req = 4 + tsz xs \<and> list_all wf_entry xs \<and> list_all valid xs \<and> length xs < 2 ^ 32 \<and>
     4 + tsz xs < 2 ^ 64"

lemma batch_msg_same:
  assumes "batch_msg req xs" "same_msg req req'"
  shows "batch_msg req' xs"
proof -
  have "get_le (buf req') 0 = (of_nat (length xs) :: u32)"
    using same_msg_get_le [OF assms(2), of 0, where ?'a = 32] assms(1) by (simp add: batch_msg_def)
  moreover have "entries_at (buf req') 4 xs"
    using assms by (intro same_msg_entries_at [OF assms(2)]) (auto simp: batch_msg_def)
  ultimately show ?thesis
    using assms by (auto simp: batch_msg_def same_msg_def)
qed

lemma MultiDeserializer_batch_msg:
  assumes "batch_msg req xs"
  shows "MultiDeserializer acc (buf req) 0 = (acc @ xs, of_nat (4 + tsz xs))"
  using assms MultiDeserializer_valid [of "buf req" 0 xs acc] by (simp add: batch_msg_def)

lemma first_in_batch:
  assumes "batch_msg req (x # xs)"
  shows "fst (Deserializer e (buf req) 4) = x"
  using assms Deserializer_any(2) [of "buf req" 4 x e] by (simp add: batch_msg_def)

lemma ReplicateBatchAsync_msg:
  assumes "batch_msg req xs"
  shows "\<exists>c' req'. ReplicateBatchAsync c (buf req) (data_size req) = (c', REP_BATCH, req') \<and> batch_msg req' xs"
proof -
  let ?req = "resize_msg_buffer ((sc_req c)\<lparr>buf := write_bytes (buf (sc_req c)) 0 (bytes_at (buf req) 0 (data_size req))\<rparr>) (data_size req)"
  have "same_msg req ?req"
    by (simp add: same_msg_def resize_msg_buffer_def write_bytes_def)
  then show ?thesis
    using batch_msg_same [OF assms] by (auto simp: ReplicateBatchAsync_def enqueue_def Let_def)
qed

lemma AppendBatchAsync_msg:
  assumes "0 < itrv" "unat lo \<le> unat hi" "unat hi < length es" "list_all wf_entry es"
    and "length es < 2 ^ 32"
    and xs: "xs = map ((!) es) (steps (unat lo) (unat hi) (unat itrv))" "4 + tsz xs < 2 ^ 64" "list_all valid xs"
  shows "\<exists>c' req. AppendBatchAsync c es lo hi itrv =
    Some (of_nat (last (steps (unat lo) (unat hi) (unat itrv))), c', APPEND_BATCH, req) \<and> batch_msg req xs"
proof -
  note img = MultiSerializer_itrv_image [OF assms(1-5) xs(1, 2)]
  obtain m' where m: "MultiSerializer_itrv es lo hi itrv (buf (sc_req c)) 0 =
      Some (m', of_nat (last (steps (unat lo) (unat hi) (unat itrv))), of_nat (4 + tsz xs))"
    and i: "get_le m' 0 = (of_nat (length xs) :: u32)" "entries_at m' 4 xs"
    using img(3) [of "buf (sc_req c)" 0] by auto
  moreover have "list_all wf_entry xs"
    using assms(4) img(1) by (auto simp: list_all_iff)
  ultimately show ?thesis
    using xs(2, 3) img(2) unat_of_nat_small [where ?'a = 64, of "4 + tsz xs"]
    by (auto simp: AppendBatchAsync_def enqueue_def Let_def batch_msg_def resize_msg_buffer_def)
qed

lemma serves_relation:
  assumes "serves net t h" "\<And>req'. same_msg req req' \<Longrightarrow> \<exists>resp s'. h req' s = Some (resp, s') \<and> P resp s'"
  shows "\<exists>resp r s'. P resp s' \<and> same_msg resp r \<and> net t req s = Some (r, s')"
proof -
  obtain req' where r: "same_msg req req'" "case h req' s of
        None \<Rightarrow> net t req s = None
      | Some (resp, s') \<Rightarrow> (\<exists>resp'. same_msg resp resp' \<and> net t req s = Some (resp', s'))"
    using assms(1) by (auto simp: serves_def)
  obtain resp s' where h: "h req' s = Some (resp, s')" "P resp s'"
    using assms(2) [OF r(1)] by blast
  with r(2) obtain r' where "same_msg resp r'" "net t req s = Some (r', s')" by auto
  with h(2) show ?thesis by blast
qed

end
