(* ===== verification/Endpoint.thy ===== *)
theory Endpoint
  imports Dur_Cli Shard_Client
begin

text \<open>
  The life of the eRPC objects of a process: the static members of \<^verbatim>\<open>ERPCTransport\<close>
  (\<^verbatim>\<open>src/src/rpc/erpc_transport.h\<close>) and what the connections and server threads do with them:
  \<^verbatim>\<open>InitializeConn\<close> and \<^verbatim>\<open>Finalize\<close> of \<^verbatim>\<open>DurabilityLogERPCCli\<close>, \<^verbatim>\<open>ConsensusLogERPCCli\<close> and
  \<^verbatim>\<open>ShardClient\<close>, the beginning and the end of the thread functions of the servers, and the
  \<^verbatim>\<open>Finalize\<close> of the client library and of the servers.

  A process has one \<^verbatim>\<open>Nexus\<close>, shared by its threads, and each thread has one \<^verbatim>\<open>Rpc\<close> object on it, created on
  first use and counted by \<^verbatim>\<open>rpc_use_cnt_\<close>. The model keeps the pointers and the sets of objects that have
  been allocated and not deleted; \<^verbatim>\<open>new\<close> gives fresh addresses. Using or deleting an object that
  does not exist is undefined behaviour and gives \<open>None\<close>, as does a connection that is never
  established. eRPC is not part of the repository: the session number that it gives is an argument, \<open>None\<close>
  when the server never answers. Message buffers are represented by their sizes.
\<close>

section \<open>The model\<close>

subsection \<open>Static members\<close>

record RpcObj =
  ro_nexus :: "nat option"
  ro_id :: byte
  ro_phy_port :: byte

record ERPC =
  nexus :: "nat option"
  nexus_heap :: "nat \<rightharpoonup> string"
  global_rpc_id :: byte
  rpc :: "nat \<Rightarrow> nat option"
  rpc_heap :: "nat \<rightharpoonup> RpcObj"
  rpc_use_cnt :: "nat \<Rightarrow> int"
  next_obj :: nat
  dl_local_rpc_cnt :: "string \<rightharpoonup> byte"
  cl_local_rpc_cnt :: "string \<rightharpoonup> byte"

record Conn =
  del_nexus_on_finalize :: bool
  session_num :: int
  req_size :: int
  resp_size :: int

definition ERPC_new :: ERPC where
  "ERPC_new = \<lparr>nexus = None, nexus_heap = Map.empty, global_rpc_id = 0, rpc = (\<lambda>_. None), rpc_heap = Map.empty,
     rpc_use_cnt = (\<lambda>_. 0), next_obj = 0, dl_local_rpc_cnt = Map.empty, cl_local_rpc_cnt = Map.empty\<rparr>"

definition Conn_new :: Conn where
  "Conn_new = \<lparr>del_nexus_on_finalize = True, session_num = 0, req_size = 0, resp_size = 0\<rparr>"

definition new_nexus :: "string \<Rightarrow> ERPC \<Rightarrow> ERPC" where
  "new_nexus uri w =
     w\<lparr>nexus := Some (next_obj w), nexus_heap := (nexus_heap w)(next_obj w \<mapsto> uri), next_obj := next_obj w + 1\<rparr>"

definition delete_nexus :: "ERPC \<Rightarrow> ERPC option" where
  "delete_nexus w =
     (case nexus w of
        None \<Rightarrow> Some w
      | Some n \<Rightarrow> if nexus_heap w n = None then None else Some (w\<lparr>nexus_heap := (nexus_heap w)(n := None)\<rparr>))"

definition new_rpc :: "nat \<Rightarrow> byte \<Rightarrow> byte \<Rightarrow> ERPC \<Rightarrow> ERPC" where
  "new_rpc th i port w =
     w\<lparr>rpc := (rpc w)(th := Some (next_obj w)),
       rpc_heap := (rpc_heap w)(next_obj w \<mapsto> \<lparr>ro_nexus = nexus w, ro_id = i, ro_phy_port = port\<rparr>),
       next_obj := next_obj w + 1\<rparr>"

definition count_use :: "nat \<Rightarrow> ERPC \<Rightarrow> ERPC" where
  "count_use th w = w\<lparr>rpc_use_cnt := (rpc_use_cnt w)(th := rpc_use_cnt w th + 1)\<rparr>"

definition rpc_live :: "nat \<Rightarrow> ERPC \<Rightarrow> bool" where
  "rpc_live th w = (case rpc w th of None \<Rightarrow> False | Some a \<Rightarrow> rpc_heap w a \<noteq> None)"

definition release :: "nat \<Rightarrow> ERPC \<Rightarrow> ERPC option" where
  "release th w =
     (let n = rpc_use_cnt w th; w' = w\<lparr>rpc_use_cnt := (rpc_use_cnt w)(th := n - 1)\<rparr>
      in if n = 1
         then (case rpc w th of
                 None \<Rightarrow> Some w'
               | Some a \<Rightarrow> if rpc_heap w a = None then None else Some (w'\<lparr>rpc_heap := (rpc_heap w)(a := None)\<rparr>))
         else Some w')"

definition phy_port :: "Properties \<Rightarrow> exn + byte" where
  "phy_port p = (case stoi (GetProperty p ''erpc.phy_port'' ''0'') of Inl x \<Rightarrow> Inl x | Inr n \<Rightarrow> Inr (of_int n))"

definition connect_nexus :: "string \<Rightarrow> Conn \<Rightarrow> ERPC \<Rightarrow> Conn \<times> ERPC" where
  "connect_nexus client_uri c w =
     (if nexus w = None then (c, new_nexus client_uri w) else (c\<lparr>del_nexus_on_finalize := False\<rparr>, w))"

definition create_session :: "nat \<Rightarrow> int option \<Rightarrow> Conn \<Rightarrow> ERPC \<Rightarrow> Conn option" where
  "create_session th sess c w =
     (if rpc_live th w then (case sess of None \<Rightarrow> None | Some n \<Rightarrow> Some (c\<lparr>session_num := n\<rparr>)) else None)"

definition int_of_size :: "u64 \<Rightarrow> int" where
  "int_of_size n = sint (ucast n :: u32)"

subsection \<open>Connections to durability servers\<close>

definition DL_endpoint :: "Properties \<Rightarrow> bool \<Rightarrow> nat \<Rightarrow> ERPC \<Rightarrow> exn + ERPC" where
  "DL_endpoint p param th w =
     (if rpc w th \<noteq> None then Inr (count_use th w)
      else let i = DL_local_rpc_id param (global_rpc_id w);
               w = (if param then w else w\<lparr>global_rpc_id := global_rpc_id w + 1\<rparr>)
           in case phy_port p of Inl x \<Rightarrow> Inl x | Inr port \<Rightarrow> Inr (count_use th (new_rpc th i port w)))"

definition DL_remote :: "Properties \<Rightarrow> string \<Rightarrow> bool \<Rightarrow> ERPC \<Rightarrow> (exn + byte \<times> ERPC) option" where
  "DL_remote p uri param w =
     (let n = (case dl_local_rpc_cnt w uri of None \<Rightarrow> 0 | Some n \<Rightarrow> n); w = w\<lparr>dl_local_rpc_cnt := (dl_local_rpc_cnt w)(uri \<mapsto> n)\<rparr>
      in case stoi (GetProperty p ''dur_log.threadcount'' ''1'') of
           Inl x \<Rightarrow> Some (Inl x)
         | Inr k \<Rightarrow>
             if param then Some (Inr (DL_RSV_RPCID, w))
             else if ContainsKey p ''dur_log.client_id''
             then (case stoll (GetProperty p ''dur_log.client_id'' []) of
                     Inl x \<Rightarrow> Some (Inl x)
                   | Inr v \<Rightarrow> if k = 0 then None else Some (Inr (DL_remote_rpc_id False (Some (of_int v)) n (of_int k), w)))
             else if k = 0 then None
             else Some (Inr (DL_remote_rpc_id False None n (of_int k), w\<lparr>dl_local_rpc_cnt := (dl_local_rpc_cnt w)(uri \<mapsto> n + 1)\<rparr>)))"

definition DL_InitializeConn ::
  "Properties \<Rightarrow> string \<Rightarrow> bool \<Rightarrow> int option \<Rightarrow> nat \<Rightarrow> Conn \<Rightarrow> ERPC \<Rightarrow> (exn + Conn \<times> ERPC) option" where
  "DL_InitializeConn p uri param sess th c w =
     (case connect_nexus (GetProperty p ''dur_log.client_uri'' ''localhost:31851'') c w of (c, w) \<Rightarrow>
      case DL_endpoint p param th w of Inl x \<Rightarrow> Some (Inl x) | Inr w \<Rightarrow>
      case DL_remote p uri param w of None \<Rightarrow> None | Some (Inl x) \<Rightarrow> Some (Inl x) | Some (Inr (remote, w)) \<Rightarrow>
      case create_session th sess c w of None \<Rightarrow> None | Some c \<Rightarrow>
      case stoull (GetProperty p ''dur_log.msg_size'' ''8192'') of Inl x \<Rightarrow> Some (Inl x) | Inr n \<Rightarrow>
        Some (Inr (c\<lparr>req_size := int_of_size n, resp_size := int_of_size n\<rparr>, w)))"

definition DL_Finalize :: "nat \<Rightarrow> Conn \<Rightarrow> ERPC \<Rightarrow> ERPC option" where
  "DL_Finalize th c w =
     (if \<not> rpc_live th w then None
      else case release th w of
        None \<Rightarrow> None
      | Some w \<Rightarrow>
          if \<not> del_nexus_on_finalize c then Some w
          else let n = global_rpc_id w; w = w\<lparr>global_rpc_id := n - 1\<rparr>
               in if n = 1 then map_option (nexus_update (\<lambda>_. None)) (delete_nexus w) else Some w)"

subsection \<open>Connections to the consensus log\<close>

definition CL_endpoint :: "Properties \<Rightarrow> nat \<Rightarrow> ERPC \<Rightarrow> exn + ERPC" where
  "CL_endpoint p th w =
     (if rpc w th \<noteq> None then Inr (count_use th w)
      else let i = CL_CLI_RPCID_OFFSET + global_rpc_id w; w = w\<lparr>global_rpc_id := global_rpc_id w + 1\<rparr>
           in case phy_port p of Inl x \<Rightarrow> Inl x | Inr port \<Rightarrow> Inr (count_use th (new_rpc th i port w)))"

definition CL_remote :: "string \<Rightarrow> ERPC \<Rightarrow> byte \<times> ERPC" where
  "CL_remote uri w =
     (let n = (case cl_local_rpc_cnt w uri of None \<Rightarrow> 0 | Some n \<Rightarrow> n)
      in (CL_SVR_RPCID_OFFSET + n, w\<lparr>cl_local_rpc_cnt := (cl_local_rpc_cnt w)(uri \<mapsto> n + 1)\<rparr>))"

definition CL_InitializeConn ::
  "Properties \<Rightarrow> string \<Rightarrow> int option \<Rightarrow> nat \<Rightarrow> Conn \<Rightarrow> ERPC \<Rightarrow> (exn + Conn \<times> ERPC) option" where
  "CL_InitializeConn p uri sess th c w =
     (case connect_nexus (GetProperty p ''cons_log.client_uri'' ''localhost:31851'') c w of (c, w) \<Rightarrow>
      case CL_endpoint p th w of Inl x \<Rightarrow> Some (Inl x) | Inr w \<Rightarrow>
      case CL_remote uri w of (remote, w) \<Rightarrow>
      case create_session th sess c w of None \<Rightarrow> None | Some c \<Rightarrow>
      case stoull (GetProperty p ''cons_log.msg_size'' ''2048'') of Inl x \<Rightarrow> Some (Inl x) | Inr n \<Rightarrow>
        Some (Inr (c\<lparr>req_size := int_of_size n, resp_size := int_of_size n\<rparr>, w)))"

definition CL_Finalize :: "nat \<Rightarrow> Conn \<Rightarrow> ERPC \<Rightarrow> ERPC option" where
  "CL_Finalize th c w =
     (if \<not> rpc_live th w then None
      else case release th w of
        None \<Rightarrow> None
      | Some w \<Rightarrow>
          if \<not> del_nexus_on_finalize c then Some w
          else let n = global_rpc_id w; w = w\<lparr>global_rpc_id := n - 1\<rparr>
               in if n = 1 then map_option (nexus_update (\<lambda>_. None)) (delete_nexus w) else Some w)"

definition CL_GetNumOrderedEntries :: u64 where
  "CL_GetNumOrderedEntries = 0"

subsection \<open>Connections to shards\<close>

definition SHD_endpoint :: "Properties \<Rightarrow> u32 option \<Rightarrow> nat \<Rightarrow> ERPC \<Rightarrow> exn + ERPC" where
  "SHD_endpoint p param th w =
     (if rpc w th \<noteq> None then Inr (count_use th w)
      else case phy_port p of Inl x \<Rightarrow> Inl x | Inr port \<Rightarrow> Inr (count_use th (new_rpc th (SHD_rpc_id param) port w)))"

definition ShardClient_InitializeConn ::
  "Properties \<Rightarrow> u32 option \<Rightarrow> int option \<Rightarrow> nat \<Rightarrow> Conn \<Rightarrow> ERPC \<Rightarrow> (exn + Conn \<times> ERPC) option" where
  "ShardClient_InitializeConn p param sess th c w =
     (case connect_nexus (GetProperty p ''shard.client_uri'' ''localhost:31861'') c w of (c, w) \<Rightarrow>
      case SHD_endpoint p param th w of Inl x \<Rightarrow> Some (Inl x) | Inr w \<Rightarrow>
      case create_session th sess c w of None \<Rightarrow> None | Some c \<Rightarrow>
      case stoull (GetProperty p ''shard.msg_size'' ''2048'') of Inl x \<Rightarrow> Some (Inl x) | Inr n \<Rightarrow>
        Some (Inr (c\<lparr>req_size := int_of_size n, resp_size := 4096\<rparr>, w)))"

definition ShardClient_Finalize :: "nat \<Rightarrow> Conn \<Rightarrow> ERPC \<Rightarrow> ERPC option" where
  "ShardClient_Finalize th c w =
     (if \<not> rpc_live th w then None
      else case release th w of
        None \<Rightarrow> None
      | Some w \<Rightarrow> if del_nexus_on_finalize c then map_option (nexus_update (\<lambda>_. None)) (delete_nexus w) else Some w)"

text \<open>In the build with \<^verbatim>\<open>CORFU\<close> a client picks one of the threads of the server at random; the random number is an argument.\<close>

definition corfu_rpc_ids :: "Properties \<Rightarrow> int option \<Rightarrow> int \<Rightarrow> int \<Rightarrow> (exn + int \<times> int) option" where
  "corfu_rpc_ids p param rnd remote_id_offset =
     (case param of
        None \<Rightarrow> Some (Inr (0, 0))
      | Some thread_id \<Rightarrow>
          (case stoi (GetProperty p ''shard.threadcount'' ''1'') of
             Inl x \<Rightarrow> Some (Inl x)
           | Inr n \<Rightarrow> if n < 1 then None else Some (Inr (thread_id + 64, rnd mod n + 64 + remote_id_offset))))"

definition corfu_ShardClient_InitializeConn ::
  "Properties \<Rightarrow> int option \<Rightarrow> int \<Rightarrow> int \<Rightarrow> int option \<Rightarrow> nat \<Rightarrow> Conn \<Rightarrow> ERPC \<Rightarrow> (exn + Conn \<times> ERPC) option" where
  "corfu_ShardClient_InitializeConn p param rnd remote_id_offset sess th c w =
     (case corfu_rpc_ids p param rnd remote_id_offset of None \<Rightarrow> None | Some (Inl x) \<Rightarrow> Some (Inl x) | Some (Inr (i, remote)) \<Rightarrow>
      case connect_nexus (GetProperty p ''shard.client_uri'' ''localhost:31861'') c w of (c, w) \<Rightarrow>
      case SHD_endpoint p (Some (of_int i)) th w of Inl x \<Rightarrow> Some (Inl x) | Inr w \<Rightarrow>
      case create_session th sess c w of None \<Rightarrow> None | Some c \<Rightarrow>
      case stoull (GetProperty p ''shard.msg_size'' ''2048'') of Inl x \<Rightarrow> Some (Inl x) | Inr n \<Rightarrow>
        Some (Inr (c\<lparr>req_size := int_of_size n, resp_size := int_of_size n\<rparr>, w)))"

subsection \<open>Server threads\<close>

definition server_endpoint :: "Properties \<Rightarrow> byte \<Rightarrow> nat \<Rightarrow> ERPC \<Rightarrow> exn + ERPC" where
  "server_endpoint p i th w =
     (case phy_port p of
        Inl x \<Rightarrow> Inl x
      | Inr port \<Rightarrow> Inr (count_use th (if rpc w th = None then new_rpc th i port w else w)))"

definition set_msg_size :: "Properties \<Rightarrow> ERPC \<Rightarrow> exn + ERPC" where
  "set_msg_size p w = (case stoull (GetProperty p ''dur_log.msg_size'' ''8192'') of Inl x \<Rightarrow> Inl x | Inr _ \<Rightarrow> Inr w)"

definition DL_server_func_start :: "int \<Rightarrow> Properties \<Rightarrow> nat \<Rightarrow> ERPC \<Rightarrow> exn + ERPC" where
  "DL_server_func_start th_id p th w =
     (case server_endpoint p (DL_SVR_RPCID_OFFSET + of_int th_id) th w of Inl x \<Rightarrow> Inl x | Inr w \<Rightarrow> set_msg_size p w)"

definition DL_cl_server_func_start :: "Properties \<Rightarrow> nat \<Rightarrow> ERPC \<Rightarrow> exn + ERPC" where
  "DL_cl_server_func_start p th w = server_endpoint p DL_RSV_RPCID th w"

definition CL_server_func_start :: "int \<Rightarrow> Properties \<Rightarrow> nat \<Rightarrow> ERPC \<Rightarrow> exn + ERPC" where
  "CL_server_func_start th_id p th w = server_endpoint p (CL_SVR_RPCID_OFFSET + of_int th_id) th w"

definition SHD_server_func_start :: "Properties \<Rightarrow> nat \<Rightarrow> ERPC \<Rightarrow> exn + ERPC" where
  "SHD_server_func_start p th w = server_endpoint p 0 th w"

definition SHD_read_server_func_start :: "int \<Rightarrow> Properties \<Rightarrow> nat \<Rightarrow> ERPC \<Rightarrow> exn + ERPC" where
  "SHD_read_server_func_start th_id p th w =
     (case server_endpoint p (CL_CLI_RPCID_OFFSET + of_int th_id) th w of Inl x \<Rightarrow> Inl x | Inr w \<Rightarrow> set_msg_size p w)"

definition KV_server_func_start :: "int \<Rightarrow> Properties \<Rightarrow> nat \<Rightarrow> ERPC \<Rightarrow> exn + ERPC" where
  "KV_server_func_start th_id p th w = server_endpoint p (DL_CLI_RPCID_OFFSET + of_int th_id) th w"

definition server_func_stop :: "nat \<Rightarrow> ERPC \<Rightarrow> ERPC option" where
  "server_func_stop th w = release th w"

datatype role = DurServer int | DurReserved | ConsServer int | ShardMain | ShardReader int | KvServer int

fun server_func_start :: "role \<Rightarrow> Properties \<Rightarrow> nat \<Rightarrow> ERPC \<Rightarrow> exn + ERPC" where
  "server_func_start (DurServer th_id) = DL_server_func_start th_id"
| "server_func_start DurReserved = DL_cl_server_func_start"
| "server_func_start (ConsServer th_id) = CL_server_func_start th_id"
| "server_func_start ShardMain = SHD_server_func_start"
| "server_func_start (ShardReader th_id) = SHD_read_server_func_start th_id"
| "server_func_start (KvServer th_id) = KV_server_func_start th_id"

subsection \<open>Shutting down\<close>

fun finalize_all :: "('c \<Rightarrow> ERPC \<Rightarrow> ERPC option) \<Rightarrow> 'c list \<Rightarrow> ERPC \<Rightarrow> ERPC option" where
  "finalize_all fin [] w = Some w"
| "finalize_all fin (c # cs) w = (case fin c w of None \<Rightarrow> None | Some w \<Rightarrow> finalize_all fin cs w)"

definition LazyLogClient_Finalize :: "nat \<Rightarrow> Conn list \<Rightarrow> Conn list \<Rightarrow> ERPC \<Rightarrow> ERPC option" where
  "LazyLogClient_Finalize th shards durs w =
     (case finalize_all (ShardClient_Finalize th) shards w of None \<Rightarrow> None | Some w \<Rightarrow> finalize_all (DL_Finalize th) durs w)"

definition ConsensusLog_Finalize :: "nat \<Rightarrow> Conn list \<Rightarrow> Conn list \<Rightarrow> ERPC \<Rightarrow> ERPC option" where
  "ConsensusLog_Finalize th shards durs w =
     (case finalize_all (ShardClient_Finalize th) shards w of None \<Rightarrow> None | Some w \<Rightarrow> finalize_all (DL_Finalize th) durs w)"

datatype join_error = not_joinable

definition ERPCConsLogTransport_Finalize ::
  "bool \<Rightarrow> nat \<Rightarrow> Conn list \<Rightarrow> Conn list \<Rightarrow> ERPC \<Rightarrow> (join_error + ERPC) option" where
  "ERPCConsLogTransport_Finalize pipelined th shards durs w =
     (if \<not> pipelined then Some (Inl not_joinable)
      else case ConsensusLog_Finalize th shards durs w of None \<Rightarrow> None | Some w \<Rightarrow> map_option Inr (delete_nexus w))"

definition ERPCDurLogTransport_Finalize :: "ERPC \<Rightarrow> ERPC option" where
  "ERPCDurLogTransport_Finalize w = delete_nexus w"

definition ShardServer_Finalize :: "nat \<Rightarrow> Conn list \<Rightarrow> ERPC \<Rightarrow> ERPC option" where
  "ShardServer_Finalize th backups w =
     (case finalize_all (ShardClient_Finalize th) backups w of None \<Rightarrow> None | Some w \<Rightarrow> delete_nexus w)"

subsection \<open>Processes\<close>

text \<open>The uses of the endpoint of a thread, and what a process does over time: its threads open and close uses in any
  order. A thread that has closed its last use does not open another one.\<close>

datatype use = Dur bool | Cons | Shard "u32 option" | CorfuShard_client "int option" int int | Serve role

fun use_open :: "use \<Rightarrow> Properties \<Rightarrow> string \<Rightarrow> int option \<Rightarrow> nat \<Rightarrow> Conn \<Rightarrow> ERPC \<Rightarrow> (exn + Conn \<times> ERPC) option" where
  "use_open (Dur param) p uri sess th c w = DL_InitializeConn p uri param sess th c w"
| "use_open Cons p uri sess th c w = CL_InitializeConn p uri sess th c w"
| "use_open (Shard param) p uri sess th c w = ShardClient_InitializeConn p param sess th c w"
| "use_open (CorfuShard_client param rnd off) p uri sess th c w = corfu_ShardClient_InitializeConn p param rnd off sess th c w"
| "use_open (Serve r) p uri sess th c w =
     (case server_func_start r p th w of
        Inl x \<Rightarrow> Some (Inl x)
      | Inr w \<Rightarrow> if nexus w = None then None else Some (Inr (c\<lparr>del_nexus_on_finalize := False\<rparr>, w)))"

fun use_close :: "use \<Rightarrow> nat \<Rightarrow> Conn \<Rightarrow> ERPC \<Rightarrow> ERPC option" where
  "use_close (Dur param) th c w = DL_Finalize th c w"
| "use_close Cons th c w = CL_Finalize th c w"
| "use_close (Shard param) th c w = ShardClient_Finalize th c w"
| "use_close (CorfuShard_client param rnd off) th c w = ShardClient_Finalize th c w"
| "use_close (Serve r) th c w = (if rpc_live th w then server_func_stop th w else None)"

type_synonym uses = "(use \<times> nat \<times> Conn) list"

inductive process :: "ERPC \<Rightarrow> uses \<Rightarrow> ERPC \<Rightarrow> bool" where
  start: "process w0 [] w0"
| opened: "process w0 us w \<Longrightarrow> rpc w th = None \<or> 0 < rpc_use_cnt w th \<Longrightarrow>
    use_open k p uri sess th Conn_new w = Some (Inr (c, w')) \<Longrightarrow> process w0 (us @ [(k, th, c)]) w'"
| closed: "process w0 (us @ (k, th, c) # us') w \<Longrightarrow> use_close k th c w = Some w' \<Longrightarrow> process w0 (us @ us') w'"

section \<open>The contract of a use of the endpoint\<close>

definition acquired :: "nat \<Rightarrow> ERPC \<Rightarrow> ERPC \<Rightarrow> bool" where
  "acquired th w w' \<longleftrightarrow> rpc_use_cnt w' = (rpc_use_cnt w)(th := rpc_use_cnt w th + 1) \<and> next_obj w \<le> next_obj w' \<and>
     (\<forall>t. t \<noteq> th \<longrightarrow> rpc w' t = rpc w t) \<and>
     (case rpc w th of
        Some a \<Rightarrow> rpc w' th = Some a \<and> rpc_heap w' = rpc_heap w
      | None \<Rightarrow> \<exists>a ob. next_obj w \<le> a \<and> a < next_obj w' \<and> rpc w' th = Some a \<and> rpc_heap w' = (rpc_heap w)(a \<mapsto> ob) \<and>
          ro_nexus ob = nexus w')"

definition nexus_opened :: "ERPC \<Rightarrow> Conn \<Rightarrow> ERPC \<Rightarrow> bool" where
  "nexus_opened w c w' \<longleftrightarrow>
     (case nexus w of
        None \<Rightarrow> \<exists>n uri. next_obj w \<le> n \<and> n < next_obj w' \<and> nexus w' = Some n \<and> nexus_heap w' = (nexus_heap w)(n \<mapsto> uri)
      | Some n \<Rightarrow> \<not> del_nexus_on_finalize c \<and> nexus w' = Some n \<and> nexus_heap w' = nexus_heap w)"

definition released :: "nat \<Rightarrow> ERPC \<Rightarrow> ERPC \<Rightarrow> bool" where
  "released th w w' \<longleftrightarrow> rpc_use_cnt w' = (rpc_use_cnt w)(th := rpc_use_cnt w th - 1) \<and> next_obj w' = next_obj w \<and> rpc w' = rpc w \<and>
     rpc_heap w' = (if rpc_use_cnt w th = 1 then (rpc_heap w)(the (rpc w th) := None) else rpc_heap w)"

definition nexus_closed :: "ERPC \<Rightarrow> Conn \<Rightarrow> ERPC \<Rightarrow> bool" where
  "nexus_closed w c w' \<longleftrightarrow>
     nexus w' = nexus w \<and> nexus_heap w' = nexus_heap w \<or>
     del_nexus_on_finalize c \<and> nexus w' = None \<and> nexus_heap w' = (nexus_heap w)(the (nexus w) := None)"

text \<open>The invariant of a process with the open uses \<open>us\<close>: the counter of a thread is the number of its open uses,
  exactly the threads with an open use have an object, no two threads have the same, and the Nexus of an object is the
  current one or has been deleted.\<close>

definition uses_of :: "nat \<Rightarrow> uses \<Rightarrow> nat" where
  "uses_of th us = length (filter (\<lambda>(k, t, c). t = th) us)"

definition endpoint_inv :: "uses \<Rightarrow> ERPC \<Rightarrow> bool" where
  "endpoint_inv us w \<longleftrightarrow>
     (\<forall>th. rpc_use_cnt w th = int (uses_of th us)) \<and>
     (\<forall>a. rpc_heap w a \<noteq> None \<longleftrightarrow> (\<exists>th. rpc w th = Some a \<and> 0 < uses_of th us)) \<and>
     (\<forall>th. 0 < uses_of th us \<longrightarrow> rpc w th \<noteq> None) \<and>
     (\<forall>th a. rpc w th = Some a \<longrightarrow> a < next_obj w \<and> (\<forall>t. rpc w t = Some a \<longrightarrow> t = th)) \<and>
     (\<forall>n. nexus_heap w n \<noteq> None \<longleftrightarrow> nexus w = Some n) \<and> (\<forall>n. nexus w = Some n \<longrightarrow> n < next_obj w) \<and>
     (\<forall>a ob. rpc_heap w a = Some ob \<longrightarrow> (\<exists>n. ro_nexus ob = Some n \<and> n < next_obj w))"

lemma uses_of_append [simp]: "uses_of th (us @ us') = uses_of th us + uses_of th us'"
  by (simp add: uses_of_def)

lemma uses_of_Nil [simp]: "uses_of th [] = 0"
  by (simp add: uses_of_def)

lemma uses_of_Cons [simp]: "uses_of th ((k, t, c) # us) = (if t = th then 1 else 0) + uses_of th us"
  by (simp add: uses_of_def)

lemma endpoint_invI:
  assumes "\<And>th. rpc_use_cnt w th = int (uses_of th us)"
    "\<And>a. rpc_heap w a \<noteq> None \<longleftrightarrow> (\<exists>th. rpc w th = Some a \<and> 0 < uses_of th us)"
    "\<And>th. 0 < uses_of th us \<Longrightarrow> rpc w th \<noteq> None"
    "\<And>th a. rpc w th = Some a \<Longrightarrow> a < next_obj w \<and> (\<forall>t. rpc w t = Some a \<longrightarrow> t = th)"
    "\<And>n. nexus_heap w n \<noteq> None \<longleftrightarrow> nexus w = Some n" "\<And>n. nexus w = Some n \<Longrightarrow> n < next_obj w"
    "\<And>a ob. rpc_heap w a = Some ob \<Longrightarrow> \<exists>n. ro_nexus ob = Some n \<and> n < next_obj w"
  shows "endpoint_inv us w"
  using assms unfolding endpoint_inv_def by simp

lemma endpoint_invD:
  assumes "endpoint_inv us w"
  shows "rpc_use_cnt w th = int (uses_of th us)"
    "rpc_heap w a \<noteq> None \<longleftrightarrow> (\<exists>th. rpc w th = Some a \<and> 0 < uses_of th us)"
    "0 < uses_of th us \<Longrightarrow> rpc_live th w"
    "rpc w th = Some a \<Longrightarrow> a < next_obj w"
    "rpc w th = Some a \<Longrightarrow> rpc w t = Some a \<Longrightarrow> t = th"
    "nexus_heap w n \<noteq> None \<longleftrightarrow> nexus w = Some n"
    "nexus w = Some n \<Longrightarrow> n < next_obj w"
    "rpc_heap w a = Some ob \<Longrightarrow> \<exists>n. ro_nexus ob = Some n \<and> n < next_obj w"
proof -
  show "0 < uses_of th us \<Longrightarrow> rpc_live th w"
    using assms unfolding endpoint_inv_def rpc_live_def by (cases "rpc w th") (auto simp del: not_None_eq)
qed (use assms in \<open>simp_all add: endpoint_inv_def\<close>)

locale endpoint =
  fixes ep_open :: "nat \<Rightarrow> Conn \<Rightarrow> ERPC \<Rightarrow> (exn + Conn \<times> ERPC) option"
    and ep_close :: "nat \<Rightarrow> Conn \<Rightarrow> ERPC \<Rightarrow> ERPC option"
  assumes open_acquires: "ep_open th c w = Some (Inr (c', w')) \<Longrightarrow> acquired th w w' \<and> nexus_opened w c' w'"
    and close_releases: "rpc_live th w \<Longrightarrow> (\<And>n. nexus w = Some n \<Longrightarrow> nexus_heap w n \<noteq> None) \<Longrightarrow>
      \<exists>w'. ep_close th c w = Some w' \<and> released th w w' \<and> nexus_closed w c w'"
begin

lemma open_inv:
  assumes inv: "endpoint_inv us w" and th: "rpc w th = None \<or> 0 < rpc_use_cnt w th"
    and op: "ep_open th c w = Some (Inr (c', w'))"
  shows "endpoint_inv (us @ [(k, th, c')]) w'"
proof -
  note I = endpoint_invD [OF inv]
  have a: "acquired th w w'" and n: "nexus_opened w c' w'" using open_acquires [OF op] by auto
  have cnt: "rpc_use_cnt w' t = int (uses_of t (us @ [(k, th, c')]))" for t
    using a I(1) [of t] by (cases "t = th") (auto simp: acquired_def)
  have nx: "nexus_heap w' n \<noteq> None \<longleftrightarrow> nexus w' = Some n" for n
    using n I(6) [of n] I(6) by (fastforce simp: nexus_opened_def split: option.splits)
  have nn: "nexus w' \<noteq> None" "nexus w' = Some n \<Longrightarrow> n < next_obj w'" for n
    using n a I(7) by (fastforce simp: nexus_opened_def acquired_def split: option.splits)+
  have le: "next_obj w \<le> next_obj w'" using a by (simp add: acquired_def)
  show ?thesis
  proof (cases "rpc w th")
    case (Some r)
    then have "rpc w' t = rpc w t" for t using a by (cases "t = th") (auto simp: acquired_def)
    then have e: "rpc w' = rpc w" "rpc_heap w' = rpc_heap w" using a Some by (auto simp: acquired_def)
    have "0 < uses_of th us" using th Some I(1) [of th] by simp
    then have u: "0 < uses_of t (us @ [(k, th, c')]) \<longleftrightarrow> 0 < uses_of t us" for t by auto
    have l: "0 < uses_of t us \<Longrightarrow> rpc w t \<noteq> None" for t using I(3) [of t] by (auto simp: rpc_live_def split: option.splits)
    have p: "rpc w t = Some b \<Longrightarrow> b < next_obj w' \<and> (\<forall>s. rpc w s = Some b \<longrightarrow> s = t)" for t b
      using I(4) [of t b] I(5) [of t b] le by auto
    have ob: "rpc_heap w b = Some o' \<Longrightarrow> \<exists>n. ro_nexus o' = Some n \<and> n < next_obj w'" for b o'
      using I(8) [of b o'] le by fastforce
    show ?thesis by (rule endpoint_invI [OF cnt I(2) [folded e u] l [folded e u] p [folded e] nx nn(2) ob [folded e]])
  next
    case None
    then obtain r ob where r: "next_obj w \<le> r" "r < next_obj w'" "rpc w' = (rpc w)(th := Some r)" "rpc_heap w' = (rpc_heap w)(r \<mapsto> ob)"
      "ro_nexus ob = nexus w'" using a by (fastforce simp: acquired_def fun_eq_iff)
    have z: "uses_of th us = 0" using None I(3) [of th] by (cases "uses_of th us") (auto simp: rpc_live_def)
    have fresh: "rpc w t \<noteq> Some r" for t using I(4) [of t r] r(1) by auto
    have h: "rpc_heap w' b \<noteq> None \<longleftrightarrow> (\<exists>t. rpc w' t = Some b \<and> 0 < uses_of t (us @ [(k, th, c')]))" for b
    proof (cases "b = r")
      case False
      have "rpc w' t = Some b \<and> 0 < uses_of t (us @ [(k, th, c')]) \<longleftrightarrow> rpc w t = Some b \<and> 0 < uses_of t us" for t
        using False None z by (auto simp: r(3))
      then show ?thesis using False I(2) [of b] by (simp add: r(4))
    qed (auto simp: r(3, 4))
    have p: "rpc w' t = Some b \<Longrightarrow> b < next_obj w' \<and> (\<forall>s. rpc w' s = Some b \<longrightarrow> s = t)" for t b
      using I(4) [of t b] I(5) fresh r(2) le by (auto simp: r(3) split: if_splits)
    have l: "0 < uses_of t (us @ [(k, th, c')]) \<Longrightarrow> rpc w' t \<noteq> None" for t
      using I(3) [of t] by (auto simp: r(3) rpc_live_def split: option.splits if_splits)
    have ob: "rpc_heap w' b = Some o' \<Longrightarrow> \<exists>n. ro_nexus o' = Some n \<and> n < next_obj w'" for b o'
      using I(8) [of b o'] nn r(5) le by (fastforce simp: r(4) split: if_splits)
    show ?thesis by (rule endpoint_invI [OF cnt h l p nx nn(2) ob])
  qed
qed

lemma close_inv:
  assumes inv: "endpoint_inv (us @ (k, th, c) # us') w"
  shows "\<exists>w'. ep_close th c w = Some w' \<and> released th w w' \<and> nexus_closed w c w' \<and> endpoint_inv (us @ us') w'"
proof -
  note I = endpoint_invD [OF inv]
  have live: "rpc_live th w" by (rule I(3)) simp
  then obtain a where a: "rpc w th = Some a" by (auto simp: rpc_live_def split: option.splits)
  obtain w' where w': "ep_close th c w = Some w'" "released th w w'" "nexus_closed w c w'"
    using close_releases [OF live] I(6) by blast
  have r: "rpc_use_cnt w' = (rpc_use_cnt w)(th := rpc_use_cnt w th - 1)" "next_obj w' = next_obj w" "rpc w' = rpc w"
    "rpc_heap w' = (if uses_of th (us @ us') = 0 then (rpc_heap w)(a := None) else rpc_heap w)"
    using w'(2) a I(1) [of th] by (auto simp: released_def)
  have cnt: "rpc_use_cnt w' t = int (uses_of t (us @ us'))" for t using I(1) [of t] by (cases "t = th") (auto simp: r(1))
  have nx: "nexus_heap w' n \<noteq> None \<longleftrightarrow> nexus w' = Some n" for n
    using w'(3) I(6) [of n] unfolding nexus_closed_def by (cases "nexus w = Some n") (auto split: if_splits)
  have nn: "nexus w' = Some n \<Longrightarrow> n < next_obj w'" for n
    using w'(3) I(7) [of n] unfolding nexus_closed_def r(2) by fastforce
  have h: "rpc_heap w' b \<noteq> None \<longleftrightarrow> (\<exists>t. rpc w' t = Some b \<and> 0 < uses_of t (us @ us'))" for b
  proof (cases "b = a \<and> uses_of th (us @ us') = 0")
    case True
    then show ?thesis using I(5) [OF a] by (auto simp: r(3, 4))
  next
    case False
    then have "rpc w t = Some b \<and> 0 < uses_of t (us @ us') \<longleftrightarrow> rpc w t = Some b \<and> 0 < uses_of t (us @ (k, th, c) # us')" for t
      using a by (cases "t = th") auto
    then show ?thesis using False I(2) [of b] unfolding r(3, 4) by auto
  qed
  have l: "0 < uses_of t (us @ us') \<Longrightarrow> rpc w' t \<noteq> None" for t
    using I(3) [of t] by (auto simp: r(3) rpc_live_def split: option.splits if_splits)
  have ob: "rpc_heap w' b = Some o' \<Longrightarrow> \<exists>n. ro_nexus o' = Some n \<and> n < next_obj w'" for b o'
    using I(8) [of b o'] by (auto simp: r(2, 4) split: if_splits)
  have p: "rpc w' t = Some b \<Longrightarrow> b < next_obj w' \<and> (\<forall>s. rpc w' s = Some b \<longrightarrow> s = t)" for t b
    using I(4) [of t b] I(5) [of t b] by (simp add: r(2, 3))
  have "endpoint_inv (us @ us') w'" by (rule endpoint_invI [OF cnt h l p nx nn ob])
  then show ?thesis using w' by blast
qed

end

section \<open>Every use keeps the contract\<close>

lemma nexus_opened_connect:
  assumes "connect_nexus uri c w = (c1, w1)"
  shows "nexus_opened w c1 w1" "nexus w1 \<noteq> None" "next_obj w \<le> next_obj w1" "rpc w1 = rpc w" "rpc_heap w1 = rpc_heap w"
    "rpc_use_cnt w1 = rpc_use_cnt w"
  using assms by (auto simp: connect_nexus_def nexus_opened_def new_nexus_def split: if_splits)

text \<open>Counting a use, with the object created on first use, after the Nexus has been looked up.\<close>

lemma acquires:
  assumes c: "connect_nexus uri c w = (c1, w1)"
    and w2: "rpc w2 = rpc w1" "rpc_heap w2 = rpc_heap w1" "rpc_use_cnt w2 = rpc_use_cnt w1" "next_obj w2 = next_obj w1"
      "nexus w2 = nexus w1" "nexus_heap w2 = nexus_heap w1"
    and w3: "w3 = count_use th (if rpc w2 th = None then new_rpc th i port w2 else w2)"
    and w4: "rpc w4 = rpc w3" "rpc_heap w4 = rpc_heap w3" "rpc_use_cnt w4 = rpc_use_cnt w3" "next_obj w4 = next_obj w3"
      "nexus w4 = nexus w3" "nexus_heap w4 = nexus_heap w3"
    and c': "del_nexus_on_finalize c' = del_nexus_on_finalize c1"
  shows "acquired th w w4 \<and> nexus_opened w c' w4"
proof -
  note n = nexus_opened_connect [OF c]
  have "acquired th w w4"
    unfolding acquired_def w4 using n by (cases "rpc w th")
      (auto simp: w3 w2 count_use_def new_rpc_def intro!: exI [of _ "\<lparr>ro_nexus = nexus w1, ro_id = i, ro_phy_port = port\<rparr>"])
  moreover have "nexus w4 = nexus w1" "nexus_heap w4 = nexus_heap w1" "next_obj w1 \<le> next_obj w4"
    by (simp_all add: w4 w3 w2 count_use_def new_rpc_def)
  then have "nexus_opened w c' w4" using n(1) c' by (force simp: nexus_opened_def split: option.splits)
  ultimately show ?thesis by blast
qed

lemma release_ok:
  assumes "rpc_live th w"
  shows "\<exists>w'. release th w = Some w' \<and> released th w w' \<and> nexus w' = nexus w \<and> nexus_heap w' = nexus_heap w \<and>
    global_rpc_id w' = global_rpc_id w"
  using assms by (auto simp: release_def released_def rpc_live_def Let_def split: option.splits)

lemma release_delete:
  assumes live: "rpc_live th w" and n: "\<And>n. nexus w = Some n \<Longrightarrow> nexus_heap w n \<noteq> None"
  obtains w1 w2 where "release th w = Some w1" "released th w w1" "nexus_closed w c w1" "global_rpc_id w1 = global_rpc_id w"
    "delete_nexus (w1\<lparr>global_rpc_id := g\<rparr>) = Some w2" "released th w (w2\<lparr>nexus := None\<rparr>)"
    "del_nexus_on_finalize c \<Longrightarrow> nexus_closed w c (w2\<lparr>nexus := None\<rparr>)"
proof -
  obtain w1 where w1: "release th w = Some w1" "released th w w1" "nexus w1 = nexus w" "nexus_heap w1 = nexus_heap w"
    "global_rpc_id w1 = global_rpc_id w" using release_ok [OF live] by blast
  obtain w2 where w2: "delete_nexus (w1\<lparr>global_rpc_id := g\<rparr>) = Some w2" "rpc w2 = rpc w1" "rpc_heap w2 = rpc_heap w1"
    "rpc_use_cnt w2 = rpc_use_cnt w1" "next_obj w2 = next_obj w1" "nexus w = None \<and> nexus_heap w2 = nexus_heap w \<or>
      nexus_heap w2 = (nexus_heap w)(the (nexus w) := None)"
    using n w1(3, 4) by (cases "nexus w") (auto simp: delete_nexus_def)
  show ?thesis
    using that [OF w1(1, 2) _ w1(5) w2(1)] w1(2-4) w2(2-6) by (auto simp: released_def nexus_closed_def)
qed

interpretation dl: endpoint "DL_InitializeConn p uri param sess" DL_Finalize for p uri param sess
proof
  fix th c w c' w'
  assume "DL_InitializeConn p uri param sess th c w = Some (Inr (c', w'))"
  then obtain c1 w1 w3 r where d: "connect_nexus (GetProperty p ''dur_log.client_uri'' ''localhost:31851'') c w = (c1, w1)"
    "DL_endpoint p param th w1 = Inr w3" "DL_remote p uri param w3 = Some (Inr (r, w'))"
    "del_nexus_on_finalize c' = del_nexus_on_finalize c1"
    by (auto simp: DL_InitializeConn_def create_session_def split: prod.splits sum.splits option.splits if_splits)
  obtain g i port where "w3 = count_use th (if rpc w1 th = None then new_rpc th i port (w1\<lparr>global_rpc_id := g\<rparr>) else w1\<lparr>global_rpc_id := g\<rparr>)"
    using d(2) by (auto simp: DL_endpoint_def Let_def split: if_splits sum.splits) (metis ERPC.surjective ERPC.update_convs(3))+
  moreover have "rpc w' = rpc w3" "rpc_heap w' = rpc_heap w3" "rpc_use_cnt w' = rpc_use_cnt w3" "next_obj w' = next_obj w3"
      "nexus w' = nexus w3" "nexus_heap w' = nexus_heap w3"
    using d(3) by (auto simp: DL_remote_def Let_def split: if_splits sum.splits)
  ultimately show "acquired th w w' \<and> nexus_opened w c' w'"
    by (intro acquires [OF d(1), of "w1\<lparr>global_rpc_id := g\<rparr>" w3]) (simp_all add: d(4))
next
  fix th w c
  assume live: "rpc_live th w" and n: "\<And>n. nexus w = Some n \<Longrightarrow> nexus_heap w n \<noteq> None"
  obtain w1 w2 where "release th w = Some w1" "released th w w1" "nexus_closed w c w1"
    "delete_nexus (w1\<lparr>global_rpc_id := global_rpc_id w - 1\<rparr>) = Some w2" "released th w (w2\<lparr>nexus := None\<rparr>)"
    "del_nexus_on_finalize c \<Longrightarrow> nexus_closed w c (w2\<lparr>nexus := None\<rparr>)" "global_rpc_id w1 = global_rpc_id w"
    using release_delete [OF live n] by metis
  then show "\<exists>w'. DL_Finalize th c w = Some w' \<and> released th w w' \<and> nexus_closed w c w'"
    using live by (auto simp: DL_Finalize_def released_def nexus_closed_def Let_def)
qed

lemma CL_Finalize_eq: "CL_Finalize = DL_Finalize"
  by (simp add: fun_eq_iff CL_Finalize_def DL_Finalize_def)

interpretation cl: endpoint "CL_InitializeConn p uri sess" CL_Finalize for p uri sess
proof
  fix th c w c' w'
  assume "CL_InitializeConn p uri sess th c w = Some (Inr (c', w'))"
  then obtain c1 w1 w3 r where d: "connect_nexus (GetProperty p ''cons_log.client_uri'' ''localhost:31851'') c w = (c1, w1)"
    "CL_endpoint p th w1 = Inr w3" "CL_remote uri w3 = (r, w')" "del_nexus_on_finalize c' = del_nexus_on_finalize c1"
    by (auto simp: CL_InitializeConn_def create_session_def split: prod.splits sum.splits option.splits if_splits)
  obtain g i port where "w3 = count_use th (if rpc w1 th = None then new_rpc th i port (w1\<lparr>global_rpc_id := g\<rparr>) else w1\<lparr>global_rpc_id := g\<rparr>)"
    using d(2) by (auto simp: CL_endpoint_def Let_def split: if_splits sum.splits) (metis ERPC.surjective ERPC.update_convs(3))+
  then show "acquired th w w' \<and> nexus_opened w c' w'"
    using d(3) by (intro acquires [OF d(1), of "w1\<lparr>global_rpc_id := g\<rparr>" w3]) (auto simp: d(4) CL_remote_def Let_def)
qed (unfold CL_Finalize_eq, rule dl.close_releases)

interpretation shd: endpoint "ShardClient_InitializeConn p param sess" ShardClient_Finalize for p param sess
proof
  fix th c w c' w'
  assume "ShardClient_InitializeConn p param sess th c w = Some (Inr (c', w'))"
  then obtain c1 w1 where d: "connect_nexus (GetProperty p ''shard.client_uri'' ''localhost:31861'') c w = (c1, w1)"
    "SHD_endpoint p param th w1 = Inr w'" "del_nexus_on_finalize c' = del_nexus_on_finalize c1"
    by (auto simp: ShardClient_InitializeConn_def create_session_def split: prod.splits sum.splits option.splits if_splits)
  obtain i port where "w' = count_use th (if rpc w1 th = None then new_rpc th i port w1 else w1)"
    using d(2) by (auto simp: SHD_endpoint_def split: if_splits sum.splits)
  then show "acquired th w w' \<and> nexus_opened w c' w'" by (intro acquires [OF d(1), of w1 w']) (simp_all add: d(3))
next
  fix th w c
  assume live: "rpc_live th w" and n: "\<And>n. nexus w = Some n \<Longrightarrow> nexus_heap w n \<noteq> None"
  obtain w1 w2 where "release th w = Some w1" "released th w w1" "nexus_closed w c w1"
    "delete_nexus (w1\<lparr>global_rpc_id := global_rpc_id w\<rparr>) = Some w2" "released th w (w2\<lparr>nexus := None\<rparr>)"
    "del_nexus_on_finalize c \<Longrightarrow> nexus_closed w c (w2\<lparr>nexus := None\<rparr>)" "global_rpc_id w1 = global_rpc_id w"
    using release_delete [OF live n] by metis
  moreover from this(7) have "w1\<lparr>global_rpc_id := global_rpc_id w\<rparr> = w1" by simp
  ultimately show "\<exists>w'. ShardClient_Finalize th c w = Some w' \<and> released th w w' \<and> nexus_closed w c w'"
    using live by (auto simp: ShardClient_Finalize_def)
qed

interpretation corfu_shd: endpoint "corfu_ShardClient_InitializeConn p param rnd off sess" ShardClient_Finalize for p param rnd off sess
proof
  fix th c w c' w'
  assume "corfu_ShardClient_InitializeConn p param rnd off sess th c w = Some (Inr (c', w'))"
  then obtain c1 w1 j where d: "connect_nexus (GetProperty p ''shard.client_uri'' ''localhost:31861'') c w = (c1, w1)"
    "SHD_endpoint p (Some j) th w1 = Inr w'" "del_nexus_on_finalize c' = del_nexus_on_finalize c1"
    by (auto simp: corfu_ShardClient_InitializeConn_def create_session_def split: prod.splits sum.splits option.splits if_splits)
  obtain i port where "w' = count_use th (if rpc w1 th = None then new_rpc th i port w1 else w1)"
    using d(2) by (auto simp: SHD_endpoint_def split: if_splits sum.splits)
  then show "acquired th w w' \<and> nexus_opened w c' w'" by (intro acquires [OF d(1), of w1 w']) (simp_all add: d(3))
qed (rule shd.close_releases)

text \<open>A client of the build with \<^verbatim>\<open>CORFU\<close> connects to an identifier that some read thread of the server uses.\<close>

lemma corfu_rpc_ids_served:
  assumes "stoi (GetProperty p ''shard.threadcount'' ''1'') = Inr n" "corfu_rpc_ids p (Some th) rnd off = Some (Inr (i, remote))"
  shows "\<exists>k. 0 \<le> k \<and> k < n \<and> (of_int remote :: byte) = CL_CLI_RPCID_OFFSET + of_int (k + off)"
  using assms by (intro exI [of _ "rnd mod n"]) (auto simp: corfu_rpc_ids_def CL_CLI_RPCID_OFFSET_def split: if_splits)

lemma server_func_start_endpoint:
  assumes "server_func_start r p th w = Inr w'"
  obtains i port where "w' = count_use th (if rpc w th = None then new_rpc th i port w else w)"
  using assms by (cases r) (auto simp: DL_server_func_start_def DL_cl_server_func_start_def CL_server_func_start_def
      SHD_server_func_start_def SHD_read_server_func_start_def KV_server_func_start_def server_endpoint_def set_msg_size_def
      split: sum.splits)

interpretation svr: endpoint "use_open (Serve r) p uri sess" "use_close (Serve r)" for r p uri sess
proof
  fix th c w c' w'
  assume "use_open (Serve r) p uri sess th c w = Some (Inr (c', w'))"
  then have d: "server_func_start r p th w = Inr w'" "nexus w' \<noteq> None" "\<not> del_nexus_on_finalize c'"
    by (auto split: sum.splits if_splits)
  obtain i port where w': "w' = count_use th (if rpc w th = None then new_rpc th i port w else w)"
    using d(1) by (rule server_func_start_endpoint)
  moreover have "connect_nexus uri c w = (c\<lparr>del_nexus_on_finalize := False\<rparr>, w)"
    using d(2) by (auto simp: w' connect_nexus_def count_use_def new_rpc_def split: if_splits)
  ultimately show "acquired th w w' \<and> nexus_opened w c' w'" 
    by (intro acquires [of uri c w "c\<lparr>del_nexus_on_finalize := False\<rparr>" w w w']) (simp_all add: d(3))
next
  fix th w c
  assume live: "rpc_live th w"
  then show "\<exists>w'. use_close (Serve r) th c w = Some w' \<and> released th w w' \<and> nexus_closed w c w'"
    using release_ok [OF live] by (auto simp: server_func_stop_def nexus_closed_def)
qed

interpretation any: endpoint "use_open k p uri sess" "use_close k" for k p uri sess
proof
  fix th c w c' w'
  assume o: "use_open k p uri sess th c w = Some (Inr (c', w'))"
  show "acquired th w w' \<and> nexus_opened w c' w'"
  proof (cases k)
    case (Serve r)
    show ?thesis using o unfolding Serve by (rule svr.open_acquires)
  qed (use o dl.open_acquires cl.open_acquires shd.open_acquires corfu_shd.open_acquires in auto)
next
  fix th w c
  assume a: "rpc_live th w" "\<And>n. nexus w = Some n \<Longrightarrow> nexus_heap w n \<noteq> None"
  show "\<exists>w'. use_close k th c w = Some w' \<and> released th w w' \<and> nexus_closed w c w'"
  proof (cases k)
    case (Serve r)
    show ?thesis unfolding Serve by (rule svr.close_releases [OF a])
  qed (use dl.close_releases [OF a] cl.close_releases [OF a] shd.close_releases [OF a] in simp_all)
qed

section \<open>Processes\<close>

lemma endpoint_inv_new: "endpoint_inv [] ERPC_new" "endpoint_inv [] (new_nexus uri ERPC_new)"
  by (simp_all add: endpoint_inv_def ERPC_new_def new_nexus_def)

lemma process_inv:
  assumes "process w0 us w" "endpoint_inv [] w0"
  shows "endpoint_inv us w"
  using assms
proof (induction rule: process.induct)
  case (opened w0 us w th k p uri sess c w')
  then show ?case by (intro any.open_inv)
next
  case (closed w0 us k th c us' w w')
  then show ?case using any.close_inv [of us k th c us' w k] by auto
qed

text \<open>In a process that begins with a Nexus, as every server does, no use deletes it.\<close>

lemma process_server:
  assumes "process w0 us w" "endpoint_inv [] w0" "nexus w0 = Some n" "rpc_heap w0 = Map.empty"
  shows "nexus w = Some n \<and> (\<forall>u\<in>set us. \<not> del_nexus_on_finalize (snd (snd u))) \<and>
    (\<forall>a ob. rpc_heap w a = Some ob \<longrightarrow> ro_nexus ob = Some n)"
  using assms
proof (induction rule: process.induct)
  case (opened w0 us w th k p uri sess c w')
  then have IH: "nexus w = Some n" "\<forall>u\<in>set us. \<not> del_nexus_on_finalize (snd (snd u))" "rpc_heap w a = Some ob \<Longrightarrow> ro_nexus ob = Some n" for a ob
    by auto
  have "acquired th w w'" "nexus_opened w c w'" using any.open_acquires [OF opened.hyps(3)] by auto
  then show ?case using IH by (fastforce simp: acquired_def nexus_opened_def split: option.splits if_splits)
next
  case (closed w0 us k th c us' w w')
  then have IH: "nexus w = Some n" "\<forall>u\<in>set (us @ (k, th, c) # us'). \<not> del_nexus_on_finalize (snd (snd u))"
    "rpc_heap w a = Some ob \<Longrightarrow> ro_nexus ob = Some n" for a ob by auto
  have "released th w w'" "nexus_closed w c w'"
    using any.close_inv [OF process_inv [OF closed.hyps(1) closed.prems(1)], of k] closed.hyps(2) by auto
  then show ?case using IH by (auto simp: released_def nexus_closed_def split: if_splits)
qed simp

lemma finalize_all_uses:
  assumes "process w0 (us @ map (\<lambda>(k, c). (k, th, c)) cs) w" "endpoint_inv [] w0" "\<And>k c w. (k, c) \<in> set cs \<Longrightarrow> use_close k th c w = fin c w"
  shows "\<exists>w'. finalize_all fin (map snd cs) w = Some w' \<and> process w0 us w'"
  using assms
proof (induction cs arbitrary: w)
  case (Cons kc cs)
  obtain k c where kc: "kc = (k, c)" by (cases kc)
  have p: "process w0 (us @ (k, th, c) # map (\<lambda>(k, c). (k, th, c)) cs) w" using Cons.prems(1) by (simp add: kc)
  obtain w1 where w1: "use_close k th c w = Some w1" using any.close_inv [OF process_inv [OF p Cons.prems(2)], of k] by auto
  have "\<exists>w'. finalize_all fin (map snd cs) w1 = Some w' \<and> process w0 us w'"
    using process.closed [OF p w1] Cons.prems(2, 3) by (intro Cons.IH) auto
  then show ?case using w1 Cons.prems(3) [of k c w] by (simp add: kc)
qed simp



text \<open>C32. A client process can take its Nexus down too early. When the connection that created the Nexus is closed while
  \<^verbatim>\<open>global_rpc_id_\<close> is 1, as it is when one thread alone has connected to durability servers, and this thread has
  another open use, then the Nexus is deleted although the thread still has an \<^verbatim>\<open>Rpc\<close> object on it.\<close>

theorem DL_Finalize_nexus_early:
  assumes p: "process ERPC_new us w" and c: "(Dur q, th, c) \<in> set us" "del_nexus_on_finalize c" "global_rpc_id w = 1"
    and more: "2 \<le> uses_of th us"
  shows "\<exists>w' a ob n. DL_Finalize th c w = Some w' \<and> rpc w' th = Some a \<and> rpc_heap w' a = Some ob \<and> ro_nexus ob = Some n \<and>
    nexus_heap w' n = None"
proof -
  obtain us1 us2 where us: "us = us1 @ (Dur q, th, c) # us2" using split_list [OF c(1)] by auto
  have inv: "endpoint_inv (us1 @ (Dur q, th, c) # us2) w" using process_inv [OF p endpoint_inv_new(1)] by (simp add: us)
  obtain w' where w': "DL_Finalize th c w = Some w'" "endpoint_inv (us1 @ us2) w'" using dl.close_inv [OF inv] by auto
  note I = endpoint_invD [OF w'(2)]
  have "0 < uses_of th (us1 @ us2)" using more by (simp add: us) linarith
  then have "rpc_live th w'" by (rule I(3))
  then obtain a ob where a: "rpc w' th = Some a" "rpc_heap w' a = Some ob" by (auto simp: rpc_live_def split: option.splits)
  obtain n where n: "ro_nexus ob = Some n" using I(8) [OF a(2)] by auto
  have "nexus w' = None"
    using w'(1) c(2, 3) by (auto simp: DL_Finalize_def release_def Let_def split: if_splits option.splits)
  then show ?thesis using w'(1) a n I(6) [of n] by auto
qed

section \<open>Witnesses\<close>

lemma default_numbers: "stoi ''0'' = Inr 0" "stoi ''1'' = Inr 1" "stoull ''8192'' = Inr 8192" "stoull ''2048'' = Inr 2048"
  by code_simp+

lemmas open_defs = DL_InitializeConn_def connect_nexus_def DL_endpoint_def DL_remote_def create_session_def phy_port_def GetProperty_def
  ContainsKey_def new_nexus_def new_rpc_def count_use_def rpc_live_def Conn_new_def ERPC_new_def ShardClient_InitializeConn_def SHD_endpoint_def

lemma two_connections:
  obtains c1 c2 w where "process ERPC_new [(Dur False, 0, c1), (Dur False, 0, c2)] w" "del_nexus_on_finalize c1" "global_rpc_id w = 1"
proof -
  obtain c1 w1 where 1: "DL_InitializeConn Map.empty ''a'' False (Some 0) 0 Conn_new ERPC_new = Some (Inr (c1, w1))" "del_nexus_on_finalize c1"
    "global_rpc_id w1 = 1" "rpc_use_cnt w1 0 = 1" "rpc_live 0 w1" "nexus w1 \<noteq> None"
    by (simp add: open_defs default_numbers Let_def)
  obtain c2 w2 where 2: "DL_InitializeConn Map.empty ''b'' False (Some 1) 0 Conn_new w1 = Some (Inr (c2, w2))" "global_rpc_id w2 = 1"
    using 1(3-6) by (auto simp: open_defs default_numbers Let_def split: option.splits)
  have p1: "process ERPC_new ([] @ [(Dur False, 0, c1)]) w1"
    by (rule process.opened [OF process.start, of _ _ _ Map.empty "''a''" "Some 0"]) (simp_all add: 1(1), simp add: ERPC_new_def)
  have "process ERPC_new (([] @ [(Dur False, 0, c1)]) @ [(Dur False, 0, c2)]) w2"
    by (rule process.opened [OF p1, of _ _ Map.empty "''b''" "Some 1"]) (simp_all add: 1(4) 2(1))
  then show ?thesis using that 1(2) 2(2) by auto
qed



theorem DL_Finalize_nexus_early_witness:
  "\<exists>us w w' c a ob n. process ERPC_new us w \<and> DL_Finalize 0 c w = Some w' \<and> rpc w' 0 = Some a \<and> rpc_heap w' a = Some ob \<and>
    ro_nexus ob = Some n \<and> nexus_heap w' n = None"
proof -
  obtain c1 c2 w where p: "process ERPC_new [(Dur False, 0, c1), (Dur False, 0, c2)] w" "del_nexus_on_finalize c1" "global_rpc_id w = 1"
    by (rule two_connections)
  moreover obtain w' a ob n where "DL_Finalize 0 c1 w = Some w'" "rpc w' 0 = Some a" "rpc_heap w' a = Some ob" "ro_nexus ob = Some n"
    "nexus_heap w' n = None" using DL_Finalize_nexus_early [OF p(1), of False 0 c1] p(2, 3) by auto
  ultimately show ?thesis by blast
qed

end
