(* ===== verification/Rate_Limit.thy ===== *)
theory Rate_Limit
  imports Prelude
begin

text \<open>
  The token bucket that limits the rate of a client, from \<^verbatim>\<open>src/src/utils/ratelimit.h\<close>. Times are the nanoseconds of the
  steady clock, read once per call and given as an argument. All variables are signed 64 bit integers; an overflow of one of
  their operations is undefined behaviour and the result is \<open>None\<close>. The time that \<^verbatim>\<open>Consume\<close> sleeps is part of its
  result, 0 where it does not.
\<close>

section \<open>The model\<close>

definition TOKEN_PRECISION :: int where "TOKEN_PRECISION = 10000"

definition i64 :: "int \<Rightarrow> int option" where
  "i64 x = (if - (2 ^ 63) \<le> x \<and> x < 2 ^ 63 then Some x else None)"

definition c_div :: "int \<Rightarrow> int \<Rightarrow> int" where
  "c_div a b = sgn a * sgn b * (\<bar>a\<bar> div \<bar>b\<bar>)"

record RateLimiter =
  rl_r :: int
  rl_b :: int
  rl_tokens :: int
  rl_last :: int

definition RateLimiter_new :: "int \<Rightarrow> int \<Rightarrow> int \<Rightarrow> RateLimiter option" where
  "RateLimiter_new r b now =
     Option.bind (i64 (r * TOKEN_PRECISION)) (\<lambda>r.
     Option.bind (i64 (b * TOKEN_PRECISION)) (\<lambda>b.
       Some \<lparr>rl_r = r, rl_b = b, rl_tokens = 0, rl_last = now\<rparr>))"

definition refill :: "int \<Rightarrow> RateLimiter \<Rightarrow> RateLimiter option" where
  "refill now rl =
     Option.bind (i64 (now - rl_last rl)) (\<lambda>diff.
     Option.bind (i64 (diff * rl_r rl)) (\<lambda>x.
     Option.bind (i64 (rl_tokens rl + c_div x 1000000000)) (\<lambda>t.
       Some (rl\<lparr>rl_tokens := min (rl_b rl) t, rl_last := now\<rparr>))))"

definition Consume :: "int \<Rightarrow> int \<Rightarrow> RateLimiter \<Rightarrow> (int \<times> RateLimiter) option" where
  "Consume now n rl =
     (if rl_r rl \<le> 0 then Some (0, rl)
      else Option.bind (refill now rl) (\<lambda>rl.
           Option.bind (i64 (n * TOKEN_PRECISION)) (\<lambda>d.
           Option.bind (i64 (rl_tokens rl - d)) (\<lambda>t.
             let rl = rl\<lparr>rl_tokens := t\<rparr>
             in if t < 0 then
                  Option.bind (i64 (- t)) (\<lambda>x.
                  Option.bind (i64 (x * 1000000000)) (\<lambda>y.
                    Some (c_div y (rl_r rl), rl)))
                else Some (0, rl)))))"

definition SetRate :: "int \<Rightarrow> int \<Rightarrow> RateLimiter \<Rightarrow> RateLimiter option" where
  "SetRate now r rl =
     Option.bind (i64 (now - rl_last rl)) (\<lambda>diff.
     Option.bind (i64 (diff * rl_r rl)) (\<lambda>x.
     Option.bind (i64 (x * TOKEN_PRECISION)) (\<lambda>y.
     Option.bind (i64 (rl_tokens rl + c_div y 1000000000)) (\<lambda>t.
     Option.bind (i64 (r * TOKEN_PRECISION)) (\<lambda>r'.
       Some (rl\<lparr>rl_tokens := min (rl_b rl) t, rl_last := now, rl_r := r'\<rparr>))))))"

section \<open>The rate\<close>

text \<open>A sequence of calls \<open>(now, n)\<close>, with the time of the last sleep.\<close>

fun consume_all :: "(int \<times> int) list \<Rightarrow> int \<Rightarrow> RateLimiter \<Rightarrow> (int \<times> RateLimiter) option" where
  "consume_all [] w rl = Some (w, rl)"
| "consume_all ((now, n) # cs) w rl = (case Consume now n rl of None \<Rightarrow> None | Some (w, rl) \<Rightarrow> consume_all cs w rl)"

lemma i64_Some [simp]: "i64 x = Some y \<longleftrightarrow> y = x \<and> - (2 ^ 63) \<le> x \<and> x < 2 ^ 63"
  by (auto simp: i64_def)

lemma c_div_pos: "0 \<le> a \<Longrightarrow> 0 < b \<Longrightarrow> c_div a b = a div b"
  by (cases "a = 0") (simp_all add: c_div_def)

lemma refill_Some:
  assumes "refill now rl = Some rl'" "0 < rl_r rl" "rl_last rl \<le> now"
  shows "rl' = rl\<lparr>rl_tokens := min (rl_b rl) (rl_tokens rl + (now - rl_last rl) * rl_r rl div 1000000000), rl_last := now\<rparr>"
  using assms by (auto simp: refill_def Option.bind_eq_Some_conv c_div_pos)

lemma Consume_Some:
  assumes "Consume now n rl = Some (w, rl')" "0 < rl_r rl" "rl_last rl \<le> now"
  shows "rl_r rl' = rl_r rl" "rl_last rl' = now"
    "rl_tokens rl' = min (rl_b rl) (rl_tokens rl + (now - rl_last rl) * rl_r rl div 1000000000) - n * TOKEN_PRECISION"
    "w = (if rl_tokens rl' < 0 then - rl_tokens rl' * 1000000000 div rl_r rl else 0)"
proof -
  obtain rl1 where r: "refill now rl = Some rl1" "rl' = rl1\<lparr>rl_tokens := rl_tokens rl1 - n * TOKEN_PRECISION\<rparr>"
    "w = (if rl_tokens rl' < 0 then c_div (- rl_tokens rl' * 1000000000) (rl_r rl1) else 0)"
    using assms(1, 2) by (auto simp: Consume_def Option.bind_eq_Some_conv Let_def split: if_splits)
  note f = refill_Some [OF r(1) assms(2, 3)]
  show "rl_r rl' = rl_r rl" "rl_last rl' = now"
    "rl_tokens rl' = min (rl_b rl) (rl_tokens rl + (now - rl_last rl) * rl_r rl div 1000000000) - n * TOKEN_PRECISION"
    unfolding r(2) f by simp_all
  have "rl_r rl1 = rl_r rl" unfolding f by simp
  then show "w = (if rl_tokens rl' < 0 then - rl_tokens rl' * 1000000000 div rl_r rl else 0)"
    using r(3) c_div_pos [of "- rl_tokens rl' * 1000000000" "rl_r rl"] assms(2) by simp
qed

lemma consume_all_tokens:
  assumes "consume_all cs w rl = Some (w', rl')" "0 < rl_r rl" "sorted (rl_last rl # map fst cs)" "cs \<noteq> []"
  shows "rl_r rl' = rl_r rl \<and> rl_last rl' = fst (last cs) \<and>
    sum_list (map snd cs) * TOKEN_PRECISION * 1000000000 + rl_tokens rl' * 1000000000 \<le>
      rl_tokens rl * 1000000000 + rl_r rl * (fst (last cs) - rl_last rl) \<and>
    w' = (if rl_tokens rl' < 0 then - rl_tokens rl' * 1000000000 div rl_r rl else 0)"
  using assms
proof (induction cs arbitrary: w rl)
  case (Cons c cs)
  obtain now n where c: "c = (now, n)" by fastforce
  obtain w1 rl1 where s: "Consume now n rl = Some (w1, rl1)" "consume_all cs w1 rl1 = Some (w', rl')"
    using Cons.prems(1) by (auto simp: c split: option.splits)
  have now: "rl_last rl \<le> now" using Cons.prems(3) by (simp add: c)
  note C = Consume_Some [OF s(1) Cons.prems(2) now]
  let ?x = "(now - rl_last rl) * rl_r rl"
  have "?x div 1000000000 * 1000000000 \<le> ?x" using div_mult_mod_eq [of ?x 1000000000] pos_mod_sign [of 1000000000 ?x] by linarith
  then have step: "rl_tokens rl1 * 1000000000 + n * TOKEN_PRECISION * 1000000000 \<le> rl_tokens rl * 1000000000 + ?x"
    unfolding C(3) by (simp add: algebra_simps min_def)
  show ?case
  proof (cases "cs = []")
    case True
    then have "w' = w1" "rl' = rl1" using s(2) by simp_all
    moreover have "sum_list (map snd (c # cs)) = n" "fst (last (c # cs)) = now" using True by (simp_all add: c)
    moreover have "n * TOKEN_PRECISION * 1000000000 + rl_tokens rl1 * 1000000000 \<le> rl_tokens rl * 1000000000 + rl_r rl * (now - rl_last rl)"
      using step by (simp add: algebra_simps)
    ultimately show ?thesis using C(1, 2, 4) by simp
  next
    case False
    have "0 < rl_r rl1" "sorted (rl_last rl1 # map fst cs)" using Cons.prems(2, 3) C(1, 2) by (simp_all add: c)
    note IH = Cons.IH [OF s(2) this False, unfolded C(1, 2)]
    then show ?thesis using step False by (simp add: c algebra_simps)
  qed
qed simp

text \<open>C28. The limiter keeps its rate. For any sequence of calls that begins with an empty bucket, when the last call returns, that is,
  after its sleep, no more operations have been let through than the rate allows for the time since the start,
  up to the nanosecond of the rounding: the bursts of the bucket do not add to it.\<close>

theorem RateLimiter_rate:
  assumes new: "RateLimiter_new r b t0 = Some rl" "0 < r" and cs: "sorted (t0 # map fst cs)" "cs \<noteq> []"
    and run: "consume_all cs 0 rl = Some (w, rl')"
  shows "sum_list (map snd cs) * 1000000000 \<le> r * (fst (last cs) + w + 1 - t0)"
proof -
  have rl: "rl_r rl = r * TOKEN_PRECISION" "rl_tokens rl = 0" "rl_last rl = t0" "0 < rl_r rl"
    using new by (auto simp: RateLimiter_new_def Option.bind_eq_Some_conv TOKEN_PRECISION_def)
  note T = consume_all_tokens [OF run rl(4) _ cs(2), unfolded rl(2, 3), OF cs(1)]
  have "- rl_tokens rl' * 1000000000 \<le> rl_r rl * (w + 1)"
  proof (cases "rl_tokens rl' < 0")
    case True
    define y where "y = - rl_tokens rl' * 1000000000"
    have "w = y div rl_r rl" using T True by (simp add: y_def)
    moreover have "rl_r rl * (y div rl_r rl) + y mod rl_r rl = y" by (rule mult_div_mod_eq)
    moreover have "y mod rl_r rl < rl_r rl" by (rule pos_mod_bound [OF rl(4)])
    ultimately have "y \<le> rl_r rl * w + rl_r rl" by (metis add_left_mono less_imp_le)
    then show ?thesis by (simp add: y_def algebra_simps)
  next
    case False
    then show ?thesis using T rl(4) by simp
  qed
  then have "sum_list (map snd cs) * TOKEN_PRECISION * 1000000000 \<le> rl_r rl * (fst (last cs) + w + 1 - t0)"
    using T by (simp add: algebra_simps)
  then show ?thesis unfolding rl(1) TOKEN_PRECISION_def by simp
qed

text \<open>A call after a pause of more than \<open>2 ^ 63 / r\<close> nanoseconds overflows; for \<open>100000\<close> operations per second this is
  less than ten seconds.\<close>

lemma Consume_overflow:
  assumes "0 < rl_r rl" "2 ^ 63 \<le> (now - rl_last rl) * rl_r rl"
  shows "Consume now n rl = None"
  using assms by (simp add: Consume_def refill_def i64_def Option.bind_def split: option.split)

theorem RateLimiter_rate_witness:
  "\<exists>rl w rl'. RateLimiter_new 1000 1000 0 = Some rl \<and> consume_all [(0, 1), (1000000, 3), (5000000, 2)] 0 rl = Some (w, rl') \<and>
    sum_list (map snd [(0 :: int, 1 :: int), (1000000, 3), (5000000, 2)]) * 1000000000 \<le> 1000 * (5000000 + w + 1)"
proof -
  have "case RateLimiter_new 1000 1000 0 of None \<Rightarrow> False
      | Some rl \<Rightarrow> (case consume_all [(0, 1), (1000000, 3), (5000000, 2)] 0 rl of None \<Rightarrow> False | Some (w, rl') \<Rightarrow> True)"
    by code_simp
  then obtain rl w rl' where r: "RateLimiter_new 1000 1000 0 = Some rl" "consume_all [(0, 1), (1000000, 3), (5000000, 2)] 0 rl = Some (w, rl')"
    by (auto split: option.splits)
  from RateLimiter_rate [OF r(1) _ _ _ r(2)] r show ?thesis by simp
qed

end
