(* ===== verification/Shard_Server.thy ===== *)
theory Shard_Server
  imports Shard_Client Posix
begin

text \<open>
  A storage shard, from \<^verbatim>\<open>src/src/cons_log/storage/shard_server.cc\<close> in the default build (without
  \<^verbatim>\<open>CORFU\<close>). The entries with index \<open>i\<close>, \<open>i mod shard_num = shard_id\<close>, are stored on the shard, in one
  file per stripe of \<^verbatim>\<open>stripe_unit_size_\<close> entries; the file and the in-memory cache of a stripe have the
  first index of the stripe, \<^verbatim>\<open>base_idx\<close>, as their key.

  The functions are those of the source. \<^verbatim>\<open>AppendBatchHandler\<close> is composed of its critical sections: the requests
  to the backups, the store, the wait for the backups and the update of the replicated index. One pass of the
  loop of \<^verbatim>\<open>ReadEntryHandler\<close> is \<open>ReadEntry_pass\<close>, composed of its sections (check, load, recheck);
  a pass that ends in a wait on the condition variable gives no entry. The mutex and the condition variable
  appear as the boundaries of these sections. \<open>None\<close> is undefined behaviour of the source (access to the back of an
  empty vector, an end iterator), a loop that does not end, or a wait that does not end.
\<close>

section \<open>The model\<close>

record ShardServer =
  entries_cache_set :: "u64 \<rightharpoonup> LogEntry list"
  entries_fd_set :: "u64 \<rightharpoonup> nat"
  cache_size :: "u64 \<rightharpoonup> u64"
  stripe_unit_size :: u64
  shard_num :: int
  shard_id :: int
  folder_path :: string
  num_slow_path_reads :: u64
  num_fast_path_reads :: u64
  replicated_index :: u64
  global_index :: u64
  shard_is_primary :: bool
  os :: FileSys

definition ShardServer_new :: "FileSys \<Rightarrow> ShardServer" where
  "ShardServer_new fs =
     \<lparr>entries_cache_set = Map.empty, entries_fd_set = Map.empty, cache_size = Map.empty, stripe_unit_size = 0,
      shard_num = 0, shard_id = 0, folder_path = [], num_slow_path_reads = 0, num_fast_path_reads = 0,
      replicated_index = 0, global_index = 0, shard_is_primary = False, os = fs\<rparr>"

definition ShardServer_configure :: "Properties \<Rightarrow> ShardServer \<Rightarrow> exn + ShardServer" where
  "ShardServer_configure p st =
     (case stoi (GetProperty p ''shard.stripe_unit_size'' ''100000'') of Inl x \<Rightarrow> Inl x | Inr su \<Rightarrow>
      case stoi (GetProperty p ''shard.num'' ''1'') of Inl x \<Rightarrow> Inl x | Inr n \<Rightarrow>
      case stoi (GetProperty p ''shard.id'' ''0'') of Inl x \<Rightarrow> Inl x | Inr i \<Rightarrow>
      case stoull (GetProperty p ''shard.replicated_index'' ''0'') of Inl x \<Rightarrow> Inl x | Inr ri \<Rightarrow>
      case stoull (GetProperty p ''shard.global_index'' ''0'') of Inl x \<Rightarrow> Inl x | Inr gi \<Rightarrow>
        Inr (st\<lparr>stripe_unit_size := of_int su, shard_num := n, shard_id := i,
               folder_path := GetProperty p ''shard.folder_path'' ''./data/'',
               replicated_index := ri, global_index := gi\<rparr>))"

definition ShardServer_Initialize ::
  "(string \<Rightarrow> bool) \<Rightarrow> (string \<Rightarrow> bool) \<Rightarrow> Properties \<Rightarrow> ShardServer \<Rightarrow> exn + ShardServer" where
  "ShardServer_Initialize is_dir mkdir p st =
     (case ShardServer_configure p st of Inl x \<Rightarrow> Inl x | Inr st \<Rightarrow>
        if \<not> is_dir (folder_path st) \<and> \<not> mkdir (folder_path st) then Inl (Exception ''Can't make directory'')
        else Inr (st\<lparr>shard_is_primary := (GetProperty p ''leader'' ''false'' = ''true'')\<rparr>))"

definition backup_uris :: "Properties \<Rightarrow> string list" where
  "backup_uris p = SeparateValue (GetProperty p ''shard.backup_uri'' ''localhost:31860'') CHR '',''"

definition big_stripe_unit_size :: "ShardServer \<Rightarrow> u64" where
  "big_stripe_unit_size st = stripe_unit_size st * of_int (shard_num st)"

definition base_idx_of :: "ShardServer \<Rightarrow> u64 \<Rightarrow> u64" where
  "base_idx_of st idx = idx div big_stripe_unit_size st * big_stripe_unit_size st"

definition local_cache_idx :: "ShardServer \<Rightarrow> u64 \<Rightarrow> u64" where
  "local_cache_idx st idx = (idx - base_idx_of st idx) div of_int (shard_num st)"

definition getDataFilePath :: "ShardServer \<Rightarrow> u64 \<Rightarrow> string" where
  "getDataFilePath st base_idx =
     folder_path st @ ''/entries_'' @ nat_string (unat base_idx) @ ''_r_'' @ int_string (shard_id st) @ ''.dat''"

definition writeFromCacheToDisk :: "ShardServer \<Rightarrow> u64 \<Rightarrow> (int \<times> ShardServer) option" where
  "writeFromCacheToDisk st base_idx =
     (case entries_fd_set st base_idx of
        None \<Rightarrow> None
      | Some fd \<Rightarrow> Some (0, st\<lparr>os := close_fd (os st) fd\<rparr>))"

definition loadFromDiskToCache :: "ShardServer \<Rightarrow> u64 \<Rightarrow> (int \<times> ShardServer) option" where
  "loadFromDiskToCache st base_idx =
     (case open_rdonly (os st) (getDataFilePath st base_idx) of
        (None, fs) \<Rightarrow> Some (- 1, st)
      | (Some fd, fs) \<Rightarrow>
          (case fstat_size fs fd of
             None \<Rightarrow> Some (9, st\<lparr>os := close_fd fs fd\<rparr>)
           | Some st_size \<Rightarrow>
               (case mmap_fd fs fd of
                  None \<Rightarrow> Some (- 1, st\<lparr>os := fs\<rparr>)
                | Some c \<Rightarrow>
                    (case MultiDeserializer_size [] (mapped c) 0 (of_nat st_size) 0 of
                       None \<Rightarrow> None
                     | Some (es, n) \<Rightarrow>
                         let st = st\<lparr>os := fs, entries_cache_set := (entries_cache_set st)(base_idx \<mapsto> es)\<rparr>
                         in if of_nat st_size < stripe_unit_size st
                            then Some (0, st\<lparr>cache_size := (cache_size st)(base_idx \<mapsto> of_nat st_size),
                                            entries_fd_set := (entries_fd_set st)(base_idx \<mapsto> fd)\<rparr>)
                            else Some (0, st\<lparr>os := close_fd fs fd\<rparr>)))))"

definition addToEntryCache_open :: "ShardServer \<Rightarrow> u64 \<Rightarrow> (nat option \<times> ShardServer) option" where
  "addToEntryCache_open st base_idx =
     (case entries_cache_set st base_idx of
        None \<Rightarrow>
          (case loadFromDiskToCache st base_idx of
             None \<Rightarrow> None
           | Some (r, st) \<Rightarrow>
               if r < 0 then
                 let st = st\<lparr>entries_cache_set := (entries_cache_set st)(base_idx \<mapsto> []),
                             cache_size := (cache_size st)(base_idx \<mapsto> 0)\<rparr>
                 in case open_create (os st) (getDataFilePath st base_idx) of
                      (None, fs) \<Rightarrow> Some (None, st\<lparr>os := fs\<rparr>)
                    | (Some fd, fs) \<Rightarrow>
                        Some (Some fd, st\<lparr>os := fs, entries_fd_set := (entries_fd_set st)(base_idx \<mapsto> fd)\<rparr>)
               else Some (Some 0, st))
      | Some _ \<Rightarrow>
          let (fd, fm) = op_index (entries_fd_set st) base_idx in Some (Some fd, st\<lparr>entries_fd_set := fm\<rparr>))"

definition addToEntryCache_append :: "ShardServer \<Rightarrow> u64 \<Rightarrow> nat \<Rightarrow> mem \<Rightarrow> ShardServer" where
  "addToEntryCache_append st base_idx fd m =
     (let es = (case entries_cache_set st base_idx of None \<Rightarrow> [] | Some es \<Rightarrow> es);
          (es, n) = MultiDeserializer es m 0;
          batch_len = n - 4;
          st = st\<lparr>entries_cache_set := (entries_cache_set st)(base_idx \<mapsto> es),
                  cache_size := (cache_size st)(base_idx \<mapsto> lookup0 (cache_size st) base_idx + batch_len)\<rparr>
      in st\<lparr>os := snd (write_fd (os st) fd (bytes_at m 4 (unat batch_len)))\<rparr>)"

definition addToEntryCache :: "ShardServer \<Rightarrow> u64 \<Rightarrow> mem \<Rightarrow> ShardServer option" where
  "addToEntryCache st base_idx m =
     (case addToEntryCache_open st base_idx of
        None \<Rightarrow> None
      | Some (None, st) \<Rightarrow> Some st
      | Some (Some fd, st) \<Rightarrow> Some (addToEntryCache_append st base_idx fd m))"

definition cached :: "ShardServer \<Rightarrow> u64 \<Rightarrow> LogEntry list" where
  "cached st base_idx = (case entries_cache_set st base_idx of None \<Rightarrow> [] | Some es \<Rightarrow> es)"

definition store_batch :: "ShardServer \<Rightarrow> u64 \<Rightarrow> mem \<Rightarrow> (int \<times> ShardServer) option" where
  "store_batch st base_idx m =
     (case addToEntryCache st base_idx m of
        None \<Rightarrow> None
      | Some st \<Rightarrow>
          if stripe_unit_size st \<le> of_nat (length (cached st base_idx)) then writeFromCacheToDisk st base_idx
          else Some (0, st))"

definition batch_base_idx :: "ShardServer \<Rightarrow> MsgBuffer \<Rightarrow> u64" where
  "batch_base_idx st req = base_idx_of st (log_idx (fst (Deserializer LogEntry_new (buf req) 4)))"

definition commit_batch :: "ShardServer \<Rightarrow> u64 \<Rightarrow> ShardServer option" where
  "commit_batch st base_idx =
     (if cached st base_idx = [] then None
      else Some (st\<lparr>replicated_index := log_idx (last (cached st base_idx))\<rparr>))"

fun wait_backups :: "'b net \<Rightarrow> ((ShardClient \<times> request) \<times> 'b) list \<Rightarrow> (ShardClient \<times> 'b) list option" where
  "wait_backups net [] = Some []"
| "wait_backups net (((c, t, m), b) # bs) =
     (case net t m b of
        None \<Rightarrow> None
      | Some (r, b) \<Rightarrow>
          (case wait_backups net bs of None \<Rightarrow> None | Some bs \<Rightarrow> Some ((c\<lparr>sc_resp := r\<rparr>, b) # bs)))"

definition AppendBatchHandler ::
  "'b net \<Rightarrow> MsgBuffer \<Rightarrow> MsgBuffer \<Rightarrow> ShardServer \<times> (ShardClient \<times> 'b) list \<Rightarrow>
    (MsgBuffer \<times> ShardServer \<times> (ShardClient \<times> 'b) list) option" where
  "AppendBatchHandler net resp req sb =
     (case sb of (st, bs) \<Rightarrow>
        let base_idx = batch_base_idx st req;
            rs = map (\<lambda>(c, b). (ReplicateBatchAsync c (buf req) (data_size req), b)) bs
        in case store_batch st base_idx (buf req) of None \<Rightarrow> None | Some (_, st) \<Rightarrow>
           case wait_backups net rs of None \<Rightarrow> None | Some bs \<Rightarrow>
           case commit_batch st base_idx of None \<Rightarrow> None | Some st \<Rightarrow>
             Some ((resize_msg_buffer resp 4)\<lparr>buf := put_le (buf resp) 0 (0 :: u32)\<rparr>, st, bs))"

definition ReplicateBatchHandler ::
  "MsgBuffer \<Rightarrow> MsgBuffer \<Rightarrow> ShardServer \<Rightarrow> (MsgBuffer \<times> ShardServer) option" where
  "ReplicateBatchHandler resp req st =
     (case store_batch st (batch_base_idx st req) (buf req) of
        None \<Rightarrow> None
      | Some (r, st) \<Rightarrow>
          Some (resize_msg_buffer (resp\<lparr>buf := put_le (buf resp) 0 (Status_word (if r < 0 then ERROR else OK))\<rparr>) 4, st))"

definition ReadEntry_check :: "ShardServer \<Rightarrow> u64 \<Rightarrow> bool" where
  "ReadEntry_check st base_idx \<longleftrightarrow> entries_cache_set st base_idx \<noteq> None"

definition ReadEntry_load :: "ShardServer \<Rightarrow> u64 \<Rightarrow> (bool \<times> ShardServer) option" where
  "ReadEntry_load st base_idx =
     (if entries_cache_set st base_idx = None
      then (case loadFromDiskToCache st base_idx of None \<Rightarrow> None | Some (r, st) \<Rightarrow> Some (r = 0, st))
      else Some (True, st))"

definition ReadEntry_serve :: "ShardServer \<Rightarrow> u64 \<Rightarrow> LogEntry option" where
  "ReadEntry_serve st idx =
     (let es = cached st (base_idx_of st idx)
      in if of_nat (length es) \<le> local_cache_idx st idx \<or> replicated_index st < idx \<or> global_index st < idx
         then None else Some (es ! unat (local_cache_idx st idx)))"

definition ReadEntry_pass :: "ShardServer \<Rightarrow> u64 \<Rightarrow> (LogEntry option \<times> ShardServer) option" where
  "ReadEntry_pass st idx =
     (let base_idx = base_idx_of st idx
      in if ReadEntry_check st base_idx then Some (ReadEntry_serve st idx, st)
         else case ReadEntry_load st base_idx of
                None \<Rightarrow> None
              | Some (loaded, st) \<Rightarrow>
                  if \<not> loaded \<and> \<not> ReadEntry_check st base_idx then Some (None, st)
                  else Some (ReadEntry_serve st idx, st))"

definition ReadEntryHandler ::
  "bool \<Rightarrow> MsgBuffer \<Rightarrow> MsgBuffer \<Rightarrow> ShardServer \<Rightarrow> (MsgBuffer \<times> ShardServer) option" where
  "ReadEntryHandler slow_path_exercized resp req st =
     (case ReadEntry_pass st (get_le (buf req) 0) of
        Some (Some e, st) \<Rightarrow>
          (case Serializer e (buf resp) 0 of (m, len) \<Rightarrow>
             Some (resize_msg_buffer (resp\<lparr>buf := m\<rparr>) (unat len),
                   if slow_path_exercized then st\<lparr>num_slow_path_reads := num_slow_path_reads st + 1\<rparr>
                   else st\<lparr>num_fast_path_reads := num_fast_path_reads st + 1\<rparr>))
      | _ \<Rightarrow> None)"

definition UpdateGlobalIdxHandler ::
  "MsgBuffer \<Rightarrow> MsgBuffer \<Rightarrow> ShardServer \<Rightarrow> (MsgBuffer \<times> ShardServer) option" where
  "UpdateGlobalIdxHandler resp req st =
     Some (resize_msg_buffer (resp\<lparr>buf := put_le (buf resp) 0 (0 :: u32)\<rparr>) 4,
           st\<lparr>global_index := get_le (buf req) 0\<rparr>)"

section \<open>Stripes in memory and on disk\<close>

definition shard_geometry :: "ShardServer \<Rightarrow> bool" where
  "shard_geometry st \<longleftrightarrow> 0 < unat (stripe_unit_size st) \<and> 0 < shard_num st \<and> shard_num st < 2 ^ 31 \<and>
     unat (stripe_unit_size st) * nat (shard_num st) < 2 ^ 64"

text \<open>The stripe with first index \<open>b\<close> holds \<open>es\<close>: in the cache, and as a stream of entries in its file, which
  is open for appending as long as the stripe is not full.\<close>

definition stripe_ok :: "ShardServer \<Rightarrow> u64 \<Rightarrow> LogEntry list \<Rightarrow> bool" where
  "stripe_ok st b es \<longleftrightarrow> entries_cache_set st b = Some es \<and> list_all wf_entry es \<and> list_all valid es \<and>
     (\<exists>c. files (os st) (getDataFilePath st b) = Some c \<and> length c = tsz es \<and> entries_at (mapped c) 0 es) \<and>
     (length es < unat (stripe_unit_size st) \<longrightarrow>
       (\<exists>fd. entries_fd_set st b = Some fd \<and> fd_of (os st) fd = Some (File (getDataFilePath st b) True (tsz es))))"

definition store_inv :: "ShardServer \<Rightarrow> bool" where
  "store_inv st \<longleftrightarrow> shard_geometry st \<and> (\<forall>b. creatable (os st) (getDataFilePath st b)) \<and>
     (\<forall>b. case entries_cache_set st b of
        None \<Rightarrow> files (os st) (getDataFilePath st b) = None
      | Some es \<Rightarrow> stripe_ok st b es)"

definition same_config :: "ShardServer \<Rightarrow> ShardServer \<Rightarrow> bool" where
  "same_config st st' \<longleftrightarrow> stripe_unit_size st' = stripe_unit_size st \<and> shard_num st' = shard_num st \<and>
     shard_id st' = shard_id st \<and> folder_path st' = folder_path st \<and> creatable (os st') = creatable (os st) \<and>
     shard_is_primary st' = shard_is_primary st"

definition same_indices :: "ShardServer \<Rightarrow> ShardServer \<Rightarrow> bool" where
  "same_indices st st' \<longleftrightarrow> replicated_index st' = replicated_index st \<and> global_index st' = global_index st"

definition stripe_frame :: "u64 \<Rightarrow> ShardServer \<Rightarrow> ShardServer \<Rightarrow> bool" where
  "stripe_frame b st st' \<longleftrightarrow> same_config st st' \<and> same_indices st st' \<and>
     (\<forall>b'. b' \<noteq> b \<longrightarrow> entries_cache_set st' b' = entries_cache_set st b' \<and>
        entries_fd_set st' b' = entries_fd_set st b' \<and>
        files (os st') (getDataFilePath st b') = files (os st) (getDataFilePath st b')) \<and>
     (\<forall>fd p w pos. fd_of (os st) fd = Some (File p w pos) \<longrightarrow> p \<noteq> getDataFilePath st b \<longrightarrow>
        fd_of (os st') fd = fd_of (os st) fd)"

text \<open>Indices and counters do not matter for what is stored.\<close>

lemma getDataFilePath_upd [simp]:
  "getDataFilePath (st\<lparr>replicated_index := x\<rparr>) = getDataFilePath st" "getDataFilePath (st\<lparr>global_index := x\<rparr>) = getDataFilePath st"
  "getDataFilePath (st\<lparr>num_slow_path_reads := x\<rparr>) = getDataFilePath st"
  "getDataFilePath (st\<lparr>num_fast_path_reads := x\<rparr>) = getDataFilePath st"
  by (rule ext, simp add: getDataFilePath_def)+

lemma cached_upd [simp]:
  "cached (st\<lparr>replicated_index := x\<rparr>) = cached st" "cached (st\<lparr>global_index := x\<rparr>) = cached st"
  "cached (st\<lparr>num_slow_path_reads := x\<rparr>) = cached st" "cached (st\<lparr>num_fast_path_reads := x\<rparr>) = cached st"
  by (rule ext, simp add: cached_def)+

lemma store_inv_upd [simp]:
  "store_inv (st\<lparr>replicated_index := x\<rparr>) = store_inv st" "store_inv (st\<lparr>global_index := x\<rparr>) = store_inv st"
  "store_inv (st\<lparr>num_slow_path_reads := x\<rparr>) = store_inv st" "store_inv (st\<lparr>num_fast_path_reads := x\<rparr>) = store_inv st"
  by (simp_all add: store_inv_def shard_geometry_def stripe_ok_def cong: option.case_cong)

lemma same_config_refl [simp]: "same_config st st" "same_indices st st"
  by (simp_all add: same_config_def same_indices_def)

lemma getDataFilePath_inj [simp]: "getDataFilePath st b = getDataFilePath st b' \<longleftrightarrow> b = b'"
  by (simp add: getDataFilePath_def nat_string_inj flip: word_unat_eq_iff)

lemma same_config_path: "same_config st st' \<Longrightarrow> getDataFilePath st' b = getDataFilePath st b"
  by (simp add: same_config_def getDataFilePath_def)

lemma same_config_geometry: "same_config st st' \<Longrightarrow> shard_geometry st' = shard_geometry st"
  by (simp add: same_config_def shard_geometry_def)

lemma stripe_frame_config: "stripe_frame b st st' \<Longrightarrow> same_config st st'"
  by (simp add: stripe_frame_def)

lemma stripe_frameI:
  assumes "same_config st st'" "same_indices st st'"
    and "\<And>b'. b' \<noteq> b \<Longrightarrow> entries_cache_set st' b' = entries_cache_set st b' \<and>
      entries_fd_set st' b' = entries_fd_set st b' \<and>
      files (os st') (getDataFilePath st b') = files (os st) (getDataFilePath st b')"
    and "\<And>x. x \<noteq> fd \<Longrightarrow> fd_of (os st') x = fd_of (os st) x"
    and "\<And>p w pos. fd_of (os st) fd = Some (File p w pos) \<Longrightarrow> p = getDataFilePath st b"
  shows "stripe_frame b st st'"
  unfolding stripe_frame_def using assms by metis

lemma stripe_frame_trans:
  assumes "stripe_frame b st st1" "stripe_frame b st1 st2"
  shows "stripe_frame b st st2"
proof -
  have p: "getDataFilePath st1 x = getDataFilePath st x" for x
    by (rule same_config_path [OF stripe_frame_config [OF assms(1)]])
  show ?thesis
    using assms unfolding stripe_frame_def p same_config_def same_indices_def by simp
qed

lemma stripe_frame_ok:
  assumes "stripe_frame b st st'" "b' \<noteq> b" "stripe_ok st b' es"
  shows "stripe_ok st' b' es"
proof -
  have "getDataFilePath st b' \<noteq> getDataFilePath st b" using assms(2) by simp
  moreover have "getDataFilePath st' b' = getDataFilePath st b'"
    by (rule same_config_path [OF stripe_frame_config [OF assms(1)]])
  ultimately show ?thesis
    using assms unfolding stripe_ok_def stripe_frame_def same_config_def by auto
qed

lemma store_inv_step:
  assumes "store_inv st" "stripe_frame b st st'" "stripe_ok st' b es"
  shows "store_inv st'" "entries_cache_set st' = (entries_cache_set st)(b \<mapsto> es)"
proof -
  note c = stripe_frame_config [OF assms(2)]
  have p: "getDataFilePath st' x = getDataFilePath st x" for x by (rule same_config_path [OF c])
  have "case entries_cache_set st' b' of None \<Rightarrow> files (os st') (getDataFilePath st' b') = None
      | Some es \<Rightarrow> stripe_ok st' b' es" for b'
  proof (cases "b' = b")
    case True
    then show ?thesis using assms(3) by (auto simp: stripe_ok_def split: option.split)
  next
    case False
    have "case entries_cache_set st b' of None \<Rightarrow> files (os st) (getDataFilePath st b') = None
      | Some es \<Rightarrow> stripe_ok st b' es" using assms(1) by (simp add: store_inv_def)
    then show ?thesis
      using False assms(2) stripe_frame_ok [OF assms(2) False] by (auto simp: stripe_frame_def p split: option.splits)
  qed
  moreover have "shard_geometry st'" "\<forall>b. creatable (os st') (getDataFilePath st' b)"
    using assms(1) c same_config_geometry [OF c] by (simp_all add: store_inv_def p same_config_def)
  ultimately show "store_inv st'"
    by (simp add: store_inv_def)
  show "entries_cache_set st' = (entries_cache_set st)(b \<mapsto> es)"
    using assms(2, 3) by (auto simp: stripe_frame_def stripe_ok_def)
qed

lemma addToEntryCache_open_ok:
  assumes inv: "store_inv st" and room: "length (cached st b) < unat (stripe_unit_size st)"
  shows "\<exists>fd st'. addToEntryCache_open st b = Some (Some fd, st') \<and> stripe_frame b st st' \<and>
    stripe_ok st' b (cached st b) \<and> entries_fd_set st' b = Some fd"
proof (cases "entries_cache_set st b")
  case None
  then have f: "files (os st) (getDataFilePath st b) = None" and cr: "creatable (os st) (getDataFilePath st b)"
    using inv by (auto simp: store_inv_def split: option.splits dest: spec [of _ b])
  obtain fd fs' where fs: "open_create (os st) (getDataFilePath st b) = (Some fd, fs')" "fd_of (os st) fd = None"
    "fd_of fs' fd = Some (File (getDataFilePath st b) True 0)" "\<And>x. x \<noteq> fd \<Longrightarrow> fd_of fs' x = fd_of (os st) x"
    "files fs' = (files (os st))(getDataFilePath st b \<mapsto> [])" "creatable fs' = creatable (os st)"
    using open_create_spec [OF cr] by blast
  let ?st = "st\<lparr>entries_cache_set := (entries_cache_set st)(b \<mapsto> []), cache_size := (cache_size st)(b \<mapsto> 0),
    os := fs', entries_fd_set := (entries_fd_set st)(b \<mapsto> fd)\<rparr>"
  have p: "getDataFilePath (st\<lparr>entries_cache_set := x, cache_size := y\<rparr>) = getDataFilePath st"
    "getDataFilePath ?st = getDataFilePath st" for x y
    by (rule ext, simp add: getDataFilePath_def)+
  have "addToEntryCache_open st b = Some (Some fd, ?st)"
    using None f fs(1) by (simp add: addToEntryCache_open_def loadFromDiskToCache_def open_rdonly_def Let_def p)
  moreover have "stripe_frame b st ?st"
    by (rule stripe_frameI [where fd = fd]) (use fs(2, 4-6) in \<open>simp_all add: same_config_def same_indices_def\<close>)
  moreover have "stripe_ok ?st b (cached st b)"
    using None fs(3, 5) by (simp add: stripe_ok_def cached_def p)
  ultimately show ?thesis by fastforce
next
  case (Some es)
  then have ok: "stripe_ok st b es"
    using inv by (auto simp: store_inv_def split: option.splits dest: spec [of _ b])
  moreover from this obtain fd where "entries_fd_set st b = Some fd"
    using room Some by (auto simp: stripe_ok_def cached_def)
  moreover from this have "addToEntryCache_open st b = Some (Some fd, st)"
    using Some by (simp add: addToEntryCache_open_def op_index_def)
  ultimately show ?thesis
    using Some by (auto simp: cached_def stripe_frame_def)
qed

lemma addToEntryCache_append_ok:
  assumes ok: "stripe_ok st b es" "length es < unat (stripe_unit_size st)" "entries_fd_set st b = Some fd"
    and req: "batch_msg req xs"
  shows "stripe_frame b st (addToEntryCache_append st b fd (buf req))"
    and "stripe_ok (addToEntryCache_append st b fd (buf req)) b (es @ xs)"
    and "fd_of (os (addToEntryCache_append st b fd (buf req))) fd = Some (File (getDataFilePath st b) True (tsz (es @ xs)))"
proof -
  obtain c where c: "files (os st) (getDataFilePath st b) = Some c" "length c = tsz es" "entries_at (mapped c) 0 es"
    using ok(1) by (auto simp: stripe_ok_def)
  have fd: "fd_of (os st) fd = Some (File (getDataFilePath st b) True (length c))"
    using ok c(2) by (auto simp: stripe_ok_def)
  have wf: "list_all wf_entry es" "list_all wf_entry xs" "list_all valid es" "list_all valid xs"
    and ex: "entries_at (buf req) 4 xs"
    using ok(1) req by (simp_all add: stripe_ok_def batch_msg_def)
  let ?bs = "bytes_at (buf req) 4 (tsz xs)"
  obtain fs' where fs: "write_fd (os st) fd ?bs = (Some (length ?bs), fs')"
    "files fs' = (files (os st))(getDataFilePath st b \<mapsto> c @ ?bs)"
    "fd_of fs' fd = Some (File (getDataFilePath st b) True (length (c @ ?bs)))"
    "\<And>x. x \<noteq> fd \<Longrightarrow> fd_of fs' x = fd_of (os st) x" "creatable fs' = creatable (os st)"
    using write_fd_end [OF fd c(1)] by metis
  let ?st = "st\<lparr>entries_cache_set := (entries_cache_set st)(b \<mapsto> es @ xs),
    cache_size := (cache_size st)(b \<mapsto> lookup0 (cache_size st) b + of_nat (tsz xs)), os := fs'\<rparr>"
  have "of_nat (4 + tsz xs) - 4 = (of_nat (tsz xs) :: u64)" "unat (of_nat (tsz xs) :: u64) = tsz xs"
    using req by (simp_all add: batch_msg_def unat_of_nat_small)
  then have eq: "addToEntryCache_append st b fd (buf req) = ?st"
    using ok(1) fs(1) MultiDeserializer_batch_msg [OF req, of es]
    by (simp add: addToEntryCache_append_def stripe_ok_def Let_def del: of_nat_add)
  have p: "getDataFilePath ?st = getDataFilePath st" by (rule ext) (simp add: getDataFilePath_def)
  show "stripe_frame b st (addToEntryCache_append st b fd (buf req))"
    unfolding eq
    by (rule stripe_frameI [where fd = fd]) (use fd fs(2, 4, 5) in \<open>simp_all add: same_config_def same_indices_def\<close>)
  show "stripe_ok (addToEntryCache_append st b fd (buf req)) b (es @ xs)"
    unfolding eq stripe_ok_def p
    using fs(2, 3) c(2) ok(3) wf mapped_stream_append [OF wf(1) c(3, 2) ex] by simp
  show "fd_of (os (addToEntryCache_append st b fd (buf req))) fd = Some (File (getDataFilePath st b) True (tsz (es @ xs)))"
    unfolding eq using fs(3) c(2) by simp
qed

text \<open>Storing a batch extends its stripe, in the cache and in the file, and nothing else.\<close>

lemma store_batch_ok:
  assumes inv: "store_inv st" and req: "batch_msg req xs"
    and room: "length (cached st b) < unat (stripe_unit_size st)"
  shows "\<exists>st'. store_batch st b (buf req) = Some (0, st') \<and> store_inv st' \<and> same_config st st' \<and> same_indices st st' \<and>
    entries_cache_set st' = (entries_cache_set st)(b \<mapsto> cached st b @ xs)"
proof -
  let ?es = "cached st b"
  obtain fd st1 where st1: "addToEntryCache_open st b = Some (Some fd, st1)" "stripe_frame b st st1"
    "stripe_ok st1 b ?es" "entries_fd_set st1 b = Some fd"
    using addToEntryCache_open_ok [OF inv room] by blast
  have u: "stripe_unit_size st1 = stripe_unit_size st"
    using st1(2) by (simp add: stripe_frame_def same_config_def)
  define st2 where "st2 = addToEntryCache_append st1 b fd (buf req)"
  note a = addToEntryCache_append_ok [OF st1(3) _ st1(4) req, folded st2_def, unfolded u, OF room]
  have f: "stripe_frame b st st2" by (rule stripe_frame_trans [OF st1(2) a(1)])
  note s = store_inv_step [OF inv f a(2)]
  have add: "addToEntryCache st b (buf req) = Some st2"
    by (simp add: addToEntryCache_def st1(1) st2_def)
  have c2: "cached st2 b = ?es @ xs" using s(2) by (simp add: cached_def)
  have ci: "same_config st st2" "same_indices st st2" using f by (simp_all add: stripe_frame_def)
  show ?thesis
  proof (cases "stripe_unit_size st2 \<le> of_nat (length (cached st2 b))")
    case False
    then show ?thesis using s ci add by (auto simp: store_batch_def cached_def)
  next
    case True
    have "entries_fd_set st2 b = Some fd"
      using st1(4) by (simp add: st2_def addToEntryCache_append_def Let_def case_prod_beta)
    then have w: "store_batch st b (buf req) = Some (0, st2\<lparr>os := close_fd (os st2) fd\<rparr>)"
      using True by (simp add: store_batch_def add writeFromCacheToDisk_def)
    have "unat (stripe_unit_size st2) \<le> length (cached st2 b)"
      using True unat_of_nat_le [of "length (cached st2 b)", where ?'a = 64] by (simp add: word_le_nat_alt)
    then have ok': "stripe_ok (st2\<lparr>os := close_fd (os st2) fd\<rparr>) b (?es @ xs)"
      using a(2) unfolding stripe_ok_def c2 by (simp add: getDataFilePath_def)
    have "stripe_frame b st2 (st2\<lparr>os := close_fd (os st2) fd\<rparr>)"
      by (rule stripe_frameI [where fd = fd])
        (use a(3) same_config_path [OF stripe_frame_config [OF a(1)], of b] in
          \<open>simp_all add: same_config_def same_indices_def\<close>)
    then have f': "stripe_frame b st (st2\<lparr>os := close_fd (os st2) fd\<rparr>)" by (rule stripe_frame_trans [OF f])
    show ?thesis
      using store_inv_step [OF inv f' ok'] f' w
      by (intro exI [of _ "st2\<lparr>os := close_fd (os st2) fd\<rparr>"] conjI) (simp_all add: stripe_frame_def)
  qed
qed

section \<open>Restarts\<close>

lemma loadFromDiskToCache_ok:
  assumes c: "files (os st) (getDataFilePath st b) = Some c" "c \<noteq> []" "length c = tsz es" "entries_at (mapped c) 0 es"
    and es: "list_all wf_entry es" "list_all valid es" "tsz es < 2 ^ 64"
  shows "\<exists>fd st'. loadFromDiskToCache st b = Some (0, st') \<and> entries_cache_set st' = (entries_cache_set st)(b \<mapsto> es) \<and>
    files (os st') = files (os st) \<and> same_config st st' \<and> same_indices st st' \<and>
    fd_of (os st) fd = None \<and> (\<forall>x. x \<noteq> fd \<longrightarrow> fd_of (os st') x = fd_of (os st) x)"
proof -
  let ?p = "getDataFilePath st b"
  obtain fd fs where a: "alloc_fd (os st) (File ?p False 0) = (fd, fs)"
    by (cases "alloc_fd (os st) (File ?p False 0)")
  note A = alloc_fd_spec [OF a]
  have o: "open_rdonly (os st) ?p = (Some fd, fs)" using c(1) a by (simp add: open_rdonly_def)
  have f: "fstat_size fs fd = Some (tsz es)" "mmap_fd fs fd = Some c"
    using A(2, 4) c by (simp_all add: fstat_size_def mmap_fd_def)
  have "MultiDeserializer_size [] (mapped c) 0 (of_nat (tsz es)) 0 = Some (es, of_nat (tsz es))"
    using MultiDeserializer_size_chain [of "mapped c" 0 0 es "of_nat (tsz es)" "[]"] c(4) es
    by (simp add: unat_of_nat_small takeWhile_all)
  then show ?thesis
    using o f A by (auto simp: loadFromDiskToCache_def Let_def same_config_def same_indices_def intro!: exI [of _ fd])
qed

text \<open>What is left of a server after its process has ended: the files.\<close>

definition restarted :: "ShardServer \<Rightarrow> ShardServer" where
  "restarted st = st\<lparr>entries_cache_set := Map.empty, entries_fd_set := Map.empty, cache_size := Map.empty,
     os := (os st)\<lparr>fds := [Some Other, Some Other, Some Other]\<rparr>\<rparr>"

text \<open>C27. Recovery: every non-empty stripe that a server has stored can be loaded again after a restart, and
  \<^verbatim>\<open>loadFromDiskToCache\<close> then has put exactly the stored entries, in order, into the cache.\<close>

theorem loadFromDiskToCache_recovers:
  assumes "store_inv st" "entries_cache_set st b = Some es" "es \<noteq> []" "tsz es < 2 ^ 64"
  shows "\<exists>st'. loadFromDiskToCache (restarted st) b = Some (0, st') \<and> entries_cache_set st' = [b \<mapsto> es] \<and>
    files (os st') = files (os st)"
proof -
  have "stripe_ok st b es"
    using assms(1, 2) by (auto simp: store_inv_def split: option.splits dest: spec [of _ b])
  then obtain c where c: "files (os st) (getDataFilePath st b) = Some c" "length c = tsz es" "entries_at (mapped c) 0 es"
    and es: "list_all wf_entry es" "list_all valid es" by (auto simp: stripe_ok_def)
  have "0 < tsz es" using assms(3) by (cases es) (simp_all add: esz_def)
  then have "c \<noteq> []" using c(2) by (metis less_irrefl list.size(3))
  moreover have "files (os (restarted st)) (getDataFilePath (restarted st) b) = Some c"
    using c(1) by (simp add: restarted_def getDataFilePath_def)
  ultimately show ?thesis
    using loadFromDiskToCache_ok [of "restarted st" b c es] c(2, 3) es assms(4) by (auto simp: restarted_def)
qed

text \<open>C36. Appending to a stripe that was loaded from disk: the entries of the batch reach the cache, but the file of the stripe, like
  every other file, stays as it was, because the descriptor that \<^verbatim>\<open>addToEntryCache\<close> writes to is 0, the standard
  input. After the next restart these entries are gone although the append was acknowledged.\<close>

theorem addToEntryCache_after_load_not_durable:
  assumes c: "entries_cache_set st b = None" "files (os st) (getDataFilePath st b) = Some c" "c \<noteq> []"
    and es: "length c = tsz es" "entries_at (mapped c) 0 es" "list_all wf_entry es" "list_all valid es" "tsz es < 2 ^ 64"
    and stdin: "fd_of (os st) 0 = Some Other" and req: "batch_msg req xs"
  shows "\<exists>st'. addToEntryCache st b (buf req) = Some st' \<and> cached st' b = es @ xs \<and> files (os st') = files (os st)"
proof -
  obtain fd st1 where st1: "loadFromDiskToCache st b = Some (0, st1)" "entries_cache_set st1 = (entries_cache_set st)(b \<mapsto> es)"
    "files (os st1) = files (os st)" "fd_of (os st) fd = None" "\<forall>x. x \<noteq> fd \<longrightarrow> fd_of (os st1) x = fd_of (os st) x"
    using loadFromDiskToCache_ok [OF c(2, 3) es(1-5)] by blast
  have "fd_of (os st1) 0 = Some Other" using st1(4, 5) stdin by (metis option.distinct(1))
  then have "files (os (addToEntryCache_append st1 b 0 (buf req))) = files (os st)"
    using st1(3) by (simp add: addToEntryCache_append_def write_fd_def Let_def case_prod_beta)
  moreover have "cached (addToEntryCache_append st1 b 0 (buf req)) b = es @ xs"
    using st1(2) MultiDeserializer_batch_msg [OF req, of es] by (simp add: addToEntryCache_append_def cached_def Let_def)
  ultimately show ?thesis
    using c(1) st1(1) by (simp add: addToEntryCache_def addToEntryCache_open_def)
qed

end
