(* ===== verification/Shard_Log.thy ===== *)
theory Shard_Log
  imports Shard_Server
begin

text \<open>
  The part of the global log that a storage shard holds. The log is the list of all entries that will ever be
  ordered, entry \<open>i\<close> with index \<open>i\<close>; of \<open>N\<close> shards with stripes of \<open>U\<close> entries, shard \<open>s\<close>
  holds the entries \<open>i\<close> with \<open>i mod N = s\<close>, and the stripe of \<open>i\<close> is \<open>i div (U * N)\<close>.
  \<open>shard_holds N U L n s st\<close> says that the server state \<open>st\<close> holds exactly the entries below
  \<open>n\<close> of the shard \<open>s\<close>, in memory and on disk. The handlers of the server keep this predicate, and reads are
  answered from the log.
\<close>

section \<open>Indices of a stripe\<close>

definition shard_idxs :: "nat \<Rightarrow> nat \<Rightarrow> nat \<Rightarrow> nat \<Rightarrow> nat \<Rightarrow> nat list" where
  "shard_idxs N U s q n = filter (\<lambda>i. i mod N = s \<and> i div (U * N) = q) [0..<n]"

lemma div_eq_interval:
  fixes B :: nat
  assumes "0 < B"
  shows "i div B = q \<longleftrightarrow> q * B \<le> i \<and> i < q * B + B"
proof
  assume "i div B = q"
  then show "q * B \<le> i \<and> i < q * B + B"
    using dividend_less_div_times [OF assms, of i] by auto
qed (auto intro: div_nat_eqI simp: mult.commute)

lemma filter_div_upt:
  fixes B q n :: nat
  assumes "0 < B"
  shows "filter (\<lambda>i. i div B = q) [0..<n] = [q * B..<min n (q * B + B)]"
proof (rule sorted_distinct_set_unique)
  show "sorted (filter (\<lambda>i. i div B = q) [0..<n])" by (simp add: sorted_wrt_filter)
  show "set (filter (\<lambda>i. i div B = q) [0..<n]) = set [q * B..<min n (q * B + B)]"
    using assms by (auto simp: div_eq_interval)
qed simp_all

lemma shard_idxs_steps:
  assumes "s < N" "0 < U"
  shows "shard_idxs N U s q n =
    (if n \<le> q * (U * N) then [] else steps (q * (U * N) + s) (min n (q * (U * N) + U * N) - 1) N)"
proof -
  let ?B = "U * N" and ?t = "min n (q * (U * N) + U * N) - 1"
  have B: "0 < ?B" using assms by simp
  have "shard_idxs N U s q n = filter (\<lambda>i. i mod N = s) (filter (\<lambda>i. i div ?B = q) [0..<n])"
    by (simp add: shard_idxs_def conj_commute)
  also have "\<dots> = filter (\<lambda>i. i mod N = s) [q * ?B..<min n (q * ?B + ?B)]"
    by (simp only: filter_div_upt [OF B])
  finally have eq: "shard_idxs N U s q n = filter (\<lambda>i. i mod N = s) [q * ?B..<min n (q * ?B + ?B)]" .
  have "(q * ?B + s) mod N = s"
    using assms(1) by (simp add: mult.assoc [symmetric])
  moreover have "\<not> n \<le> q * ?B \<Longrightarrow> Suc ?t = min n (q * ?B + ?B)" using B by simp
  ultimately show ?thesis
    using filter_mod_steps [OF assms(1), of "q * ?B" ?t] unfolding eq by (auto simp del: upt_Suc)
qed

lemma nth_shard_idxs:
  assumes "s < N" "0 < U" "j < length (shard_idxs N U s q n)"
  shows "shard_idxs N U s q n ! j = q * (U * N) + s + j * N"
  using assms nth_steps by (auto simp: shard_idxs_steps split: if_splits)

lemma length_shard_idxs_le:
  assumes "s < N" "0 < U"
  shows "length (shard_idxs N U s q n) \<le> U"
proof (rule ccontr)
  assume "\<not> ?thesis"
  then have l: "U < length (shard_idxs N U s q n)" by simp
  then have "shard_idxs N U s q n ! U \<in> set (shard_idxs N U s q n)" by (rule nth_mem)
  then have "(q * (U * N) + s + U * N) div (U * N) = q"
    using nth_shard_idxs [OF assms l] by (simp add: shard_idxs_def)
  then show False using assms by (simp add: div_eq_interval)
qed

lemma shard_idxs_lookup:
  assumes "s < N" "0 < U" "i mod N = s" "q = i div (U * N)"
  shows "(i - q * (U * N)) div N < length (shard_idxs N U s q n) \<longleftrightarrow> i < n"
    and "i < n \<Longrightarrow> shard_idxs N U s q n ! ((i - q * (U * N)) div N) = i"
proof -
  define j where "j = (i - q * (U * N)) div N"
  have "q * (U * N) \<le> i" by (simp add: assms(4))
  moreover have "(i - q * (U * N)) mod N = s"
    using calculation assms(3) by (metis (no_types) dvd_triv_right le_add_diff_inverse mod_eq_dvd_iff_nat mod_mod_trivial
        diff_diff_cancel diff_le_self dvd_mult)
  ultimately have i: "i = q * (U * N) + s + j * N"
    unfolding j_def by (metis ab_semigroup_add_class.add_ac(1) add.commute le_add_diff_inverse div_mult_mod_eq)
  have m: "i \<in> set (shard_idxs N U s q n) \<longleftrightarrow> i < n"
    using assms(3, 4) by (auto simp: shard_idxs_def)
  have "j < length (shard_idxs N U s q n)" if "i < n"
  proof -
    have "i \<in> set (shard_idxs N U s q n)" using m that by blast
    then obtain k where k: "k < length (shard_idxs N U s q n)" "shard_idxs N U s q n ! k = i"
      unfolding in_set_conv_nth by blast
    then have "k * N = j * N" using nth_shard_idxs [OF assms(1, 2) k(1)] i by simp
    then have "k = j" using assms(1) by simp
    then show ?thesis using k(1) by simp
  qed
  moreover have at: "shard_idxs N U s q n ! j = i" if "j < length (shard_idxs N U s q n)"
    using nth_shard_idxs [OF assms(1, 2) that] i by simp
  then have "j < length (shard_idxs N U s q n) \<Longrightarrow> i < n" using m nth_mem by metis
  ultimately have "j < length (shard_idxs N U s q n) \<longleftrightarrow> i < n" "i < n \<Longrightarrow> shard_idxs N U s q n ! j = i"
    using at by blast+
  then show "(i - q * (U * N)) div N < length (shard_idxs N U s q n) \<longleftrightarrow> i < n"
    and "i < n \<Longrightarrow> shard_idxs N U s q n ! ((i - q * (U * N)) div N) = i"
    by (simp_all add: j_def)
qed

lemma shard_idxs_extend:
  assumes "n \<le> m" "\<And>i. n \<le> i \<Longrightarrow> i < m \<Longrightarrow> i div (U * N) = q"
  shows "shard_idxs N U s q m = shard_idxs N U s q n @ filter (\<lambda>i. i mod N = s) [n..<m]"
    and "q' \<noteq> q \<Longrightarrow> shard_idxs N U s q' m = shard_idxs N U s q' n"
proof -
  have u: "[0..<m] = [0..<n] @ [n..<m]" using assms(1) by (metis le_add_diff_inverse upt_add_eq_append zero_le)
  show "shard_idxs N U s q m = shard_idxs N U s q n @ filter (\<lambda>i. i mod N = s) [n..<m]"
    using assms(2) by (auto simp: shard_idxs_def u intro: filter_cong)
  show "q' \<noteq> q \<Longrightarrow> shard_idxs N U s q' m = shard_idxs N U s q' n"
    using assms(2) by (auto simp: shard_idxs_def u filter_empty_conv)
qed

section \<open>What a server holds\<close>

definition log_ok :: "LogEntry list \<Rightarrow> bool" where
  "log_ok L \<longleftrightarrow> length L < 2 ^ 64 \<and> (\<forall>i<length L. log_idx (L ! i) = of_nat i \<and> wf_entry (L ! i) \<and> valid (L ! i))"

definition shard_holds :: "nat \<Rightarrow> nat \<Rightarrow> LogEntry list \<Rightarrow> nat \<Rightarrow> nat \<Rightarrow> ShardServer \<Rightarrow> bool" where
  "shard_holds N U L n s st \<longleftrightarrow> store_inv st \<and> N = nat (shard_num st) \<and> U = unat (stripe_unit_size st) \<and>
     s < N \<and> n \<le> length L \<and> (\<forall>b. entries_cache_set st b \<noteq> None \<longrightarrow> U * N dvd unat b) \<and>
     (\<forall>b. U * N dvd unat b \<longrightarrow> cached st b = map ((!) L) (shard_idxs N U s (unat b div (U * N)) n))"

lemma shard_holdsD:
  assumes "shard_holds N U L n s st"
  shows "store_inv st" "shard_geometry st" "N = nat (shard_num st)" "U = unat (stripe_unit_size st)" "s < N" "0 < U"
    "n \<le> length L" "U * N dvd unat b \<Longrightarrow> cached st b = map ((!) L) (shard_idxs N U s (unat b div (U * N)) n)"
    "U * N < 2 ^ 64"
  using assms by (auto simp: shard_holds_def store_inv_def shard_geometry_def)

lemma shard_holds_upd [simp]:
  "shard_holds N U L n s (st\<lparr>replicated_index := x\<rparr>) = shard_holds N U L n s st"
  "shard_holds N U L n s (st\<lparr>global_index := x\<rparr>) = shard_holds N U L n s st"
  "shard_holds N U L n s (st\<lparr>num_slow_path_reads := y\<rparr>) = shard_holds N U L n s st"
  "shard_holds N U L n s (st\<lparr>num_fast_path_reads := y\<rparr>) = shard_holds N U L n s st"
  by (simp_all add: shard_holds_def)

lemma unat_shard_num: "shard_geometry st \<Longrightarrow> unat (of_int (shard_num st) :: u64) = nat (shard_num st)"
  by (rule unat_of_int_u64) (simp_all add: shard_geometry_def)

lemma unat_big_stripe:
  "shard_geometry st \<Longrightarrow> unat (big_stripe_unit_size st) = unat (stripe_unit_size st) * nat (shard_num st)"
  using unat_shard_num [of st] by (simp add: big_stripe_unit_size_def shard_geometry_def unat_mult_lem [THEN iffD1])

lemma unat_base_idx:
  assumes "shard_geometry st"
  defines "B \<equiv> unat (stripe_unit_size st) * nat (shard_num st)"
  shows "unat (base_idx_of st idx) = unat idx div B * B"
proof -
  have "unat (idx div big_stripe_unit_size st) * unat (big_stripe_unit_size st) \<le> unat idx"
    by (simp add: unat_div_distrib)
  also have "\<dots> < 2 ^ 64" using unsigned_less [of idx, where ?'a = nat] by simp
  finally show ?thesis
    using unat_big_stripe [OF assms(1)]
    by (simp add: base_idx_of_def B_def unat_mult_lem [THEN iffD1] unat_div_distrib)
qed

lemma unat_local_idx:
  assumes "shard_geometry st"
  defines "B \<equiv> unat (stripe_unit_size st) * nat (shard_num st)"
  shows "unat (local_cache_idx st idx) = (unat idx - unat idx div B * B) div nat (shard_num st)"
proof -
  have "unat (base_idx_of st idx) \<le> unat idx" using unat_base_idx [OF assms(1), of idx] by simp
  then have "unat (idx - base_idx_of st idx) = unat idx - unat idx div B * B"
    using unat_base_idx [OF assms(1), of idx] by (simp add: unat_sub word_le_nat_alt B_def)
  then show ?thesis
    using unat_shard_num [OF assms(1)] by (simp add: local_cache_idx_def unat_div_distrib)
qed

section \<open>Reading\<close>

lemma cached_lookup:
  assumes h: "shard_holds N U L n s st" and i: "unat idx mod N = s"
  defines "es \<equiv> cached st (base_idx_of st idx)" and "j \<equiv> unat (local_cache_idx st idx)"
  shows "of_nat (length es) \<le> local_cache_idx st idx \<longleftrightarrow> \<not> unat idx < n"
    and "unat idx < n \<Longrightarrow> j < length es" and "unat idx < n \<Longrightarrow> es ! j = L ! unat idx"
    and "es = map ((!) L) (shard_idxs N U s (unat idx div (U * N)) n)"
    and "unat idx < n \<Longrightarrow> shard_idxs N U s (unat idx div (U * N)) n ! j = unat idx"
    and "U * N dvd unat (base_idx_of st idx)"
proof -
  note H = shard_holdsD [OF h]
  let ?q = "unat idx div (U * N)"
  have b: "unat (base_idx_of st idx) = ?q * (U * N)"
    using unat_base_idx [OF H(2), of idx] H(3, 4) by simp
  show es: "es = map ((!) L) (shard_idxs N U s ?q n)"
    using H(5, 6) H(8) [of "base_idx_of st idx"] by (simp add: b es_def)
  have j: "j = (unat idx - ?q * (U * N)) div N"
    using unat_local_idx [OF H(2), of idx] H(3, 4) by (simp add: j_def)
  have "length (shard_idxs N U s ?q n) < 2 ^ 64"
    using length_shard_idxs_le [OF H(5, 6), of ?q n] H(4) unsigned_less [of "stripe_unit_size st", where ?'a = nat] by simp
  then show "of_nat (length es) \<le> local_cache_idx st idx \<longleftrightarrow> \<not> unat idx < n"
    using shard_idxs_lookup(1) [OF H(5, 6) i refl, of n]
    by (simp add: es word_le_nat_alt unat_of_nat_small j [unfolded j_def] not_less [symmetric])
  show js: "unat idx < n \<Longrightarrow> j < length es" "unat idx < n \<Longrightarrow> shard_idxs N U s ?q n ! j = unat idx"
    using shard_idxs_lookup [OF H(5, 6) i refl, of n] by (simp_all add: es j)
  then show "unat idx < n \<Longrightarrow> es ! j = L ! unat idx" by (simp add: es)
  show "U * N dvd unat (base_idx_of st idx)" by (simp add: b)
qed

lemma ReadEntry_serve_eq:
  assumes h: "shard_holds N U L n s st" and i: "unat idx mod N = s"
  shows "ReadEntry_serve st idx =
    (if unat idx < n \<and> idx \<le> replicated_index st \<and> idx \<le> global_index st then Some (L ! unat idx) else None)"
  using cached_lookup(1, 3) [OF h i] by (auto simp: ReadEntry_serve_def Let_def)

lemma ReadEntry_pass_eq:
  assumes "store_inv st"
  shows "ReadEntry_pass st idx = Some (ReadEntry_serve st idx, st)"
proof (cases "entries_cache_set st (base_idx_of st idx)")
  case None
  then have "files (os st) (getDataFilePath st (base_idx_of st idx)) = None"
    using assms by (auto simp: store_inv_def split: option.splits dest: spec [of _ "base_idx_of st idx"])
  moreover have "ReadEntry_serve st idx = None"
    using None by (simp add: ReadEntry_serve_def cached_def)
  ultimately show ?thesis
    using None by (simp add: ReadEntry_pass_def ReadEntry_check_def ReadEntry_load_def loadFromDiskToCache_def
        open_rdonly_def Let_def)
qed (simp add: ReadEntry_pass_def ReadEntry_check_def)

section \<open>Appending\<close>

text \<open>A message for a shard: the entries of the shard with indices in an interval that lies in one stripe.\<close>

definition shard_batch :: "nat \<Rightarrow> nat \<Rightarrow> LogEntry list \<Rightarrow> nat \<Rightarrow> nat \<Rightarrow> nat \<Rightarrow> MsgBuffer \<Rightarrow> bool" where
  "shard_batch N U L n m s req \<longleftrightarrow> n < m \<and> m \<le> length L \<and> n div (U * N) = (m - 1) div (U * N) \<and>
     filter (\<lambda>i. i mod N = s) [n..<m] \<noteq> [] \<and> batch_msg req (map ((!) L) (filter (\<lambda>i. i mod N = s) [n..<m]))"

lemma same_stripe:
  assumes "n div B = (m - 1) div B" "n \<le> i" "i < m"
  shows "i div B = n div (B :: nat)"
  using assms div_le_mono [of n i B] div_le_mono [of i "m - 1" B] by simp

lemma batch_base_idx_eq:
  assumes L: "log_ok L" and h: "shard_holds N U L k s st" and req: "shard_batch N U L n m s req"
  shows "unat (batch_base_idx st req) = n div (U * N) * (U * N)"
proof -
  note H = shard_holdsD [OF h]
  obtain i js where i: "filter (\<lambda>i. i mod N = s) [n..<m] = i # js"
    using req by (cases "filter (\<lambda>i. i mod N = s) [n..<m]") (auto simp: shard_batch_def)
  then have "i \<in> set (filter (\<lambda>i. i mod N = s) [n..<m])" by simp
  then have im: "n \<le> i" "i < m" "i < length L" using req by (auto simp: shard_batch_def)
  have "batch_msg req (map ((!) L) (i # js))"
    using req unfolding shard_batch_def i by simp
  then have "fst (Deserializer LogEntry_new (buf req) 4) = L ! i"
    using first_in_batch [of req "L ! i"] by simp
  then have "unat (log_idx (fst (Deserializer LogEntry_new (buf req) 4))) = i"
    using L im(3) by (simp add: log_ok_def unat_of_nat_small)
  then show ?thesis
    using unat_base_idx [OF H(2)] H(3, 4) same_stripe [OF _ im(1, 2), of "U * N"] req
    by (simp add: batch_base_idx_def shard_batch_def)
qed

lemma shard_batch_room:
  assumes L: "log_ok L" and h: "shard_holds N U L n s st" and req: "shard_batch N U L n m s req"
  shows "length (cached st (batch_base_idx st req)) < unat (stripe_unit_size st)"
proof -
  note H = shard_holdsD [OF h]
  let ?b = "batch_base_idx st req" and ?q = "n div (U * N)"
  have b: "unat ?b = ?q * (U * N)" by (rule batch_base_idx_eq [OF L h req])
  have B: "0 < U * N" using H(5, 6) by simp
  have nm: "?q = (m - 1) div (U * N)" "n \<le> m" "filter (\<lambda>i. i mod N = s) [n..<m] \<noteq> []"
    using req by (simp_all add: shard_batch_def)
  have "length (shard_idxs N U s ?q n) < length (shard_idxs N U s ?q m)"
    using nm(3) by (simp add: shard_idxs_extend(1) [OF nm(2) same_stripe [OF nm(1)]])
  then show ?thesis
    using length_shard_idxs_le [OF H(5, 6), of ?q m] H(4) H(8) [of ?b] B by (simp add: b)
qed

lemma store_batch_holds:
  assumes L: "log_ok L" and h: "shard_holds N U L n s st" and req: "shard_batch N U L n m s req"
  shows "\<exists>st'. store_batch st (batch_base_idx st req) (buf req) = Some (0, st') \<and> shard_holds N U L m s st' \<and>
    same_config st st' \<and> same_indices st st' \<and>
    cached st' (batch_base_idx st req) \<noteq> [] \<and>
    last (cached st' (batch_base_idx st req)) = L ! last (filter (\<lambda>i. i mod N = s) [n..<m])"
proof -
  note H = shard_holdsD [OF h]
  let ?b = "batch_base_idx st req" and ?q = "n div (U * N)" and ?new = "filter (\<lambda>i. i mod N = s) [n..<m]"
  have b: "unat ?b = ?q * (U * N)" by (rule batch_base_idx_eq [OF L h req])
  have B: "0 < U * N" using H(5, 6) by simp
  have nm: "n \<le> m" "m \<le> length L" "?new \<noteq> []" and msg: "batch_msg req (map ((!) L) ?new)"
    using req by (auto simp: shard_batch_def)
  have "?q = (m - 1) div (U * N)" using req by (simp add: shard_batch_def)
  then have st: "\<And>i. n \<le> i \<Longrightarrow> i < m \<Longrightarrow> i div (U * N) = ?q"
    by (rule same_stripe)
  note ext = shard_idxs_extend [OF nm(1) st, where s = s]
  have c: "cached st ?b = map ((!) L) (shard_idxs N U s ?q n)"
    using H(8) [of ?b] B by (simp add: b)
  from store_batch_ok [OF H(1) msg shard_batch_room [OF L h req]]
  obtain st' where st': "store_batch st ?b (buf req) = Some (0, st')" "store_inv st'" "same_config st st'"
    "same_indices st st'" "entries_cache_set st' = (entries_cache_set st)(?b \<mapsto> cached st ?b @ map ((!) L) ?new)"
    by blast
  have c': "cached st' b' = (if b' = ?b then map ((!) L) (shard_idxs N U s ?q m) else cached st b')" for b'
    using st'(5) c ext(1) by (simp add: cached_def)
  have "cached st' b' = map ((!) L) (shard_idxs N U s (unat b' div (U * N)) m)" if d: "U * N dvd unat b'" for b'
  proof (cases "b' = ?b")
    case True
    then show ?thesis using B c' by (simp add: b)
  next
    case False
    then have "unat b' \<noteq> ?q * (U * N)" using b by (metis word_unat_eq_iff)
    then have "unat b' div (U * N) \<noteq> ?q" using d by (metis dvd_div_mult_self)
    then show ?thesis using ext(2) H(8) [OF d] False by (simp add: c')
  qed
  then have "shard_holds N U L m s st'"
    using h st'(2, 3, 5) nm(2) b by (auto simp: shard_holds_def same_config_def)
  moreover have "cached st' ?b \<noteq> []" "last (cached st' ?b) = L ! last ?new"
    using c' ext(1) nm(3) by (auto simp: last_map)
  ultimately show ?thesis using st' by blast
qed

lemma ReplicateBatchHandler_holds:
  assumes L: "log_ok L" and h: "shard_holds N U L n s st" and req: "shard_batch N U L n m s req"
  shows "\<exists>resp' st'. ReplicateBatchHandler resp req st = Some (resp', st') \<and> shard_holds N U L m s st' \<and>
    data_size resp' = 4 \<and> get_le (buf resp') 0 = Status_word OK"
  using store_batch_holds [OF L h req]
  by (auto simp: ReplicateBatchHandler_def resize_msg_buffer_def)

lemma shard_batch_same: "shard_batch N U L n m s req \<Longrightarrow> same_msg req req' \<Longrightarrow> shard_batch N U L n m s req'"
  by (auto simp: shard_batch_def batch_msg_same)

lemma wait_backups_all:
  assumes net: "serves net REP_BATCH h" and req: "batch_msg req xs"
    and step: "\<And>b req'. P b \<Longrightarrow> batch_msg req' xs \<Longrightarrow> \<exists>r b'. h req' b = Some (r, b') \<and> Q b'"
    and bs: "list_all (\<lambda>(c, b). P b) bs"
  shows "\<exists>bs'. wait_backups net (map (\<lambda>(c, b). (ReplicateBatchAsync c (buf req) (data_size req), b)) bs) = Some bs' \<and>
    length bs' = length bs \<and> list_all (\<lambda>(c, b). Q b) bs'"
  using bs
proof (induction bs)
  case (Cons cb bs)
  obtain c b where cb: "cb = (c, b)" by (cases cb)
  obtain bs' where IH: "wait_backups net (map (\<lambda>(c, b). (ReplicateBatchAsync c (buf req) (data_size req), b)) bs) = Some bs'"
    "length bs' = length bs" "list_all (\<lambda>(c, b). Q b) bs'" using Cons by auto
  obtain c' req' where r: "ReplicateBatchAsync c (buf req) (data_size req) = (c', REP_BATCH, req')" "batch_msg req' xs"
    using ReplicateBatchAsync_msg [OF req, of c] by blast
  have h: "\<exists>resp' b'. h req'' b = Some (resp', b') \<and> Q b'" if "same_msg req' req''" for req''
    using step batch_msg_same [OF r(2) that] Cons.prems cb by simp
  obtain r' b' where "Q b'" "net REP_BATCH req' b = Some (r', b')"
    using serves_relation [OF net, of req' b "\<lambda>_. Q"] h by blast
  then show ?case using IH by (simp add: cb r(1))
qed simp

lemma wait_backups_holds:
  assumes L: "log_ok L" and net: "serves net REP_BATCH (ReplicateBatchHandler resp)"
    and req: "shard_batch N U L n m s req"
    and bs: "list_all (\<lambda>(c, b). shard_holds N U L n s b) bs"
  shows "\<exists>bs'. wait_backups net (map (\<lambda>(c, b). (ReplicateBatchAsync c (buf req) (data_size req), b)) bs) = Some bs' \<and>
    length bs' = length bs \<and> list_all (\<lambda>(c, b). shard_holds N U L m s b) bs'"
proof (rule wait_backups_all [OF net _ _ bs])
  show "batch_msg req (map ((!) L) (filter (\<lambda>i. i mod N = s) [n..<m]))" using req by (simp add: shard_batch_def)
  show "\<exists>r b'. ReplicateBatchHandler resp req' b = Some (r, b') \<and> shard_holds N U L m s b'"
    if "shard_holds N U L n s b" "batch_msg req' (map ((!) L) (filter (\<lambda>i. i mod N = s) [n..<m]))" for b req'
  proof -
    have "shard_batch N U L n m s req'" using that(2) req by (simp add: shard_batch_def)
    then show ?thesis using ReplicateBatchHandler_holds [OF L that(1)] by blast
  qed
qed

lemma AppendBatchHandler_holds:
  assumes L: "log_ok L" and net: "serves net REP_BATCH (ReplicateBatchHandler resp0)"
    and h: "shard_holds N U L n s st" "list_all (\<lambda>(c, b). shard_holds N U L n s b) bs"
    and req: "shard_batch N U L n m s req"
  shows "\<exists>resp' st' bs'. AppendBatchHandler net resp req (st, bs) = Some (resp', st', bs') \<and>
    shard_holds N U L m s st' \<and> length bs' = length bs \<and> list_all (\<lambda>(c, b). shard_holds N U L m s b) bs' \<and>
    unat (replicated_index st') = last (filter (\<lambda>i. i mod N = s) [n..<m]) \<and> global_index st' = global_index st"
proof -
  let ?b = "batch_base_idx st req" and ?i = "last (filter (\<lambda>i. i mod N = s) [n..<m])"
  obtain st' where st': "store_batch st ?b (buf req) = Some (0, st')" "shard_holds N U L m s st'"
    "same_indices st st'" "cached st' ?b \<noteq> []" "last (cached st' ?b) = L ! ?i"
    using store_batch_holds [OF L h(1) req] by blast
  obtain bs' where bs': "wait_backups net (map (\<lambda>(c, b). (ReplicateBatchAsync c (buf req) (data_size req), b)) bs) = Some bs'"
    "length bs' = length bs" "list_all (\<lambda>(c, b). shard_holds N U L m s b) bs'"
    using wait_backups_holds [OF L net req h(2)] by blast
  have "?i \<in> set (filter (\<lambda>i. i mod N = s) [n..<m])"
    using req by (intro last_in_set) (simp add: shard_batch_def)
  then have "?i < length L" using req by (auto simp: shard_batch_def)
  then have i: "unat (log_idx (L ! ?i)) = ?i" using L by (simp add: log_ok_def unat_of_nat_small)
  show ?thesis
    using st' bs' i by (auto simp: AppendBatchHandler_def commit_batch_def Let_def same_indices_def)
qed

text \<open>C10. Appending a batch to a storage shard. For a batch that continues the shard's part of the log inside one stripe,
  \<^verbatim>\<open>AppendBatchHandler\<close> returns, and then the primary and every backup hold the longer part, in the cache and, byte
  for byte, in the file of the stripe; the replicated index of the primary is the last index of the batch.\<close>

theorem AppendBatchHandler_replicates:
  assumes L: "log_ok L" and net: "serves net REP_BATCH (ReplicateBatchHandler resp0)"
    and h: "shard_holds N U L n s st" "list_all (\<lambda>(c, b). shard_holds N U L n s b) bs"
    and req: "shard_batch N U L n m s req"
  shows "\<exists>resp' st' bs'. AppendBatchHandler net resp req (st, bs) = Some (resp', st', bs') \<and>
    shard_holds N U L m s st' \<and> length bs' = length bs \<and> list_all (\<lambda>(c, b). shard_holds N U L m s b) bs' \<and>
    unat (replicated_index st') = last (filter (\<lambda>i. i mod N = s) [n..<m]) \<and> global_index st' = global_index st"
  by (rule AppendBatchHandler_holds [OF assms])

section \<open>Witnesses\<close>

definition plain_entry :: "nat \<Rightarrow> LogEntry" where
  "plain_entry i = LogEntry_new\<lparr>client_id := 7, client_seq := of_nat i, log_idx := of_nat i, flags := 1\<rparr>"

definition plain_log :: "nat \<Rightarrow> LogEntry list" where
  "plain_log k = map plain_entry [0..<k]"

lemma plain_entry_simps [simp]:
  "log_idx (plain_entry i) = of_nat i" "wf_entry (plain_entry i)" "valid (plain_entry i)" "esz (plain_entry i) = 32"
  by (simp_all add: plain_entry_def LogEntry_new_def wf_entry_def valid_def esz_def align4_def)

lemma plain_log_simps [simp]: "length (plain_log k) = k" "i < k \<Longrightarrow> plain_log k ! i = plain_entry i" "tsz (plain_log k) = 32 * k"
  by (simp_all add: plain_log_def comp_def sum_list_triv)

lemma plain_log_ok: "k < 2 ^ 64 \<Longrightarrow> log_ok (plain_log k)"
  by (simp add: log_ok_def)

definition fresh_shard :: "nat \<Rightarrow> nat \<Rightarrow> nat \<Rightarrow> ShardServer" where
  "fresh_shard N U s = (ShardServer_new (FileSys_new (\<lambda>_. True)))
     \<lparr>stripe_unit_size := of_nat U, shard_num := int N, shard_id := int s, folder_path := ''data''\<rparr>"

lemma fresh_shard_simps [simp]:
  "entries_cache_set (fresh_shard N U s) = Map.empty" "global_index (fresh_shard N U s) = 0" "replicated_index (fresh_shard N U s) = 0"
  by (simp_all add: fresh_shard_def ShardServer_new_def)

lemma fresh_shard_holds:
  assumes "0 < U" "s < N" "N < 2 ^ 31" "U * N < 2 ^ 64"
  shows "shard_holds N U L 0 s (fresh_shard N U s)"
proof -
  have "U \<le> U * N" using assms by simp
  then have "U < 2 ^ 64" using assms(4) by linarith
  then have "unat (of_nat U :: u64) = U" by (intro unat_of_nat_small) simp
  then show ?thesis
    using assms by (simp add: shard_holds_def store_inv_def shard_geometry_def fresh_shard_def ShardServer_new_def FileSys_new_def
        cached_def shard_idxs_def)
qed

definition empty_msg :: MsgBuffer where
  "empty_msg = \<lparr>buf = \<lambda>_. 0, data_size = 0\<rparr>"

definition batch_message :: "LogEntry list \<Rightarrow> MsgBuffer" where
  "batch_message xs = \<lparr>buf = fst (MultiSerializer xs (\<lambda>_. 0) 0), data_size = 4 + tsz xs\<rparr>"

lemma batch_message_ok:
  assumes "list_all wf_entry xs" "list_all valid xs" "length xs < 2 ^ 32" "4 + tsz xs < 2 ^ 64"
  shows "batch_msg (batch_message xs) xs"
  using MultiSerializer_image [OF assms(1, 3, 4), of "\<lambda>_. 0" 0] assms by (simp add: batch_msg_def batch_message_def)

lemma filter_odd_4: "filter (\<lambda>i. i mod 2 = 1) [0..<4] = [1, 3 :: nat]"
  by code_simp

lemma sample_shard_batch: "shard_batch 2 2 (plain_log 4) 0 4 1 (batch_message [plain_entry 1, plain_entry 3])"
proof -
  have "batch_msg (batch_message [plain_entry 1, plain_entry 3]) [plain_entry 1, plain_entry 3]"
    by (rule batch_message_ok) simp_all
  then show ?thesis by (simp add: shard_batch_def filter_odd_4 del: One_nat_def)
qed

theorem AppendBatchHandler_replicates_witness:
  "\<exists>resp' st' bs'. AppendBatchHandler (\<lambda>t. ReplicateBatchHandler empty_msg) empty_msg (batch_message [plain_entry 1, plain_entry 3])
      (fresh_shard 2 2 1, [(\<lparr>sc_req = empty_msg, sc_resp = empty_msg\<rparr>, fresh_shard 2 2 1)]) = Some (resp', st', bs') \<and>
    shard_holds 2 2 (plain_log 4) 4 1 st' \<and> unat (replicated_index st') = 3"
proof -
  have h: "shard_holds 2 2 (plain_log 4) 0 1 (fresh_shard 2 2 1)" by (rule fresh_shard_holds) simp_all
  have "\<exists>resp' st' bs'. AppendBatchHandler (\<lambda>t. ReplicateBatchHandler empty_msg) empty_msg (batch_message [plain_entry 1, plain_entry 3])
      (fresh_shard 2 2 1, [(\<lparr>sc_req = empty_msg, sc_resp = empty_msg\<rparr>, fresh_shard 2 2 1)]) = Some (resp', st', bs') \<and>
    shard_holds 2 2 (plain_log 4) 4 1 st' \<and> length bs' = 1 \<and> list_all (\<lambda>(c, b). shard_holds 2 2 (plain_log 4) 4 1 b) bs' \<and>
    unat (replicated_index st') = last [1, 3 :: nat] \<and> global_index st' = global_index (fresh_shard 2 2 1)"
    using AppendBatchHandler_replicates [OF plain_log_ok serves_self h _ sample_shard_batch,
        of "[(\<lparr>sc_req = empty_msg, sc_resp = empty_msg\<rparr>, fresh_shard 2 2 1)]" empty_msg empty_msg] h
    unfolding filter_odd_4 by simp
  then show ?thesis by auto
qed

lemma stored_stripe:
  "\<exists>st. store_inv st \<and> entries_cache_set st = [0 \<mapsto> [plain_entry 0, plain_entry 1]]"
proof -
  let ?xs = "[plain_entry 0, plain_entry 1]"
  have h: "shard_holds 1 4 [] 0 0 (fresh_shard 1 4 0)" by (rule fresh_shard_holds) simp_all
  have "batch_msg (batch_message ?xs) ?xs" by (rule batch_message_ok) simp_all
  moreover have "length (cached (fresh_shard 1 4 0) 0) < unat (stripe_unit_size (fresh_shard 1 4 0))"
    using shard_holdsD(4, 6) [OF h] by (simp add: cached_def)
  ultimately show ?thesis
    using store_batch_ok [OF shard_holdsD(1) [OF h], of "batch_message ?xs" ?xs 0] by (auto simp: cached_def)
qed

theorem loadFromDiskToCache_recovers_witness:
  "\<exists>st st'. store_inv st \<and> loadFromDiskToCache (restarted st) 0 = Some (0, st') \<and>
    entries_cache_set st' = [0 \<mapsto> [plain_entry 0, plain_entry 1]]"
proof -
  obtain st where st: "store_inv st" "entries_cache_set st = [0 \<mapsto> [plain_entry 0, plain_entry 1]]"
    using stored_stripe by blast
  have "entries_cache_set st 0 = Some [plain_entry 0, plain_entry 1]" by (simp add: st(2))
  from loadFromDiskToCache_recovers [OF st(1) this] show ?thesis using st(1) by auto
qed

theorem addToEntryCache_after_load_not_durable_witness:
  "\<exists>st st'. addToEntryCache st 0 (buf (batch_message [plain_entry 2])) = Some st' \<and>
    cached st' 0 = [plain_entry 0, plain_entry 1, plain_entry 2] \<and> files (os st') = files (os st)"
proof -
  let ?es = "[plain_entry 0, plain_entry 1]"
  obtain st where st: "store_inv st" "entries_cache_set st = [0 \<mapsto> ?es]"
    using stored_stripe by blast
  then have "stripe_ok st 0 ?es"
    by (auto simp: store_inv_def split: option.splits dest: spec [of _ 0])
  then obtain c where c: "files (os st) (getDataFilePath st 0) = Some c" "length c = tsz ?es" "entries_at (mapped c) 0 ?es"
    by (auto simp: stripe_ok_def)
  have ne: "c \<noteq> []" using c(2) by auto
  let ?st = "restarted st"
  have f: "files (os ?st) (getDataFilePath ?st 0) = Some c" "entries_cache_set ?st 0 = None" "fd_of (os ?st) 0 = Some Other"
    using c(1) by (simp_all add: restarted_def getDataFilePath_def fd_of_def)
  have "batch_msg (batch_message [plain_entry 2]) [plain_entry 2]" by (rule batch_message_ok) simp_all
  from addToEntryCache_after_load_not_durable [OF f(2, 1) ne c(2, 3) _ _ _ f(3) this]
  show ?thesis by auto
qed

end
