(* ===== verification/Backend.thy ===== *)
theory Backend
  imports Shard_Log
begin

text \<open>
  The storage backend of the consensus log: \<^verbatim>\<open>NaiveBackend\<close> and \<^verbatim>\<open>NaiveReadBackend\<close> of
  \<^verbatim>\<open>src/src/cons_log/storage/naive_backend.cc\<close>, which stripe the log over the storage shards. The shards
  are the function \<open>sv\<close> from shard numbers to server states, and \<open>net i\<close> is the connection to shard \<open>i\<close>.
  \<^verbatim>\<open>AppendBatch\<close> sends the requests of one row of stripes, one for each shard, and then waits for all of them
  (\<open>waitForAllShards\<close>). \<open>None\<close> is undefined behaviour of the source (an empty batch, an index outside of a
  vector, a shard without a client), a loop that does not end or a shard that does not answer.
\<close>

section \<open>The model\<close>

record NaiveBackend =
  nb_stripe_unit_size :: u64
  nb_shard_num :: int
  shard_clients :: "int \<rightharpoonup> ShardClient"

definition NaiveBackend_new :: NaiveBackend where
  "NaiveBackend_new = \<lparr>nb_stripe_unit_size = 0, nb_shard_num = 0, shard_clients = Map.empty\<rparr>"

definition NaiveBackend_InitializeBackend ::
  "(string \<Rightarrow> ShardClient) \<Rightarrow> Properties \<Rightarrow> NaiveBackend \<Rightarrow> (exn + NaiveBackend) option" where
  "NaiveBackend_InitializeBackend connect p nb =
     (case stoi (GetProperty p ''shard.stripe_unit_size'' ''100000'') of
        Inl x \<Rightarrow> Some (Inl x)
      | Inr su \<Rightarrow>
          let shd_servers = SeparateValue (GetProperty p ''shard.primary_uri'' ''localhost:31860'') CHR '',''
          in case stoll (GetProperty p ''shard.num'' []) of
               Inl x \<Rightarrow> Some (Inl x)
             | Inr n \<Rightarrow>
                 let shard_num = sint (of_int n :: u32)
                 in if int (length shd_servers) < shard_num then None
                    else Some (Inr (nb\<lparr>nb_stripe_unit_size := of_int su, nb_shard_num := shard_num,
                      shard_clients := (\<lambda>i. if 0 \<le> i \<and> i < shard_num then Some (connect (shd_servers ! nat i))
                                            else shard_clients nb i)\<rparr>)))"

definition int_of_u64 :: "u64 \<Rightarrow> int" where
  "int_of_u64 w = sint (ucast w :: u32)"

fun AppendBatch_row ::
  "nat \<Rightarrow> NaiveBackend \<Rightarrow> LogEntry list \<Rightarrow> u64 \<Rightarrow> u64 \<Rightarrow> u64 \<Rightarrow> u64 \<Rightarrow> (NaiveBackend \<times> (int \<times> request) list) option" where
  "AppendBatch_row 0 nb es start_idx from to s = Some (nb, [])"
| "AppendBatch_row (Suc k) nb es start_idx from to s =
     (let stripe_from = from + s
      in if to < stripe_from then Some (nb, [])
         else let shard = int_of_u64 (stripe_from mod of_int (nb_shard_num nb))
              in case shard_clients nb shard of
                   None \<Rightarrow> None
                 | Some c \<Rightarrow>
                     (case AppendBatchAsync c es (stripe_from - start_idx) (to - start_idx) (of_int (nb_shard_num nb)) of
                        None \<Rightarrow> None
                      | Some (stripe_to, c, rq) \<Rightarrow>
                          (case AppendBatch_row k (nb\<lparr>shard_clients := (shard_clients nb)(shard \<mapsto> c)\<rparr>) es start_idx from to (s + 1) of
                             None \<Rightarrow> None
                           | Some (nb, rqs) \<Rightarrow> Some (nb, (shard, rq) # rqs))))"

fun waitForAllShards ::
  "(int \<Rightarrow> 's net) \<Rightarrow> (int \<times> request) list \<Rightarrow> NaiveBackend \<Rightarrow> (int \<Rightarrow> 's) \<Rightarrow> (NaiveBackend \<times> (int \<Rightarrow> 's)) option" where
  "waitForAllShards net [] nb sv = Some (nb, sv)"
| "waitForAllShards net ((shard, t, m) # rqs) nb sv =
     (case net shard t m (sv shard) of
        None \<Rightarrow> None
      | Some (r, s) \<Rightarrow>
          waitForAllShards net rqs
            (nb\<lparr>shard_clients := (shard_clients nb)(shard := map_option (\<lambda>c. c\<lparr>sc_resp := r\<rparr>) (shard_clients nb shard))\<rparr>)
            (sv(shard := s)))"

definition nb_big_stripe :: "NaiveBackend \<Rightarrow> u64" where
  "nb_big_stripe nb = nb_stripe_unit_size nb * of_int (nb_shard_num nb)"

definition row_from :: "u64 \<Rightarrow> u64 \<Rightarrow> u64" where
  "row_from i start_idx = (if i < start_idx then start_idx else i)"

definition row_to :: "NaiveBackend \<Rightarrow> u64 \<Rightarrow> u64 \<Rightarrow> u64" where
  "row_to nb i end_idx = (let to = i + nb_big_stripe nb - 1 in if end_idx < to then end_idx else to)"

partial_function (option) AppendBatch_loop ::
  "(int \<Rightarrow> 's net) \<Rightarrow> NaiveBackend \<Rightarrow> LogEntry list \<Rightarrow> u64 \<Rightarrow> u64 \<Rightarrow> u64 \<Rightarrow> u64 \<Rightarrow> (int \<Rightarrow> 's) \<Rightarrow>
    (NaiveBackend \<times> (int \<Rightarrow> 's)) option" where
  "AppendBatch_loop net nb es start_idx end_idx i last_base_idx sv =
     (if i \<le> last_base_idx then
        case AppendBatch_row (unat (of_int (nb_shard_num nb) :: u64)) nb es start_idx
               (row_from i start_idx) (row_to nb i end_idx) 0 of
          None \<Rightarrow> None
        | Some (nb, rqs) \<Rightarrow>
            (case waitForAllShards net rqs nb sv of
               None \<Rightarrow> None
             | Some (nb, sv) \<Rightarrow> AppendBatch_loop net nb es start_idx end_idx (i + nb_big_stripe nb) last_base_idx sv)
      else Some (nb, sv))"

definition batch_end_idx :: "LogEntry list \<Rightarrow> u64" where
  "batch_end_idx es =
     (let end_idx = log_idx (last es)
      in if 1 < length es \<and> end_idx = 0 then log_idx (es ! (length es - 2)) else end_idx)"

definition NaiveBackend_AppendBatch ::
  "(int \<Rightarrow> 's net) \<Rightarrow> NaiveBackend \<Rightarrow> LogEntry list \<Rightarrow> (int \<Rightarrow> 's) \<Rightarrow> (u64 \<times> NaiveBackend \<times> (int \<Rightarrow> 's)) option" where
  "NaiveBackend_AppendBatch net nb es sv =
     (if es = [] then None
      else let start_idx = log_idx (hd es);
               end_idx = batch_end_idx es;
               big = nb_big_stripe nb;
               first_base_idx = start_idx div big * big;
               last_base_idx = end_idx div big * big
           in case AppendBatch_loop net nb es start_idx end_idx first_base_idx last_base_idx sv of
                None \<Rightarrow> None
              | Some (nb, sv) \<Rightarrow> Some (end_idx, nb, sv))"

definition NaiveBackend_ReadEntry ::
  "(int \<Rightarrow> 's net) \<Rightarrow> NaiveBackend \<Rightarrow> u64 \<Rightarrow> LogEntry \<Rightarrow> (int \<Rightarrow> 's) \<Rightarrow>
    (bool \<times> LogEntry \<times> NaiveBackend \<times> (int \<Rightarrow> 's)) option" where
  "NaiveBackend_ReadEntry net nb idx e sv =
     (let shard = int_of_u64 (idx mod of_int (nb_shard_num nb))
      in case shard_clients nb shard of
           None \<Rightarrow> None
         | Some c \<Rightarrow>
             (case ShardClient_ReadEntry (net shard) c idx e (sv shard) of
                None \<Rightarrow> None
              | Some (r, e, c, s) \<Rightarrow>
                  Some (True, e, nb\<lparr>shard_clients := (shard_clients nb)(shard \<mapsto> c)\<rparr>, sv(shard := s))))"

fun UpdateGlobalIdx_requests :: "int list \<Rightarrow> u64 \<Rightarrow> NaiveBackend \<Rightarrow> NaiveBackend \<times> (int \<times> request) list" where
  "UpdateGlobalIdx_requests [] idx nb = (nb, [])"
| "UpdateGlobalIdx_requests (i # is) idx nb =
     (case shard_clients nb i of
        None \<Rightarrow> UpdateGlobalIdx_requests is idx nb
      | Some c \<Rightarrow>
          (case UpdateGlobalIdxAsync c idx of (c, rq) \<Rightarrow>
             (case UpdateGlobalIdx_requests is idx (nb\<lparr>shard_clients := (shard_clients nb)(i \<mapsto> c)\<rparr>) of
                (nb, rqs) \<Rightarrow> (nb, (i, rq) # rqs))))"

definition NaiveBackend_UpdateGlobalIdx ::
  "(int \<Rightarrow> 's net) \<Rightarrow> NaiveBackend \<Rightarrow> u64 \<Rightarrow> (int \<Rightarrow> 's) \<Rightarrow> (NaiveBackend \<times> (int \<Rightarrow> 's)) option" where
  "NaiveBackend_UpdateGlobalIdx net nb idx sv =
     (case UpdateGlobalIdx_requests [0..nb_shard_num nb - 1] idx nb of (nb, rqs) \<Rightarrow> waitForAllShards net rqs nb sv)"

definition NaiveReadBackend_AppendBatch :: "LogEntry list \<Rightarrow> u64" where
  "NaiveReadBackend_AppendBatch es = 0"

definition shard_dispatch ::
  "ShardServer net \<Rightarrow> MsgBuffer \<Rightarrow> byte \<Rightarrow> MsgBuffer \<Rightarrow> ShardServer \<times> (ShardClient \<times> ShardServer) list \<Rightarrow>
    (MsgBuffer \<times> ShardServer \<times> (ShardClient \<times> ShardServer) list) option" where
  "shard_dispatch bnet resp t req sb =
     (let on_primary = (\<lambda>h. map_option (\<lambda>(r, st). (r, st, snd sb)) (h req (fst sb)))
      in if t = APPEND_BATCH then AppendBatchHandler bnet resp req sb
         else if t = REP_BATCH then on_primary (ReplicateBatchHandler resp)
         else if t = READ_ENTRY_BE then on_primary (ReadEntryHandler False resp)
         else if t = UPDATE_GLBL_IDX then on_primary (UpdateGlobalIdxHandler resp)
         else None)"

section \<open>One row of stripes\<close>

definition nb_ok :: "nat \<Rightarrow> nat \<Rightarrow> NaiveBackend \<Rightarrow> bool" where
  "nb_ok N U nb \<longleftrightarrow> nb_shard_num nb = int N \<and> unat (nb_stripe_unit_size nb) = U \<and> 0 < N \<and> N < 2 ^ 31 \<and> 0 < U \<and>
     U * N < 2 ^ 64 \<and> (\<forall>i<N. shard_clients nb (int i) \<noteq> None)"

text \<open>The vector \<open>es\<close> holds the entries \<open>n\<close> to \<open>e\<close> of the log at its start.\<close>

definition batch_of :: "nat \<Rightarrow> LogEntry list \<Rightarrow> nat \<Rightarrow> nat \<Rightarrow> LogEntry list \<Rightarrow> bool" where
  "batch_of B L n e es \<longleftrightarrow> log_ok L \<and> 4 + tsz L < 2 ^ 64 \<and> length L + B < 2 ^ 64 \<and> n \<le> e \<and> e < length L \<and>
     e - n < length es \<and> (\<forall>i. n \<le> i \<longrightarrow> i \<le> e \<longrightarrow> es ! (i - n) = L ! i) \<and> list_all wf_entry es \<and> length es < 2 ^ 32"

lemma int_of_u64_small: "unat w < 2 ^ 31 \<Longrightarrow> int_of_u64 w = int (unat w)"
  using sint_ucast_of_nat [of "unat w"] by (simp add: int_of_u64_def)

lemma shard_of_idx:
  assumes "0 < N" "N < 2 ^ 31"
  shows "sint (ucast (idx mod of_int (int N) :: u64) :: u32) = int (unat idx mod N)"
    "int_of_u64 (idx mod of_int (int N)) = int (unat idx mod N)"
proof -
  have N: "unat (of_int (int N) :: u64) = N" using assms by (simp add: unat_of_nat_small)
  have "unat idx mod N < N" using assms(1) by simp
  then have "unat (idx mod of_int (int N) :: u64) < 2 ^ 31" using assms(2) N by (simp add: unat_mod_distrib)
  from int_of_u64_small [OF this] show "int_of_u64 (idx mod of_int (int N)) = int (unat idx mod N)"
    using N by (simp add: unat_mod_distrib)
  then show "sint (ucast (idx mod of_int (int N) :: u64) :: u32) = int (unat idx mod N)" by (simp add: int_of_u64_def)
qed

lemma steps_shift: "steps (f + c) (t + c) d = map (\<lambda>i. i + c) (steps f t d)"
  by (simp add: steps_def algebra_simps)

lemma tsz_filter_le:
  assumes "b \<le> length L"
  shows "tsz (map ((!) L) (filter P [a..<b])) \<le> tsz L"
proof -
  have s: "sum_list (map f (filter P xs)) \<le> sum_list (map f xs)" for f :: "nat \<Rightarrow> nat" and xs
    by (induction xs) auto
  have "tsz (map ((!) L) (filter P [a..<b])) \<le> sum_list (map (esz \<circ> (!) L) [a..<b])"
    using s [of "esz \<circ> (!) L" "[a..<b]"] by simp
  also have "\<dots> \<le> sum_list (map (esz \<circ> (!) L) [0..<b])"
  proof (cases "a \<le> b")
    case True
    then have "[0..<b] = [0..<a] @ [a..<b]" by (metis le_add_diff_inverse upt_add_eq_append zero_le)
    then show ?thesis by simp
  qed simp
  also have "\<dots> \<le> sum_list (map (esz \<circ> (!) L) [0..<length L])"
    using upt_add_eq_append [of 0 b "length L - b"] assms by simp
  also have "map (esz \<circ> (!) L) [0..<length L] = map esz L"
    by (metis list.map_comp map_nth)
  finally show ?thesis .
qed

lemma AppendBatchAsync_row:
  assumes b: "batch_of (U * N) L n e es" and nb: "nb_ok N U nb"
    and w: "unat start = n" "unat from = a" "unat to = t"
    and row: "n \<le> a" "t \<le> e" "a div (U * N) = t div (U * N)"
    and s: "unat s = r" "r < N" "a + r \<le> t"
  shows "\<exists>x c' req. AppendBatchAsync c es (from + s - start) (to - start) (of_int (nb_shard_num nb)) = Some (x, c', APPEND_BATCH, req) \<and>
    shard_batch N U L a (Suc t) ((a + r) mod N) req"
proof -
  note B = b [unfolded batch_of_def] and NB = nb [unfolded nb_ok_def]
  have ar: "unat (from + s) = a + r"
    using w(2) s B row(2) by (subst unat_add_small) auto
  have lo: "unat (from + s - start) = a + r - n"
    using ar w(1) row(1) by (simp add: unat_sub word_le_nat_alt)
  have hi: "unat (to - start) = t - n"
    using w(1, 3) row(1) s(3) by (simp add: unat_sub word_le_nat_alt)
  have N: "unat (of_int (nb_shard_num nb) :: u32) = N"
    using NB by (simp add: unat_of_nat_small)
  have i: "0 < (of_int (nb_shard_num nb) :: u32)"
    using NB N by (simp add: word_less_nat_alt)
  let ?st = "steps (a + r) t N" and ?xs = "map ((!) es) (steps (a + r - n) (t - n) N)"
  have "?st = map (\<lambda>i. i + n) (steps (a + r - n) (t - n) N)"
    using steps_shift [of "a + r - n" n "t - n" N] row(1) s(3) by simp
  then have "map ((!) L) ?st = map (\<lambda>i. L ! (i + n)) (steps (a + r - n) (t - n) N)" by simp
  also have "\<dots> = ?xs"
  proof (intro map_cong refl)
    fix i assume "i \<in> set (steps (a + r - n) (t - n) N)"
    then have "i + n \<le> e" using row(1, 2) s(3) by (auto dest!: steps_bound)
    then show "L ! (i + n) = es ! i" using B by (metis add_diff_cancel_right' le_add2)
  qed
  also have "?st = filter (\<lambda>i. i mod N = (a + r) mod N) [a..<Suc t]"
    by (rule filter_mod_steps [OF s(2), symmetric])
  finally have xs: "?xs = map ((!) L) (filter (\<lambda>i. i mod N = (a + r) mod N) [a..<Suc t])" by simp
  have tl: "Suc t \<le> length L" using B row(2) by auto
  have "4 + tsz ?xs < 2 ^ 64"
    unfolding xs using tsz_filter_le [OF tl, of "\<lambda>i. i mod N = (a + r) mod N" a] B by linarith
  moreover have "list_all valid ?xs"
    unfolding xs using B tl by (auto simp: list_all_iff log_ok_def simp del: upt_Suc)
  moreover have "a + r - n \<le> t - n" "t - n < length es" "list_all wf_entry es" "length es < 2 ^ 32"
    using B row s(3) by auto
  ultimately obtain c' req where "AppendBatchAsync c es (from + s - start) (to - start) (of_int (nb_shard_num nb)) =
      Some (of_nat (last (steps (a + r - n) (t - n) N)), c', APPEND_BATCH, req)" "batch_msg req ?xs"
    using AppendBatchAsync_msg [OF i, of "from + s - start" "to - start" es ?xs c] unfolding lo hi N by blast
  moreover have "filter (\<lambda>i. i mod N = (a + r) mod N) [a..<Suc t] \<noteq> []"
    unfolding filter_mod_steps [OF s(2)] by (rule steps_neq_Nil [OF s(3)])
  ultimately show ?thesis
    using row(3) s(3) tl unfolding shard_batch_def xs by auto
qed

lemma AppendBatch_row_ok:
  assumes b: "batch_of (U * N) L n e es" and nb: "nb_ok N U nb"
    and w: "unat start = n" "unat from = a" "unat to = t"
    and row: "n \<le> a" "a \<le> t" "t \<le> e" "a div (U * N) = t div (U * N)"
    and k: "k \<le> N" "unat s = N - k"
  shows "\<exists>nb' rqs. AppendBatch_row k nb es start from to s = Some (nb', rqs) \<and> nb_ok N U nb' \<and>
    map fst rqs = map (\<lambda>r. int ((a + r) mod N)) [N - k..<min N (Suc (t - a))] \<and>
    (\<forall>(sh, ty, req)\<in>set rqs. ty = APPEND_BATCH \<and> shard_batch N U L a (Suc t) (nat sh) req)"
  using nb k
proof (induction k arbitrary: nb s)
  case (Suc k)
  note B = b [unfolded batch_of_def] and NB = Suc.prems(1) [unfolded nb_ok_def]
  define r where "r = N - Suc k"
  have r: "r < N" "unat s = r" "N - k = Suc r" using Suc.prems by (simp_all add: r_def)
  have "N \<le> U * N" "length L + U * N < 2 ^ 64" "e < length L" using NB B by simp_all
  then have "a + r < 2 ^ 64" using r(1) row(2, 3) by linarith
  then have f: "unat (from + s) = a + r"
    using w(2) r(2) by (subst unat_add_small) simp_all
  show ?case
  proof (cases "t < a + r")
    case True
    then have "to < from + s" using f w(3) by (simp add: word_less_nat_alt)
    moreover have "min N (Suc (t - a)) \<le> r" using True row(2) by simp
    ultimately show ?thesis using Suc.prems(1) by (simp add: r_def)
  next
    case False
    then have t: "\<not> to < from + s" using f w(3) by (simp add: word_less_nat_alt)
    have sh: "int_of_u64 ((from + s) mod of_int (nb_shard_num nb)) = int ((a + r) mod N)"
    proof -
      have "unat ((from + s) mod of_int (nb_shard_num nb)) = (a + r) mod N"
        using NB by (simp add: unat_mod_distrib f unat_of_nat_small)
      moreover have "(a + r) mod N < 2 ^ 31" using NB mod_less_divisor [of N "a + r"] by linarith
      ultimately show ?thesis by (simp add: int_of_u64_small)
    qed
    have "(a + r) mod N < N" using NB by simp
    then obtain c where c: "shard_clients nb (int ((a + r) mod N)) = Some c"
      using NB by blast
    obtain x c' req where ap: "AppendBatchAsync c es (from + s - start) (to - start) (of_int (nb_shard_num nb)) =
        Some (x, c', APPEND_BATCH, req)" "shard_batch N U L a (Suc t) ((a + r) mod N) req"
      using AppendBatchAsync_row [OF b Suc.prems(1) w row(1, 3, 4) r(2, 1)] False by (metis not_less)
    let ?nb = "nb\<lparr>shard_clients := (shard_clients nb)(int ((a + r) mod N) \<mapsto> c')\<rparr>"
    have "nb_ok N U ?nb" using Suc.prems(1) by (simp add: nb_ok_def)
    moreover have "unat (s + 1) = N - k"
      using r NB by (subst unat_add_small) auto
    ultimately obtain nb' rqs where IH: "AppendBatch_row k ?nb es start from to (s + 1) = Some (nb', rqs)" "nb_ok N U nb'"
      "map fst rqs = map (\<lambda>r. int ((a + r) mod N)) [N - k..<min N (Suc (t - a))]"
      "\<forall>(sh, ty, req)\<in>set rqs. ty = APPEND_BATCH \<and> shard_batch N U L a (Suc t) (nat sh) req"
      using Suc.IH [of ?nb "s + 1"] Suc.prems(2) by auto
    have "[r..<min N (Suc (t - a))] = r # [Suc r..<min N (Suc (t - a))]"
      using r(1) False row(2) by (subst upt_conv_Cons) auto
    then show ?thesis
      using IH ap t sh c r(3) by (simp add: Let_def r_def [symmetric] del: upt_Suc)
  qed
qed simp

section \<open>The shards together\<close>

definition node_holds ::
  "nat \<Rightarrow> nat \<Rightarrow> LogEntry list \<Rightarrow> nat \<Rightarrow> nat \<Rightarrow> ShardServer \<times> (ShardClient \<times> ShardServer) list \<Rightarrow> bool" where
  "node_holds N U L n s sb \<longleftrightarrow> shard_holds N U L n s (fst sb) \<and>
     list_all (\<lambda>(c, b). shard_holds N U L n s b) (snd sb) \<and>
     (\<forall>i<n. i mod N = s \<longrightarrow> i \<le> unat (replicated_index (fst sb)))"

definition cluster_holds ::
  "nat \<Rightarrow> nat \<Rightarrow> LogEntry list \<Rightarrow> nat \<Rightarrow> (int \<Rightarrow> ShardServer \<times> (ShardClient \<times> ShardServer) list) \<Rightarrow> bool" where
  "cluster_holds N U L n sv \<longleftrightarrow> (\<forall>s<N. node_holds N U L n s (sv (int s)))"

lemma shard_holds_grow:
  assumes "shard_holds N U L n s st"
  shows "shard_holds N U (L @ xs) n s st"
proof -
  have "map ((!) (L @ xs)) (shard_idxs N U s q n) = map ((!) L) (shard_idxs N U s q n)" for q
    using shard_holdsD(7) [OF assms] by (auto simp: shard_idxs_def nth_append)
  then show ?thesis
    using assms unfolding shard_holds_def by (simp only: length_append) (metis trans_le_add1)
qed

lemma cluster_holds_grow: "cluster_holds N U L n sv \<Longrightarrow> cluster_holds N U (L @ xs) n sv"
  by (fastforce simp: cluster_holds_def node_holds_def list_all_iff intro: shard_holds_grow)

lemma dispatch_simps:
  "shard_dispatch bnet resp APPEND_BATCH = AppendBatchHandler bnet resp"
  "shard_dispatch bnet resp READ_ENTRY_BE = (\<lambda>req sb. map_option (\<lambda>(r, st). (r, st, snd sb)) (ReadEntryHandler False resp req (fst sb)))"
  "shard_dispatch bnet resp UPDATE_GLBL_IDX = (\<lambda>req sb. map_option (\<lambda>(r, st). (r, st, snd sb)) (UpdateGlobalIdxHandler resp req (fst sb)))"
  by (intro ext; simp add: shard_dispatch_def APPEND_BATCH_def READ_ENTRY_BE_def UPDATE_GLBL_IDX_def REP_BATCH_def)+

text \<open>The entries below \<open>m\<close> of a shard are those below \<open>n\<close> when no index of the shard lies between.\<close>

lemma shard_holds_skip:
  assumes "shard_holds N U L n s st" "n \<le> m" "m \<le> length L" "filter (\<lambda>i. i mod N = s) [n..<m] = []"
  shows "shard_holds N U L m s st"
proof -
  have "[0..<m] = [0..<n] @ [n..<m]" using assms(2) by (metis le_add_diff_inverse upt_add_eq_append zero_le)
  then have "shard_idxs N U s q m = shard_idxs N U s q n" for q
    using assms(4) by (auto simp: shard_idxs_def filter_empty_conv)
  then show ?thesis using assms(1, 3) unfolding shard_holds_def by metis
qed

lemma node_holds_skip:
  assumes "node_holds N U L n s sb" "n \<le> m" "m \<le> length L" "filter (\<lambda>i. i mod N = s) [n..<m] = []"
  shows "node_holds N U L m s sb"
proof -
  have "i < n" if "i < m" "i mod N = s" for i
    using assms(4) that by (auto simp: filter_empty_conv)
  then show ?thesis
    using assms shard_holds_skip [OF _ assms(2-4)] by (auto simp: node_holds_def list_all_iff)
qed

lemma waitForAllShards_ok:
  assumes "distinct (map fst rqs)"
    and "\<And>sh t m. (sh, t, m) \<in> set rqs \<Longrightarrow> \<exists>r s. net sh t m (sv sh) = Some (r, s) \<and> Q sh s"
    and "nb_ok N U nb"
  shows "\<exists>nb' sv'. waitForAllShards net rqs nb sv = Some (nb', sv') \<and> nb_ok N U nb' \<and>
    (\<forall>sh. if sh \<in> fst ` set rqs then Q sh (sv' sh) else sv' sh = sv sh)"
  using assms
proof (induction rqs arbitrary: nb sv)
  case (Cons rq rqs)
  obtain sh t m where rq: "rq = (sh, t, m)" by (cases rq)
  obtain r s where s: "net sh t m (sv sh) = Some (r, s)" "Q sh s"
    using Cons.prems(2) [of sh t m] rq by auto
  let ?nb = "nb\<lparr>shard_clients := (shard_clients nb)(sh := map_option (\<lambda>c. c\<lparr>sc_resp := r\<rparr>) (shard_clients nb sh))\<rparr>"
  have nb: "nb_ok N U ?nb" using Cons.prems(3) by (auto simp: nb_ok_def)
  have q: "\<exists>r x. net sh' t' m' ((sv(sh := s)) sh') = Some (r, x) \<and> Q sh' x" if "(sh', t', m') \<in> set rqs" for sh' t' m'
    using Cons.prems(1, 2) that rq by (auto simp: image_iff)
  from Cons.prems(1) have "distinct (map fst rqs)" by simp
  from Cons.IH [OF this q nb] obtain nb' sv' where IH: "waitForAllShards net rqs ?nb (sv(sh := s)) = Some (nb', sv')"
    "nb_ok N U nb'" "\<forall>x. if x \<in> fst ` set rqs then Q x (sv' x) else sv' x = (sv(sh := s)) x" by blast
  have "sh \<notin> fst ` set rqs" using Cons.prems(1) rq by simp
  then have "Q sh (sv' sh)" using IH(3) s(2) by (metis fun_upd_same)
  then have "\<forall>x. if x \<in> fst ` set (rq # rqs) then Q x (sv' x) else sv' x = sv x"
    using IH(3) rq by auto
  then show ?case using IH(1, 2) s(1) rq by auto
qed auto

lemma row_shards:
  assumes "0 < N" "s < N" "a \<le> t"
  shows "int s \<in> set (map (\<lambda>r. int ((a + r) mod N)) [0..<min N (Suc (t - a))]) \<longleftrightarrow>
    filter (\<lambda>i. i mod N = s) [a..<Suc t] \<noteq> []"
proof
  assume "filter (\<lambda>i. i mod N = s) [a..<Suc t] \<noteq> []"
  then obtain i where i: "a \<le> i" "i \<le> t" "i mod N = s" by (auto simp: filter_empty_conv)
  define r where "r = (i - a) mod N"
  have "(a + r) mod N = s" using i(1, 3) by (simp add: r_def mod_add_right_eq)
  moreover have "r < N" "r \<le> i - a" using assms(1) by (simp_all add: r_def)
  ultimately show "int s \<in> set (map (\<lambda>r. int ((a + r) mod N)) [0..<min N (Suc (t - a))])"
    using i(1, 2) by (auto intro!: image_eqI [of _ _ r])
next
  assume "int s \<in> set (map (\<lambda>r. int ((a + r) mod N)) [0..<min N (Suc (t - a))])"
  then obtain r where "r < Suc (t - a)" "s = (a + r) mod N" by auto
  then show "filter (\<lambda>i. i mod N = s) [a..<Suc t] \<noteq> []"
    using assms(3) by (auto simp: filter_empty_conv intro!: bexI [of _ "a + r"] simp del: upt_Suc)
qed

lemma distinct_row_shards:
  assumes "0 < N" "k \<le> N"
  shows "distinct (map (\<lambda>r. int ((a + r) mod N)) [0..<k])"
proof -
  have le: "r = r'" if "r \<le> r'" "r' < k" "(a + r') mod N = (a + r) mod N" for r r'
  proof -
    have "N dvd r' - r" using that(1, 3) mod_eq_dvd_iff_nat [of "a + r" "a + r'" N] by simp
    then show ?thesis using that(1, 2) assms(2) by (auto dest: dvd_imp_le)
  qed
  have "r = r'" if "r < k" "r' < k" "(a + r) mod N = (a + r') mod N" for r r'
    using le [of r r'] le [of r' r] that by (cases "r \<le> r'") auto
  then show ?thesis by (auto simp: distinct_map inj_on_def)
qed

text \<open>A network that runs the handlers of the shard servers.\<close>

locale shard_cluster =
  fixes net :: "int \<Rightarrow> (ShardServer \<times> (ShardClient \<times> ShardServer) list) net"
    and bnet :: "ShardServer net"
    and resp0 resp :: MsgBuffer
  assumes backups: "serves bnet REP_BATCH (ReplicateBatchHandler resp0)"
    and primaries: "serves (net i) t (shard_dispatch bnet resp t)"
begin

lemma deliver_batch:
  assumes L: "log_ok L" and h: "node_holds N U L a s sb" and req: "shard_batch N U L a m s req"
  shows "\<exists>r sb'. net i APPEND_BATCH req sb = Some (r, sb') \<and> node_holds N U L m s sb' \<and>
    global_index (fst sb') = global_index (fst sb)"
proof -
  let ?P = "\<lambda>sb'. node_holds N U L m s sb' \<and> global_index (fst sb') = global_index (fst sb)"
  have "\<exists>r sb'. AppendBatchHandler bnet resp req' sb = Some (r, sb') \<and> ?P sb'" if sm: "same_msg req req'" for req'
  proof -
    obtain st bs where sb: "sb = (st, bs)" by (cases sb)
    have h': "shard_holds N U L a s st" "list_all (\<lambda>(c, b). shard_holds N U L a s b) bs"
      using h sb by (simp_all add: node_holds_def)
    obtain r st' bs' where r: "AppendBatchHandler bnet resp req' (st, bs) = Some (r, st', bs')"
      "shard_holds N U L m s st'" "list_all (\<lambda>(c, b). shard_holds N U L m s b) bs'"
      "unat (replicated_index st') = last (filter (\<lambda>i. i mod N = s) [a..<m])" "global_index st' = global_index st"
      using AppendBatchHandler_holds [OF L backups h' shard_batch_same [OF req sm], of resp] by blast
    have "i \<le> unat (replicated_index st')" if "i < m" "i mod N = s" for i
    proof (cases "i < a")
      case True
      have "last (filter (\<lambda>i. i mod N = s) [a..<m]) \<in> set (filter (\<lambda>i. i mod N = s) [a..<m])"
        using req by (intro last_in_set) (simp add: shard_batch_def)
      then show ?thesis using True r(4) by auto
    next
      case False
      then have "i \<in> set (filter (\<lambda>i. i mod N = s) [a..<m])" using that by simp
      then show ?thesis unfolding r(4) by (rule le_last_sorted) (simp add: sorted_wrt_filter)
    qed
    then show ?thesis using r by (auto simp: sb node_holds_def)
  qed
  then show ?thesis
    using serves_relation [OF primaries [of i APPEND_BATCH], of req sb "\<lambda>_. ?P"] unfolding dispatch_simps by blast
qed

lemma row_ok:
  assumes b: "batch_of (U * N) L n e es" and nb: "nb_ok N U nb" and cl: "cluster_holds N U L a sv"
    and w: "unat start = n" "unat from = a" "unat to = t"
    and row: "n \<le> a" "a \<le> t" "t \<le> e" "a div (U * N) = t div (U * N)"
  shows "\<exists>nb1 rqs nb2 sv'. AppendBatch_row (unat (of_int (nb_shard_num nb) :: u64)) nb es start from to 0 = Some (nb1, rqs) \<and>
    waitForAllShards net rqs nb1 sv = Some (nb2, sv') \<and> nb_ok N U nb2 \<and> cluster_holds N U L (Suc t) sv' \<and>
    (\<forall>i. global_index (fst (sv' i)) = global_index (fst (sv i)))"
proof -
  have N: "0 < N" "unat (of_int (nb_shard_num nb) :: u64) = N"
    using nb by (simp_all add: nb_ok_def unat_of_nat_small)
  obtain nb1 rqs where r: "AppendBatch_row N nb es start from to 0 = Some (nb1, rqs)" "nb_ok N U nb1"
    "map fst rqs = map (\<lambda>r. int ((a + r) mod N)) [0..<min N (Suc (t - a))]"
    "\<forall>(sh, ty, req)\<in>set rqs. ty = APPEND_BATCH \<and> shard_batch N U L a (Suc t) (nat sh) req"
    using AppendBatch_row_ok [OF b nb w row, of N 0] by auto
  have L: "log_ok L" "Suc t \<le> length L" using b row by (simp_all add: batch_of_def)
  let ?Q = "\<lambda>sh sb. node_holds N U L (Suc t) (nat sh) sb \<and> global_index (fst sb) = global_index (fst (sv sh))"
  have rs: "sh \<in> fst ` set rqs \<Longrightarrow> \<exists>s<N. sh = int s" for sh
  proof -
    assume "sh \<in> fst ` set rqs"
    then have "sh \<in> set (map (\<lambda>r. int ((a + r) mod N)) [0..<min N (Suc (t - a))])" using r(3) by (metis set_map)
    then show ?thesis using N(1) by auto
  qed
  have q: "\<exists>x s. net sh ty req (sv sh) = Some (x, s) \<and> ?Q sh s" if rq: "(sh, ty, req) \<in> set rqs" for sh ty req
  proof -
    obtain s where s: "s < N" "sh = int s" using rs [of sh] rq by force
    then have "node_holds N U L a s (sv sh)" using cl by (simp add: cluster_holds_def)
    then show ?thesis
      using deliver_batch [OF L(1), of N U a s "sv sh" "Suc t" req sh] r(4) rq s by fastforce
  qed
  have "distinct (map fst rqs)" unfolding r(3) by (rule distinct_row_shards [OF N(1)]) simp
  from waitForAllShards_ok [where Q = ?Q and sv = sv and net = net, OF this q r(2)]
  obtain nb2 sv' where sv': "waitForAllShards net rqs nb1 sv = Some (nb2, sv')" "nb_ok N U nb2"
    "\<forall>sh. if sh \<in> fst ` set rqs then ?Q sh (sv' sh) else sv' sh = sv sh" by blast
  have "node_holds N U L (Suc t) s (sv' (int s))" if "s < N" for s
  proof (cases "int s \<in> fst ` set rqs")
    case True
    then show ?thesis using sv'(3) [rule_format, of "int s"] by simp
  next
    case False
    then have "filter (\<lambda>i. i mod N = s) [a..<Suc t] = []"
      using row_shards [OF N(1) that row(2)] r(3) by (metis set_map)
    moreover have "node_holds N U L a s (sv' (int s))"
      using sv'(3) [rule_format, of "int s"] False cl that by (simp add: cluster_holds_def)
    ultimately show ?thesis using node_holds_skip row(2) L(2) by (meson le_SucI)
  qed
  moreover have "global_index (fst (sv' i)) = global_index (fst (sv i))" for i
    using sv'(3) [rule_format, of i] by (simp split: if_splits)
  ultimately show ?thesis using r(1) sv'(1, 2) by (auto simp: N(2) cluster_holds_def)
qed

end

lemma unat_nb_big: "nb_ok N U nb \<Longrightarrow> unat (nb_big_stripe nb) = U * N"
  by (simp add: nb_ok_def nb_big_stripe_def unat_mult_lem [THEN iffD1] unat_of_nat_small)

lemma unat_row_from: "unat (row_from i start) = max (unat start) (unat i)"
  by (simp add: row_from_def word_less_nat_alt max_def)

lemma unat_row_to:
  assumes "nb_ok N U nb" "unat i + U * N < 2 ^ 64"
  shows "unat (row_to nb i e) = min (unat e) (unat i + U * N - 1)"
proof -
  have "unat (i + nb_big_stripe nb) = unat i + U * N"
    using assms unat_nb_big [OF assms(1)] by (subst unat_add_small) simp_all
  moreover have "0 < U * N" using assms(1) by (simp add: nb_ok_def)
  ultimately have "unat (i + nb_big_stripe nb - 1) = unat i + U * N - 1"
    by (subst unat_sub) (simp_all add: word_le_nat_alt Suc_le_eq del: nat_0_less_mult_iff)
  then show ?thesis by (simp add: row_to_def Let_def word_less_nat_alt min_def)
qed

context shard_cluster
begin

lemma loop_row:
  assumes b: "batch_of (U * N) L n e es" and nb: "nb_ok N U nb"
    and w: "unat start = n" "unat fin = e" "unat lb = e div (U * N) * (U * N)"
    and i: "unat i = q * (U * N)" "n div (U * N) \<le> q" "q \<le> e div (U * N)"
    and cl: "cluster_holds N U L (max n (q * (U * N))) sv"
  shows "\<exists>nb' sv' i'. AppendBatch_loop net nb es start fin i lb sv = AppendBatch_loop net nb' es start fin i' lb sv' \<and>
    nb_ok N U nb' \<and> cluster_holds N U L (min (Suc e) (Suc q * (U * N))) sv' \<and> unat i' = Suc q * (U * N) \<and>
    (\<forall>j. global_index (fst (sv' j)) = global_index (fst (sv j)))"
proof -
  let ?B = "U * N" and ?a = "max n (q * (U * N))" and ?t = "min e (q * (U * N) + U * N - 1)"
  have B: "0 < ?B" using nb by (simp add: nb_ok_def)
  have le: "q * ?B \<le> e" using i(3) B by (metis div_le_mono div_mult_self_is_m less_eq_div_iff_mult_less_eq)
  have len: "e < length L" "length L + ?B < 2 ^ 64" "n \<le> e" using b by (simp_all add: batch_of_def)
  then have ov: "unat i + ?B < 2 ^ 64" using le i(1) by linarith
  have n: "n < q * ?B + ?B" using i(2) B by (metis add.commute div_less_iff_less_mult le_imp_less_Suc mult_Suc)
  have row: "n \<le> ?a" "?a \<le> ?t" "?t \<le> e" "?a div ?B = ?t div ?B"
  proof -
    show "?a \<le> ?t" using n le B len(3) by (auto simp del: nat_0_less_mult_iff)
    have "?a div ?B = q" "?t div ?B = q"
      using n le B len(3) by (auto simp: div_eq_interval simp del: nat_0_less_mult_iff)
    then show "?a div ?B = ?t div ?B" by simp
  qed simp_all
  have u: "unat (row_from i start) = ?a" "unat (row_to nb i fin) = ?t"
    using w(1, 2) i(1) unat_row_to [OF nb ov] by (simp_all add: unat_row_from)
  obtain nb1 rqs nb2 sv' where r:
    "AppendBatch_row (unat (of_int (nb_shard_num nb) :: u64)) nb es start (row_from i start) (row_to nb i fin) 0 = Some (nb1, rqs)"
    "waitForAllShards net rqs nb1 sv = Some (nb2, sv')" "nb_ok N U nb2" "cluster_holds N U L (Suc ?t) sv'"
    "\<forall>j. global_index (fst (sv' j)) = global_index (fst (sv j))"
    using row_ok [OF b nb cl w(1) u row] by blast
  have "i \<le> lb" using i(1, 3) w(3) by (simp add: word_le_nat_alt)
  then have "AppendBatch_loop net nb es start fin i lb sv =
      AppendBatch_loop net nb2 es start fin (i + nb_big_stripe nb2) lb sv'"
    using r(1, 2) by (subst AppendBatch_loop.simps) simp
  moreover have "unat (i + nb_big_stripe nb2) = Suc q * ?B"
    using ov unat_nb_big [OF r(3)] i(1) by (subst unat_add_small) simp_all
  moreover have "Suc ?t = min (Suc e) (Suc q * ?B)" using B by (auto simp: min_def simp del: nat_0_less_mult_iff)
  ultimately show ?thesis using r(3-5) by metis
qed

lemma loop_ok:
  assumes b: "batch_of (U * N) L n e es" and nb: "nb_ok N U nb"
    and w: "unat start = n" "unat fin = e" "unat lb = e div (U * N) * (U * N)"
    and i: "unat i = q * (U * N)" "n div (U * N) \<le> q" "q \<le> e div (U * N)"
    and cl: "cluster_holds N U L (max n (q * (U * N))) sv"
  shows "\<exists>nb' sv'. AppendBatch_loop net nb es start fin i lb sv = Some (nb', sv') \<and> nb_ok N U nb' \<and>
    cluster_holds N U L (Suc e) sv' \<and> (\<forall>j. global_index (fst (sv' j)) = global_index (fst (sv j)))"
  using nb i cl
proof (induction "e div (U * N) - q" arbitrary: q nb sv i rule: less_induct)
  case less
  let ?B = "U * N"
  have B: "0 < ?B" using nb by (simp add: nb_ok_def)
  obtain nb' sv' i' where r: "AppendBatch_loop net nb es start fin i lb sv = AppendBatch_loop net nb' es start fin i' lb sv'"
    "nb_ok N U nb'" "cluster_holds N U L (min (Suc e) (Suc q * ?B)) sv'" "unat i' = Suc q * ?B"
    "\<forall>j. global_index (fst (sv' j)) = global_index (fst (sv j))"
    using loop_row [OF b less.prems(1) w less.prems(2-5)] by blast
  show ?case
  proof (cases "q = e div ?B")
    case True
    then have "e < Suc q * ?B" using B by (simp add: dividend_less_div_times)
    moreover have "\<not> i' \<le> lb" using r(4) w(3) True B by (simp add: word_le_nat_alt)
    then have "AppendBatch_loop net nb' es start fin i' lb sv' = Some (nb', sv')"
      by (subst AppendBatch_loop.simps) simp
    ultimately show ?thesis using r by (auto simp: min_def)
  next
    case False
    then have q: "Suc q \<le> e div ?B" using less.prems(4) by simp
    then have "Suc q * ?B \<le> e div ?B * ?B" by (rule mult_le_mono1)
    also have "\<dots> \<le> e" by simp
    finally have "min (Suc e) (Suc q * ?B) = Suc q * ?B" by simp
    moreover have "n \<le> Suc q * ?B" 
      using less.prems(3) B by (metis div_less_iff_less_mult le_imp_less_Suc less_imp_le)
    ultimately have "cluster_holds N U L (max n (Suc q * ?B)) sv'" using r(3) by simp
    moreover have "n div ?B \<le> Suc q" using less.prems(3) by simp
    ultimately show ?thesis
      using less.hyps [of "Suc q" nb' i' sv'] r q False less.prems(4) by auto
  qed
qed

end

text \<open>What \<^verbatim>\<open>fetch\<close> hands to the backend: entries \<open>n\<close> to \<open>m - 1\<close> of the log, possibly followed by the record
  that carries the end position.\<close>

definition fetched_batch :: "LogEntry list \<Rightarrow> nat \<Rightarrow> nat \<Rightarrow> LogEntry list \<Rightarrow> bool" where
  "fetched_batch L n m es \<longleftrightarrow> n < m \<and> m \<le> length L \<and> length es < 2 ^ 32 \<and>
     (es = drop n (take m L) \<or> (\<exists>d. es = drop n (take m L) @ [d] \<and> log_idx d = 0 \<and> wf_entry d))"

lemma fetched_batch_of:
  assumes es: "fetched_batch L n m es" and L: "log_ok L" "4 + tsz L < 2 ^ 64" "length L + B < 2 ^ 64"
  shows "batch_of B L n (m - 1) es" "es \<noteq> []" "unat (log_idx (hd es)) = n" "unat (batch_end_idx es) = m - 1"
proof -
  let ?xs = "drop n (take m L)"
  have nm: "n < m" "m \<le> length L" "length es < 2 ^ 32" using es by (simp_all add: fetched_batch_def)
  have len: "length ?xs = m - n" using nm by simp
  have nth: "?xs ! (i - n) = L ! i" if "n \<le> i" "i < m" for i using that nm by simp
  obtain ds where ds: "es = ?xs @ ds" "ds = [] \<or> (\<exists>d. ds = [d] \<and> log_idx d = 0 \<and> wf_entry d)"
    using es by (auto simp: fetched_batch_def)
  have ix: "unat (log_idx (L ! i)) = i" "wf_entry (L ! i)" if "i < m" for i
    using L(1) nm that by (auto simp: log_ok_def unat_of_nat_small)
  have "list_all wf_entry ?xs" using L(1) nm(2) by (auto simp: list_all_length log_ok_def)
  then show "batch_of B L n (m - 1) es"
    using nm L ds nth len by (auto simp: batch_of_def nth_append)
  show "es \<noteq> []" using ds(1) len nm(1) by auto
  show "unat (log_idx (hd es)) = n"
    using nth [of n] ix(1) [OF nm(1)] nm(1) len ds(1) by (simp add: hd_append hd_conv_nth)
  have xs: "?xs \<noteq> []" "last ?xs = L ! (m - 1)" using nm by (simp_all add: last_conv_nth)
  show "unat (batch_end_idx es) = m - 1"
  proof (cases "ds = []")
    case True
    then have l: "log_idx (last es) = log_idx (L ! (m - 1))" using xs ds(1) by simp
    moreover have "m - 1 \<noteq> 0" if "1 < length es" using that nm ds(1) True by simp
    ultimately show ?thesis
      using ix(1) [of "m - 1"] nm(1) by (auto simp: batch_end_idx_def Let_def)
  next
    case False
    then obtain d where d: "ds = [d]" "log_idx d = 0" using ds(2) by auto
    have "es ! (length es - 2) = L ! (m - 1)"
      using d(1) ds(1) len nm nth [of "m - 1"] by (simp add: nth_append)
    then show ?thesis
      using d ds(1) len nm ix(1) [of "m - 1"] by (auto simp: batch_end_idx_def Let_def)
  qed
qed

context shard_cluster
begin

lemma AppendBatch_ok:
  assumes nb: "nb_ok N U nb" and cl: "cluster_holds N U L n sv" and es: "fetched_batch L n m es"
    and L: "log_ok L" "4 + tsz L < 2 ^ 64" "length L + U * N < 2 ^ 64"
  shows "\<exists>nb' sv'. NaiveBackend_AppendBatch net nb es sv = Some (of_nat (m - 1), nb', sv') \<and> nb_ok N U nb' \<and>
    cluster_holds N U L m sv' \<and> (\<forall>i. global_index (fst (sv' i)) = global_index (fst (sv i)))"
proof -
  note f = fetched_batch_of [OF es L]
  let ?B = "U * N" and ?big = "nb_big_stripe nb" and ?s = "log_idx (hd es)" and ?e = "batch_end_idx es"
  have nm: "n < m" using es by (simp add: fetched_batch_def)
  have B: "0 < ?B" using nb by (simp add: nb_ok_def)
  have base: "unat (i div ?big * ?big) = unat i div ?B * ?B" for i :: u64
  proof -
    have "unat (i div ?big) * unat ?big \<le> unat i" by (simp add: unat_div_distrib)
    also have "\<dots> < 2 ^ 64" using unsigned_less [of i, where ?'a = nat] by simp
    finally show ?thesis using unat_nb_big [OF nb] by (simp add: unat_mult_lem [THEN iffD1] unat_div_distrib)
  qed
  have "max n (n div ?B * ?B) = n" by simp
  then obtain nb' sv' where "AppendBatch_loop net nb es ?s ?e (?s div ?big * ?big) (?e div ?big * ?big) sv = Some (nb', sv')"
    "nb_ok N U nb'" "cluster_holds N U L (Suc (m - 1)) sv'" "\<forall>i. global_index (fst (sv' i)) = global_index (fst (sv i))"
    using loop_ok [OF f(1) nb f(3, 4), of "?e div ?big * ?big" "?s div ?big * ?big" "n div ?B" sv] base f(3, 4) cl nm
    by (auto simp: div_le_mono)
  then show ?thesis
    using f(2) nm word_eq_of_nat [OF f(4)] by (auto simp: NaiveBackend_AppendBatch_def Let_def)
qed

lemma ReadEntry_ok:
  assumes nb: "nb_ok N U nb" and cl: "cluster_holds N U L n sv" and L: "log_ok L"
    and i: "unat idx < n" "idx \<le> global_index (fst (sv (int (unat idx mod N))))"
  shows "\<exists>nb' sv'. NaiveBackend_ReadEntry net nb idx e sv = Some (True, L ! unat idx, nb', sv') \<and> nb_ok N U nb' \<and>
    cluster_holds N U L n sv' \<and> (\<forall>i. global_index (fst (sv' i)) = global_index (fst (sv i)))"
proof -
  let ?s = "unat idx mod N" and ?e = "L ! unat idx"
  have s: "?s < N" using nb by (simp add: nb_ok_def)
  have "unat (idx mod of_int (nb_shard_num nb)) = ?s"
    using nb by (simp add: unat_mod_distrib nb_ok_def unat_of_nat_small)
  moreover have "?s < 2 ^ 31" using s nb by (simp add: nb_ok_def)
  ultimately have sh: "int_of_u64 (idx mod of_int (nb_shard_num nb)) = int ?s" by (simp add: int_of_u64_small)
  obtain c where c: "shard_clients nb (int ?s) = Some c" using nb s by (auto simp: nb_ok_def)
  obtain st bs where sb: "sv (int ?s) = (st, bs)" by (cases "sv (int ?s)")
  have h: "node_holds N U L n ?s (st, bs)" using cl s sb by (simp add: cluster_holds_def flip: sb)
  then have sh_h: "shard_holds N U L n ?s st" "unat idx \<le> unat (replicated_index st)"
    using i(1) by (auto simp: node_holds_def)
  have pass: "ReadEntry_pass st idx = Some (Some ?e, st)"
    using ReadEntry_pass_eq [OF shard_holdsD(1) [OF sh_h(1)]] ReadEntry_serve_eq [OF sh_h(1) refl] sh_h(2) i sb
    by (simp add: word_le_nat_alt)
  have "n \<le> length L" by (rule shard_holdsD(7) [OF sh_h(1)])
  then have we: "wf_entry ?e" "valid ?e" using L i(1) by (auto simp: log_ok_def)
  let ?m = "put_le (buf (sc_req c)) 0 idx" and ?st = "st\<lparr>num_fast_path_reads := num_fast_path_reads st + 1\<rparr>"
  let ?req = "resize_msg_buffer ((sc_req c)\<lparr>buf := ?m\<rparr>) 8"
  let ?P = "\<lambda>r sb'. data_size r = esz ?e \<and> entry_at (buf r) 0 ?e \<and> sb' = (?st, bs)"
  have "\<exists>r sb'. shard_dispatch bnet resp READ_ENTRY_BE req' (st, bs) = Some (r, sb') \<and> ?P r sb'"
    if "same_msg ?req req'" for req'
  proof -
    have "get_le (buf req') 0 = idx"
      using same_msg_get_le [OF that, of 0, where ?'a = 64] by (simp add: resize_msg_buffer_def)
    then show ?thesis
      using pass entry_at_Serializer [of ?e "buf resp" 0] ew.put_size [OF we(1), of "buf resp" 0]
      by (auto simp: dispatch_simps ReadEntryHandler_def resize_msg_buffer_def split: prod.split)
  qed
  then obtain r r' where r: "?P r (?st, bs)" "same_msg r r'" "net (int ?s) READ_ENTRY_BE ?req (st, bs) = Some (r', ?st, bs)"
    using serves_relation [OF primaries [of "int ?s" READ_ENTRY_BE], of ?req "(st, bs)" ?P] by blast
  have "entry_at (buf r') 0 ?e" "data_size r' = esz ?e"
    using same_msg_entry_at [OF r(2), of 0 ?e] esz_bounds(1) [of ?e] r(1, 2) by (auto simp: same_msg_def)
  then have rd: "ShardClient_ReadEntry (net (int ?s)) c idx e (sv (int ?s)) =
      Some (True, ?e, c\<lparr>sc_req := ?req, sc_resp := r'\<rparr>, (?st, bs))"
    using Deserializer_any(2) [of "buf r'" 0 ?e e] we esz_bounds(1) [of ?e] r(3)
    by (simp add: ShardClient_ReadEntry_def enqueue_def Let_def sb)
  let ?nb = "nb\<lparr>shard_clients := (shard_clients nb)(int ?s \<mapsto> c\<lparr>sc_req := ?req, sc_resp := r'\<rparr>)\<rparr>"
  have "NaiveBackend_ReadEntry net nb idx e sv = Some (True, ?e, ?nb, sv(int ?s := (?st, bs)))"
    using rd c sh by (simp add: NaiveBackend_ReadEntry_def Let_def)
  moreover have "nb_ok N U ?nb" using nb by (simp add: nb_ok_def)
  moreover have "cluster_holds N U L n (sv(int ?s := (?st, bs)))"
    using cl h by (auto simp: cluster_holds_def node_holds_def)
  moreover have "\<forall>i. global_index (fst ((sv(int ?s := (?st, bs))) i)) = global_index (fst (sv i))"
    using sb by auto
  ultimately show ?thesis by blast
qed

end

lemma serves_None:
  assumes "serves net t h" "\<And>req'. same_msg req req' \<Longrightarrow> h req' s = None"
  shows "net t req s = None"
  using assms(1) [unfolded serves_def, rule_format, of req s] assms(2) by fastforce

lemma UpdateGlobalIdx_requests_ok:
  assumes "nb_ok N U nb" "set is \<subseteq> int ` {..<N}"
  shows "\<exists>nb' rqs. UpdateGlobalIdx_requests is idx nb = (nb', rqs) \<and> nb_ok N U nb' \<and> map fst rqs = is \<and>
    (\<forall>(sh, t, m)\<in>set rqs. t = UPDATE_GLBL_IDX \<and> data_size m = 8 \<and> get_le (buf m) 0 = idx)"
  using assms
proof (induction "is" arbitrary: nb)
  case (Cons i js)
  then obtain c where c: "shard_clients nb i = Some c" by (auto simp: nb_ok_def)
  obtain c' m where m: "UpdateGlobalIdxAsync c idx = (c', UPDATE_GLBL_IDX, m)" "data_size m = 8" "get_le (buf m) 0 = idx"
    by (simp add: UpdateGlobalIdxAsync_def enqueue_def Let_def resize_msg_buffer_def)
  let ?nb = "nb\<lparr>shard_clients := (shard_clients nb)(i \<mapsto> c')\<rparr>"
  have "nb_ok N U ?nb" using Cons.prems(1) by (simp add: nb_ok_def)
  then obtain nb' rqs where "UpdateGlobalIdx_requests js idx ?nb = (nb', rqs)" "nb_ok N U nb'" "map fst rqs = js"
    "\<forall>(sh, t, m)\<in>set rqs. t = UPDATE_GLBL_IDX \<and> data_size m = 8 \<and> get_le (buf m) 0 = idx"
    using Cons.IH [of ?nb] Cons.prems(2) by auto
  then show ?case using c m by auto
qed simp

context shard_cluster
begin

lemma UpdateGlobalIdx_ok:
  assumes nb: "nb_ok N U nb" and cl: "cluster_holds N U L n sv"
  shows "\<exists>nb' sv'. NaiveBackend_UpdateGlobalIdx net nb idx sv = Some (nb', sv') \<and> nb_ok N U nb' \<and>
    cluster_holds N U L n sv' \<and> (\<forall>s<N. global_index (fst (sv' (int s))) = idx)"
proof -
  have N: "nb_shard_num nb = int N" using nb by (simp add: nb_ok_def)
  have ks: "set [0..nb_shard_num nb - 1] = int ` {..<N}"
    by (auto simp: N image_iff intro!: bexI [of _ "nat _"])
  obtain nb' rqs where r: "UpdateGlobalIdx_requests [0..nb_shard_num nb - 1] idx nb = (nb', rqs)" "nb_ok N U nb'"
    "map fst rqs = [0..nb_shard_num nb - 1]"
    "\<forall>(sh, t, m)\<in>set rqs. t = UPDATE_GLBL_IDX \<and> data_size m = 8 \<and> get_le (buf m) 0 = idx"
    using UpdateGlobalIdx_requests_ok [OF nb eq_refl [OF ks]] by blast
  have fs: "fst ` set rqs = int ` {..<N}" using r(3) ks by (metis set_map)
  let ?Q = "\<lambda>sh sb. sb = ((fst (sv sh))\<lparr>global_index := idx\<rparr>, snd (sv sh))"
  have q: "\<exists>x s. net sh t m (sv sh) = Some (x, s) \<and> ?Q sh s" if rq: "(sh, t, m) \<in> set rqs" for sh t m
  proof -
    have m: "t = UPDATE_GLBL_IDX" "data_size m = 8" "get_le (buf m) 0 = idx" using r(4) rq by auto
    have "\<exists>x s. shard_dispatch bnet resp UPDATE_GLBL_IDX m' (sv sh) = Some (x, s) \<and> ?Q sh s" if "same_msg m m'" for m'
      using same_msg_get_le [OF that, of 0, where ?'a = 64] m by (simp add: dispatch_simps UpdateGlobalIdxHandler_def)
    then show ?thesis
      using serves_relation [OF primaries [of sh UPDATE_GLBL_IDX], of m "sv sh" "\<lambda>_. ?Q sh"] m(1) by blast
  qed
  have "distinct (map fst rqs)" unfolding r(3) by simp
  from waitForAllShards_ok [where Q = ?Q and sv = sv and net = net, OF this q r(2)]
  obtain nb2 sv' where sv': "waitForAllShards net rqs nb' sv = Some (nb2, sv')" "nb_ok N U nb2"
    "\<forall>sh. if sh \<in> fst ` set rqs then ?Q sh (sv' sh) else sv' sh = sv sh" by blast
  have s: "sv' (int s) = ((fst (sv (int s)))\<lparr>global_index := idx\<rparr>, snd (sv (int s)))" if "s < N" for s
    using sv'(3) [rule_format, of "int s"] that unfolding fs by simp
  then have "cluster_holds N U L n sv'" using cl by (simp add: cluster_holds_def node_holds_def)
  then show ?thesis using r(1) sv'(1, 2) s by (auto simp: NaiveBackend_UpdateGlobalIdx_def)
qed

lemma ReadEntry_waits:
  assumes nb: "nb_ok N U nb" and cl: "cluster_holds N U L n sv"
    and i: "n \<le> unat idx \<or> global_index (fst (sv (int (unat idx mod N)))) < idx"
  shows "NaiveBackend_ReadEntry net nb idx e sv = None"
proof -
  let ?s = "unat idx mod N"
  have s: "?s < N" using nb by (simp add: nb_ok_def)
  have "unat (idx mod of_int (nb_shard_num nb)) = ?s"
    using nb by (simp add: unat_mod_distrib nb_ok_def unat_of_nat_small)
  moreover have "?s < 2 ^ 31" using s nb by (simp add: nb_ok_def)
  ultimately have sh: "int_of_u64 (idx mod of_int (nb_shard_num nb)) = int ?s" by (simp add: int_of_u64_small)
  obtain c where c: "shard_clients nb (int ?s) = Some c" using nb s by (auto simp: nb_ok_def)
  have h: "shard_holds N U L n ?s (fst (sv (int ?s)))" using cl s by (simp add: cluster_holds_def node_holds_def)
  have pass: "ReadEntry_pass (fst (sv (int ?s))) idx = Some (None, fst (sv (int ?s)))"
    using ReadEntry_pass_eq [OF shard_holdsD(1) [OF h]] ReadEntry_serve_eq [OF h refl] i by auto
  let ?req = "resize_msg_buffer ((sc_req c)\<lparr>buf := put_le (buf (sc_req c)) 0 idx\<rparr>) 8"
  have "shard_dispatch bnet resp READ_ENTRY_BE req' (sv (int ?s)) = None" if "same_msg ?req req'" for req'
    using same_msg_get_le [OF that, of 0, where ?'a = 64] pass
    by (simp add: resize_msg_buffer_def dispatch_simps ReadEntryHandler_def)
  then have "net (int ?s) READ_ENTRY_BE ?req (sv (int ?s)) = None"
    by (rule serves_None [OF primaries])
  then show ?thesis
    using c sh by (simp add: NaiveBackend_ReadEntry_def ShardClient_ReadEntry_def enqueue_def Let_def)
qed

end

section \<open>The contract of a storage backend\<close>

text \<open>
  What the consensus log relies on, the interface \<^verbatim>\<open>StorageBackend\<close>. \<open>stores L n g b\<close>: the backend
  \<open>b\<close> holds the first \<open>n\<close> entries of the log \<open>L\<close>, and readers may see the entries up to index \<open>g\<close>.
\<close>

locale log_backend =
  fixes append :: "'b \<Rightarrow> LogEntry list \<Rightarrow> (u64 \<times> 'b) option"
    and read :: "'b \<Rightarrow> u64 \<Rightarrow> LogEntry \<Rightarrow> (bool \<times> LogEntry \<times> 'b) option"
    and publish :: "'b \<Rightarrow> u64 \<Rightarrow> 'b option"
    and stores :: "LogEntry list \<Rightarrow> nat \<Rightarrow> nat \<Rightarrow> 'b \<Rightarrow> bool"
  assumes append_stores: "stores L n g b \<Longrightarrow> fetched_batch L n m es \<Longrightarrow>
      \<exists>b'. append b es = Some (of_nat (m - 1), b') \<and> stores L m g b'"
    and read_stores: "stores L n g b \<Longrightarrow> unat idx < n \<Longrightarrow> unat idx \<le> g \<Longrightarrow>
      \<exists>b'. read b idx e = Some (True, L ! unat idx, b') \<and> stores L n g b'"
    and read_waits: "stores L n g b \<Longrightarrow> n \<le> unat idx \<or> g < unat idx \<Longrightarrow> read b idx e = None"
    and publish_stores: "stores L n g b \<Longrightarrow> \<exists>b'. publish b idx = Some b' \<and> stores L n (unat idx) b'"
    and stores_grow: "stores L n g b \<Longrightarrow> log_ok (L @ xs) \<Longrightarrow> 4 + tsz (L @ xs) < 2 ^ 64 \<Longrightarrow> stores (L @ xs) n g b"
begin

text \<open>A round of the consensus log, seen from the backend: a batch is stored and then published.\<close>

lemma append_publish:
  assumes "stores L n g b" "fetched_batch L n m es" "length L \<le> 2 ^ 64"
  shows "\<exists>b1 b2. append b es = Some (of_nat (m - 1), b1) \<and> publish b1 (of_nat (m - 1)) = Some b2 \<and> stores L m (m - 1) b2"
proof -
  obtain b1 where b1: "append b es = Some (of_nat (m - 1), b1)" "stores L m g b1"
    using append_stores [OF assms(1, 2)] by blast
  obtain b2 where "publish b1 (of_nat (m - 1)) = Some b2" "stores L m (unat (of_nat (m - 1) :: u64)) b2"
    using publish_stores [OF b1(2)] by blast
  moreover have "unat (of_nat (m - 1) :: u64) = m - 1"
    using assms(2, 3) by (intro unat_of_nat_small) (auto simp: fetched_batch_def)
  ultimately show ?thesis using b1(1) by auto
qed

text \<open>A read that returns, returns the entry of the log at that index, and nothing beyond the published index.\<close>

lemma read_safe:
  assumes "stores L n g b" "read b idx e = Some (r, e', b')"
  shows "unat idx < n \<and> unat idx \<le> g \<and> e' = L ! unat idx \<and> stores L n g b'"
  using read_stores [OF assms(1), of idx e] read_waits [OF assms(1), of idx e] assms(2) by force

end

definition cluster_stores ::
  "LogEntry list \<Rightarrow> nat \<Rightarrow> nat \<Rightarrow> NaiveBackend \<times> (int \<Rightarrow> ShardServer \<times> (ShardClient \<times> ShardServer) list) \<Rightarrow> bool" where
  "cluster_stores L n g b \<longleftrightarrow> log_ok L \<and> 4 + tsz L < 2 ^ 64 \<and>
     (\<exists>N U. nb_ok N U (fst b) \<and> cluster_holds N U L n (snd b) \<and> U * N < 2 ^ 63 \<and>
       (\<forall>s<N. unat (global_index (fst (snd b (int s)))) = g))"

lemma cluster_storesI:
  assumes "log_ok L" "4 + tsz L < 2 ^ 64" "nb_ok N U nb" "cluster_holds N U L n sv" "U * N < 2 ^ 63"
    "\<And>s. s < N \<Longrightarrow> unat (global_index (fst (sv (int s)))) = g"
  shows "cluster_stores L n g (nb, sv)"
  unfolding cluster_stores_def using assms by auto

lemma cluster_stores_bounds:
  assumes "cluster_stores L n g b"
  shows "n \<le> length L" "length L < 2 ^ 64" "log_ok L" "4 + tsz L < 2 ^ 64"
proof -
  obtain N U where "nb_ok N U (fst b)" "cluster_holds N U L n (snd b)" using assms by (auto simp: cluster_stores_def)
  then have "node_holds N U L n 0 (snd b (int 0))" unfolding nb_ok_def cluster_holds_def by blast
  then show "n \<le> length L" using shard_holdsD(7) by (auto simp: node_holds_def)
qed (use assms in \<open>auto simp: cluster_stores_def log_ok_def\<close>)

text \<open>Every backend that is configured alike reads the same cluster.\<close>

lemma cluster_stores_reader:
  assumes "cluster_stores L n g (nb, sv)" "nb_shard_num nb' = nb_shard_num nb" "nb_stripe_unit_size nb' = nb_stripe_unit_size nb"
    "\<And>i. shard_clients nb i \<noteq> None \<Longrightarrow> shard_clients nb' i \<noteq> None"
  shows "cluster_stores L n g (nb', sv)"
proof -
  obtain N U where h: "nb_ok N U nb" "cluster_holds N U L n sv" "U * N < 2 ^ 63" "\<forall>s<N. unat (global_index (fst (sv (int s)))) = g"
    using assms(1) by (auto simp: cluster_stores_def)
  then have "nb_ok N U nb'" using assms(2-4) by (auto simp: nb_ok_def)
  then show ?thesis using h assms(1) by (intro cluster_storesI) (auto simp: cluster_stores_def)
qed

sublocale shard_cluster \<subseteq> nb: log_backend
  "\<lambda>(nb, sv) es. NaiveBackend_AppendBatch net nb es sv"
  "\<lambda>(nb, sv) idx e. NaiveBackend_ReadEntry net nb idx e sv"
  "\<lambda>(nb, sv) idx. NaiveBackend_UpdateGlobalIdx net nb idx sv"
  cluster_stores
proof
  fix L :: "LogEntry list" and n g m :: nat and es and idx :: u64 and e and b :: "NaiveBackend \<times> (int \<Rightarrow> ShardServer \<times> (ShardClient \<times> ShardServer) list)"
  assume st: "cluster_stores L n g b"
  obtain nb sv where b: "b = (nb, sv)" by (cases b)
  obtain N U where h: "nb_ok N U nb" "cluster_holds N U L n sv" "U * N < 2 ^ 63"
    "\<forall>s<N. unat (global_index (fst (sv (int s)))) = g" and L: "log_ok L" "4 + tsz L < 2 ^ 64"
    using st by (auto simp: cluster_stores_def b)
  have s: "unat idx mod N < N" for idx :: u64 using h(1) by (simp add: nb_ok_def)
  have len: "length L + U * N < 2 ^ 64" using tsz_ge_length [of L] L(2) h(3) by simp
  { assume es: "fetched_batch L n m es"
    show "\<exists>b'. (case b of (nb, sv) \<Rightarrow> \<lambda>es. NaiveBackend_AppendBatch net nb es sv) es = Some (of_nat (m - 1), b') \<and>
        cluster_stores L m g b'"
      using AppendBatch_ok [OF h(1, 2) es L len] h(4) by (auto simp: b intro!: cluster_storesI [OF L _ _ h(3)]) }
  { assume "unat idx < n" "unat idx \<le> g"
    then show "\<exists>b'. (case b of (nb, sv) \<Rightarrow> \<lambda>idx e. NaiveBackend_ReadEntry net nb idx e sv) idx e = Some (True, L ! unat idx, b') \<and>
        cluster_stores L n g b'"
      using ReadEntry_ok [OF h(1, 2) L(1), of idx e] h(4) s [of idx]
      by (auto simp: b word_le_nat_alt intro!: cluster_storesI [OF L _ _ h(3)]) }
  { assume "n \<le> unat idx \<or> g < unat idx"
    then show "(case b of (nb, sv) \<Rightarrow> \<lambda>idx e. NaiveBackend_ReadEntry net nb idx e sv) idx e = None"
      using ReadEntry_waits [OF h(1, 2), of idx e] h(4) s [of idx] by (auto simp: b word_less_nat_alt) }
  show "\<exists>b'. (case b of (nb, sv) \<Rightarrow> \<lambda>idx. NaiveBackend_UpdateGlobalIdx net nb idx sv) idx = Some b' \<and>
      cluster_stores L n (unat idx) b'"
    using UpdateGlobalIdx_ok [OF h(1, 2), of idx] by (auto simp: b intro!: cluster_storesI [OF L _ _ h(3)])
  show "cluster_stores (L @ xs) n g b" if "log_ok (L @ xs)" "4 + tsz (L @ xs) < 2 ^ 64" for xs
    unfolding b using that h cluster_holds_grow [OF h(2)] by (intro cluster_storesI [of _ N U]) simp_all
qed

context shard_cluster
begin

lemma ReadEntry_correct:
  assumes "cluster_stores L n g (nb, sv)"
  shows "if unat idx < n \<and> unat idx \<le> g
    then \<exists>nb' sv'. NaiveBackend_ReadEntry net nb idx e sv = Some (True, L ! unat idx, nb', sv') \<and> cluster_stores L n g (nb', sv')
    else NaiveBackend_ReadEntry net nb idx e sv = None"
  using nb.read_stores [OF assms, of idx e] nb.read_waits [OF assms, of idx e] by auto

end

text \<open>The network without loss or change: every message reaches its handler as it was sent.\<close>

definition loopback_shards :: "int \<Rightarrow> (ShardServer \<times> (ShardClient \<times> ShardServer) list) net" where
  "loopback_shards i t = shard_dispatch (\<lambda>t. ReplicateBatchHandler empty_msg) empty_msg t"

interpretation loop: shard_cluster loopback_shards "\<lambda>t. ReplicateBatchHandler empty_msg"
  "empty_msg" "empty_msg"
proof
  show "serves (\<lambda>t. ReplicateBatchHandler empty_msg) REP_BATCH (ReplicateBatchHandler empty_msg)"
    by (rule serves_self)
  show "serves (loopback_shards i) t (shard_dispatch (\<lambda>t. ReplicateBatchHandler empty_msg)
      empty_msg t)" for i t
    unfolding serves_def loopback_shards_def by (intro allI exI [of _ _] conjI) (auto split: option.split)
qed


text \<open>C8. Reads are linearizable in the log order: a read of an index that is stored and published returns exactly that entry of
  the log, every other read waits, and a read never changes what is stored.\<close>

theorem NaiveBackend_ReadEntry_correct:
  assumes "shard_cluster net bnet resp0 resp" and "cluster_stores L n g (nb, sv)"
  shows "if unat idx < n \<and> unat idx \<le> g
    then \<exists>nb' sv'. NaiveBackend_ReadEntry net nb idx e sv = Some (True, L ! unat idx, nb', sv') \<and> cluster_stores L n g (nb', sv')
    else NaiveBackend_ReadEntry net nb idx e sv = None"
  by (rule shard_cluster.ReadEntry_correct [OF assms])

section \<open>Witnesses\<close>

definition fresh_client :: ShardClient where
  "fresh_client = \<lparr>sc_req = empty_msg, sc_resp = empty_msg\<rparr>"

definition fresh_backend :: "nat \<Rightarrow> nat \<Rightarrow> NaiveBackend" where
  "fresh_backend N U = \<lparr>nb_stripe_unit_size = of_nat U, nb_shard_num = int N, shard_clients = (\<lambda>_. Some fresh_client)\<rparr>"

definition fresh_cluster :: "nat \<Rightarrow> nat \<Rightarrow> int \<Rightarrow> ShardServer \<times> (ShardClient \<times> ShardServer) list" where
  "fresh_cluster N U i = (fresh_shard N U (nat i), [(fresh_client, fresh_shard N U (nat i))])"

lemma fresh_cluster_ok:
  assumes "0 < U" "0 < N" "N < 2 ^ 31" "U * N < 2 ^ 64"
  shows "nb_ok N U (fresh_backend N U)" "cluster_holds N U L 0 (fresh_cluster N U)"
proof -
  have "U \<le> U * N" using assms by simp
  then have "U < 2 ^ 64" using assms(4) by linarith
  then have "unat (of_nat U :: u64) = U" by (intro unat_of_nat_small) simp
  then show "nb_ok N U (fresh_backend N U)" using assms by (simp add: nb_ok_def fresh_backend_def)
  show "cluster_holds N U L 0 (fresh_cluster N U)"
    using fresh_shard_holds [OF assms(1) _ assms(3, 4)] by (simp add: cluster_holds_def node_holds_def fresh_cluster_def)
qed

lemma plain_batch: "0 < m \<Longrightarrow> m < 2 ^ 32 \<Longrightarrow> fetched_batch (plain_log m) 0 m (plain_log m)"
  by (simp add: fetched_batch_def)


theorem NaiveBackend_ReadEntry_correct_witness:
  "\<exists>nb sv nb' sv'. cluster_stores (plain_log 20) 20 19 (nb, sv) \<and>
    NaiveBackend_ReadEntry loopback_shards nb 5 LogEntry_new sv = Some (True, plain_entry 5, nb', sv') \<and>
    NaiveBackend_ReadEntry loopback_shards nb 20 LogEntry_new sv = None"
proof -
  have h: "nb_ok 3 2 (fresh_backend 3 2)" "cluster_holds 3 2 (plain_log 20) 0 (fresh_cluster 3 2)"
    by (rule fresh_cluster_ok; simp)+
  have "cluster_stores (plain_log 20) 0 0 (fresh_backend 3 2, fresh_cluster 3 2)"
    by (rule cluster_storesI [OF _ _ h]) (simp_all add: plain_log_ok fresh_cluster_def)
  from loop.nb.append_publish [OF this plain_batch]
  obtain nb sv where st: "cluster_stores (plain_log 20) 20 19 (nb, sv)" by auto
  show ?thesis
    using st NaiveBackend_ReadEntry_correct [OF loop.shard_cluster_axioms st, of 5 LogEntry_new]
      NaiveBackend_ReadEntry_correct [OF loop.shard_cluster_axioms st, of 20 LogEntry_new]
    by auto
qed

end
