(* ===== verification/Cons_Log.thy ===== *)
theory Cons_Log
  imports Dur_Cli Backend "HOL-Library.AList"
begin

text \<open>
  The consensus log, from \<^verbatim>\<open>src/src/cons_log/cons_log.cc\<close>: it moves the entries of the primary durability server to
  the storage backend, in the order of the primary, tells the durability servers what they may collect, and
  then lets readers see the stored entries. \<open>fetchAndStore\<close> is one round without the pipeline; \<open>fetch\<close> and \<open>store\<close>
  are the two threads of the pipeline, with the static variables of these functions as fields of the state.

  The backend is reached through the interface \<^verbatim>\<open>StorageBackend\<close>, a record of its methods, which work on a backend state
  of any type. The durability servers are a function from their addresses; remote memory access and the
  RPC network are parameters, as in the theories of the clients. The times that the statistics collect are parameters.
  \<open>None\<close> is a wait that does not end or a call that does not return.
\<close>

section \<open>The model\<close>

record 'b StorageBackend =
  be_AppendBatch :: "'b \<Rightarrow> LogEntry list \<Rightarrow> (u64 \<times> 'b) option"
  be_ReadEntry :: "'b \<Rightarrow> u64 \<Rightarrow> LogEntry \<Rightarrow> (bool \<times> LogEntry \<times> 'b) option"
  be_UpdateGlobalIdx :: "'b \<Rightarrow> u64 \<Rightarrow> 'b option"

definition NaiveBackend_methods :: "(int \<Rightarrow> 's net) \<Rightarrow> (NaiveBackend \<times> (int \<Rightarrow> 's)) StorageBackend" where
  "NaiveBackend_methods net =
     \<lparr>be_AppendBatch = (\<lambda>(nb, sv) es. NaiveBackend_AppendBatch net nb es sv),
      be_ReadEntry = (\<lambda>(nb, sv) idx e. NaiveBackend_ReadEntry net nb idx e sv),
      be_UpdateGlobalIdx = (\<lambda>(nb, sv) idx. NaiveBackend_UpdateGlobalIdx net nb idx sv)\<rparr>"

record PipelineObj =
  entries_buf :: "LogEntry list"
  buf_empty :: bool

record 'b ConsensusLog =
  buffers :: "PipelineObj list"
  pri_dur_cli :: string
  dur_cli :: "(string \<times> DurabilityLogFlatCli) list"
  cl_is_primary :: bool
  backend :: 'b
  max_ordered_idx :: u64
  max_fetch_size :: u32
  total_be_size :: u64
  total_fetch_time :: u64
  total_append_time :: u64
  total_gc_time :: u64
  total_be_n :: u64
  fetch_round :: u64
  fetch_begin :: u64
  store_round :: u64

definition ConsensusLog_new :: "'b \<Rightarrow> 'b ConsensusLog" where
  "ConsensusLog_new b =
     \<lparr>buffers = replicate 2 \<lparr>entries_buf = [], buf_empty = True\<rparr>, pri_dur_cli = [], dur_cli = [], cl_is_primary = False,
      backend = b, max_ordered_idx = 0, max_fetch_size = 0, total_be_size = 0, total_fetch_time = 0,
      total_append_time = 0, total_gc_time = 0, total_be_n = 0, fetch_round = 0, fetch_begin = 0, store_round = 0\<rparr>"

text \<open>\<open>connect\<close> makes the client of a server (\<^verbatim>\<open>InitializeConn\<close>). A server that is named twice keeps its last client.\<close>

fun connect_all ::
  "(string \<Rightarrow> exn + DurabilityLogFlatCli) \<Rightarrow> string list \<Rightarrow> (string \<times> DurabilityLogFlatCli) list \<Rightarrow>
    exn + (string \<times> DurabilityLogFlatCli) list" where
  "connect_all connect [] ds = Inr ds"
| "connect_all connect (d # us) ds =
     (case connect d of Inl x \<Rightarrow> Inl x | Inr c \<Rightarrow> connect_all connect us (AList.update d c ds))"

definition ConsensusLog_Initialize ::
  "(string \<Rightarrow> exn + DurabilityLogFlatCli) \<Rightarrow> (Properties \<Rightarrow> (exn + 'b) option) \<Rightarrow> Properties \<Rightarrow> 'b ConsensusLog \<Rightarrow>
    (exn + 'b ConsensusLog) option" where
  "ConsensusLog_Initialize connect InitializeBackend p cl =
     (if GetProperty p ''leader'' ''true'' \<noteq> ''true'' then Some (Inr cl)
      else let cl = cl\<lparr>cl_is_primary := True\<rparr>;
               pri_dur_uri = GetProperty p ''dur_log.primary_uri'' ''localhost:31850'';
               dur_svr_uri = SeparateValue (GetProperty p ''dur_log.server_uri'' ''localhost:31850'') CHR '',''
           in case connect_all connect dur_svr_uri (dur_cli cl) of
                Inl x \<Rightarrow> Some (Inl x)
              | Inr ds \<Rightarrow>
                  (case stoi (GetProperty p ''cons_log.max_fetch_size'' ''0'') of
                     Inl x \<Rightarrow> Some (Inl x)
                   | Inr n \<Rightarrow>
                       (case InitializeBackend p of
                          None \<Rightarrow> None
                        | Some (Inl x) \<Rightarrow> Some (Inl x)
                        | Some (Inr b) \<Rightarrow>
                            Some (Inr (cl\<lparr>dur_cli := ds, max_fetch_size := of_int n, pri_dur_cli := pri_dur_uri, backend := b\<rparr>)))))"

definition GetNumOrderedEntries :: "'b ConsensusLog \<Rightarrow> u64" where
  "GetNumOrderedEntries cl = max_ordered_idx cl - 1"

definition FetchFromPrimary ::
  "rdma \<Rightarrow> 'b ConsensusLog \<Rightarrow> (string \<Rightarrow> DurabilityLogFlat) \<Rightarrow> LogEntry list \<Rightarrow> u64 \<Rightarrow>
    (u32 \<times> LogEntry list \<times> 'b ConsensusLog) option" where
  "FetchFromPrimary q cl sv es frm =
     (case map_of (dur_cli cl) (pri_dur_cli cl) of
        None \<Rightarrow> None
      | Some c \<Rightarrow>
          (case FlatCli_FetchUnorderedEntries q c (mem_rg_raw (sv (pri_dur_cli cl))) es frm (max_fetch_size cl) of
             None \<Rightarrow> None
           | Some (fetch_size, es, c) \<Rightarrow>
               Some (fetch_size, es, cl\<lparr>dur_cli := AList.update (pri_dur_cli cl) c (dur_cli cl)\<rparr>)))"

fun issue_deletions ::
  "(string \<times> DurabilityLogFlatCli) list \<Rightarrow> LogEntry list \<Rightarrow> u64 \<Rightarrow>
    (u64 \<times> (string \<times> DurabilityLogFlatCli \<times> deletion) list) option" where
  "issue_deletions [] es last_log_idx = Some (last_log_idx, [])"
| "issue_deletions ((u, c) # ds) es last_log_idx =
     (case ProcessFetchedEntries c es [] of None \<Rightarrow> None | Some (last_log_idx, req_ids) \<Rightarrow>
      case FlatCli_DeleteOrderedEntriesAsync c req_ids of None \<Rightarrow> None | Some (c, d) \<Rightarrow>
      case issue_deletions ds es last_log_idx of None \<Rightarrow> None | Some (last_log_idx, rs) \<Rightarrow>
        Some (last_log_idx, (u, c, d) # rs))"

fun wait_deletions ::
  "rdma \<Rightarrow> (string \<Rightarrow> DurabilityLogFlat net) \<Rightarrow> (string \<times> DurabilityLogFlatCli \<times> deletion) list \<Rightarrow>
    (string \<Rightarrow> DurabilityLogFlat) \<Rightarrow> ((string \<times> DurabilityLogFlatCli) list \<times> (string \<Rightarrow> DurabilityLogFlat)) option" where
  "wait_deletions q net [] sv = Some ([], sv)"
| "wait_deletions q net ((u, c, d) # rs) sv =
     (case complete_deletion q (net u) d c (sv u) of None \<Rightarrow> None | Some (c, st) \<Rightarrow>
      case wait_deletions q net rs (sv(u := st)) of None \<Rightarrow> None | Some (ds, sv) \<Rightarrow> Some ((u, c) # ds, sv))"

definition collect ::
  "rdma \<Rightarrow> (string \<Rightarrow> DurabilityLogFlat net) \<Rightarrow> LogEntry list \<Rightarrow> 'b ConsensusLog \<Rightarrow> (string \<Rightarrow> DurabilityLogFlat) \<Rightarrow>
    (u64 \<times> 'b ConsensusLog \<times> (string \<Rightarrow> DurabilityLogFlat)) option" where
  "collect q net es cl sv =
     (case issue_deletions (dur_cli cl) es 0 of None \<Rightarrow> None | Some (last_log_idx, rs) \<Rightarrow>
      case wait_deletions q net rs sv of None \<Rightarrow> None | Some (ds, sv) \<Rightarrow>
        Some (last_log_idx, cl\<lparr>dur_cli := ds\<rparr>, sv))"

definition fetchAndStore ::
  "'b StorageBackend \<Rightarrow> rdma \<Rightarrow> (string \<Rightarrow> DurabilityLogFlat net) \<Rightarrow> u64 \<times> u64 \<times> u64 \<Rightarrow> 'b ConsensusLog \<Rightarrow>
    (string \<Rightarrow> DurabilityLogFlat) \<Rightarrow> (bool \<times> 'b ConsensusLog \<times> (string \<Rightarrow> DurabilityLogFlat)) option" where
  "fetchAndStore be q net ts cl sv =
     (case FetchFromPrimary q cl sv [] 0 of None \<Rightarrow> None | Some (fetch_size, entries, cl) \<Rightarrow>
      if fetch_size = 0 then Some (False, cl, sv)
      else let cl = cl\<lparr>total_fetch_time := total_fetch_time cl + fst ts,
                       total_be_size := total_be_size cl + of_nat (length entries) - 1\<rparr>
           in case be_AppendBatch be (backend cl) entries of None \<Rightarrow> None | Some (idx, b) \<Rightarrow>
                let cl = cl\<lparr>backend := b, max_ordered_idx := idx,
                            total_append_time := total_append_time cl + fst (snd ts), total_be_n := total_be_n cl + 1\<rparr>
                in case collect q net entries cl sv of None \<Rightarrow> None | Some (last_log_idx, cl, sv) \<Rightarrow>
                     let cl = cl\<lparr>total_gc_time := total_gc_time cl + snd (snd ts)\<rparr>
                     in case be_UpdateGlobalIdx be (backend cl) last_log_idx of None \<Rightarrow> None | Some b \<Rightarrow>
                          Some (True, cl\<lparr>backend := b\<rparr>, sv))"

subsection \<open>The pipeline\<close>

definition fetch ::
  "rdma \<Rightarrow> u64 \<Rightarrow> (string \<Rightarrow> DurabilityLogFlat) \<Rightarrow> 'b ConsensusLog \<Rightarrow> 'b ConsensusLog option" where
  "fetch q t sv cl =
     (let i = unat (fetch_round cl mod 2)
      in if \<not> buf_empty (buffers cl ! i) then None
         else case FetchFromPrimary q cl sv (entries_buf (buffers cl ! i)) (fetch_begin cl) of
                None \<Rightarrow> None
              | Some (fetch_len, es, cl) \<Rightarrow>
                  let cl = cl\<lparr>buffers := (buffers cl)[i := (buffers cl ! i)\<lparr>entries_buf := es\<rparr>]\<rparr>
                  in if fetch_len = 0 then Some cl
                     else Some (cl\<lparr>total_be_size := total_be_size cl + of_nat (length es) - 1,
                                  total_fetch_time := total_fetch_time cl + t, total_be_n := total_be_n cl + 1,
                                  fetch_begin := fetch_begin cl + ucast fetch_len,
                                  buffers := (buffers cl)[i := (buffers cl ! i)\<lparr>buf_empty := False\<rparr>],
                                  fetch_round := fetch_round cl + 1\<rparr>))"

definition store_idx :: "'b ConsensusLog \<Rightarrow> nat" where
  "store_idx cl = unat (store_round cl mod 2)"

definition store_append :: "'b StorageBackend \<Rightarrow> u64 \<Rightarrow> 'b ConsensusLog \<Rightarrow> 'b ConsensusLog option" where
  "store_append be t cl =
     (if buf_empty (buffers cl ! store_idx cl) then None
      else case be_AppendBatch be (backend cl) (entries_buf (buffers cl ! store_idx cl)) of
             None \<Rightarrow> None
           | Some (idx, b) \<Rightarrow>
               Some (cl\<lparr>backend := b, max_ordered_idx := idx, total_append_time := total_append_time cl + t\<rparr>))"

definition store_collect ::
  "rdma \<Rightarrow> (string \<Rightarrow> DurabilityLogFlat net) \<Rightarrow> u64 \<Rightarrow> 'b ConsensusLog \<Rightarrow> (string \<Rightarrow> DurabilityLogFlat) \<Rightarrow>
    (u64 \<times> 'b ConsensusLog \<times> (string \<Rightarrow> DurabilityLogFlat)) option" where
  "store_collect q net t cl sv =
     collect q net (entries_buf (buffers cl ! store_idx cl)) (cl\<lparr>total_gc_time := total_gc_time cl + t\<rparr>) sv"

definition store_release :: "'b ConsensusLog \<Rightarrow> 'b ConsensusLog" where
  "store_release cl = cl\<lparr>buffers := (buffers cl)[store_idx cl := \<lparr>entries_buf = [], buf_empty = True\<rparr>]\<rparr>"

definition store_publish :: "'b StorageBackend \<Rightarrow> u64 \<Rightarrow> 'b ConsensusLog \<Rightarrow> 'b ConsensusLog option" where
  "store_publish be last_log_idx cl =
     (case be_UpdateGlobalIdx be (backend cl) last_log_idx of
        None \<Rightarrow> None
      | Some b \<Rightarrow> Some (cl\<lparr>backend := b, store_round := store_round cl + 1\<rparr>))"

definition store ::
  "'b StorageBackend \<Rightarrow> rdma \<Rightarrow> (string \<Rightarrow> DurabilityLogFlat net) \<Rightarrow> bool \<Rightarrow> u64 \<times> u64 \<Rightarrow> 'b ConsensusLog \<Rightarrow>
    (string \<Rightarrow> DurabilityLogFlat) \<Rightarrow> ('b ConsensusLog \<times> (string \<Rightarrow> DurabilityLogFlat)) option" where
  "store be q net run ts cl sv =
     (if buf_empty (buffers cl ! store_idx cl) \<and> \<not> run then Some (cl, sv)
      else case store_append be (fst ts) cl of None \<Rightarrow> None | Some cl \<Rightarrow>
           case store_collect q net (snd ts) cl sv of None \<Rightarrow> None | Some (last_log_idx, cl, sv) \<Rightarrow>
           case store_publish be last_log_idx (store_release cl) of None \<Rightarrow> None | Some cl \<Rightarrow> Some (cl, sv))"

section \<open>The durability servers during a round\<close>

text \<open>
  \<open>primary_ok es k c st\<close>: the primary server holds the log \<open>es\<close>, of which the first \<open>k\<close> entries are collected, and
  \<open>c\<close> is its client. A backup has its own log and its own number of collected entries. \<open>kept fs\<close> says which entries
  of a backup outlive a round that has stored the entries \<open>fs\<close>: all but those whose client has one of the same
  or a higher number in \<open>fs\<close>, and those with number 0.
\<close>

definition primary_ok :: "LogEntry list \<Rightarrow> nat \<Rightarrow> DurabilityLogFlatCli \<Rightarrow> DurabilityLogFlat \<Rightarrow> bool" where
  "primary_ok es k c st \<longleftrightarrow> IsPrimary c \<and> connected c st \<and> is_primary st \<and> wait st \<and> flat_inv st es k \<and>
     tsz es - pos es k < unat (rg_size st) \<and> 262144 \<le> unat (rg_size st) \<and> unat (rg_size st) < 2 ^ 32 \<and>
     tsz es + 2 ^ 32 \<le> 2 ^ 64"

definition backup_ok :: "LogEntry list \<Rightarrow> nat \<Rightarrow> DurabilityLogFlatCli \<Rightarrow> DurabilityLogFlat \<Rightarrow> bool" where
  "backup_ok bs k c st \<longleftrightarrow> \<not> IsPrimary c \<and> \<not> is_primary st \<and> wait st \<and> bs \<noteq> [] \<and> flat_inv st bs k \<and>
     tsz bs - pos bs k \<le> unat (rg_size st) \<and> 262144 \<le> unat (rg_size st)"

definition kept :: "LogEntry list \<Rightarrow> LogEntry list \<Rightarrow> nat \<Rightarrow> DurabilityLogFlat \<Rightarrow> nat \<Rightarrow> DurabilityLogFlat \<Rightarrow> bool" where
  "kept fs bs k st k' st' \<longleftrightarrow> k \<le> k' \<and>
     (\<forall>e\<in>set (pending_entries st @ drop k bs). e \<in> set (pending_entries st' @ drop k' bs) \<or> client_seq e = 0 \<or>
       (\<exists>f\<in>set fs. client_id f = client_id e \<and> client_seq e \<le> client_seq f))"

definition servers_ok ::
  "LogEntry list \<Rightarrow> nat \<Rightarrow> (string \<Rightarrow> LogEntry list) \<Rightarrow> (string \<Rightarrow> nat) \<Rightarrow> 'b ConsensusLog \<Rightarrow> (string \<Rightarrow> DurabilityLogFlat) \<Rightarrow> bool" where
  "servers_ok es k bs kb cl sv \<longleftrightarrow> distinct (map fst (dur_cli cl)) \<and>
     (\<exists>c. map_of (dur_cli cl) (pri_dur_cli cl) = Some c \<and> primary_ok es k c (sv (pri_dur_cli cl))) \<and>
     (\<forall>u c. map_of (dur_cli cl) u = Some c \<longrightarrow> u \<noteq> pri_dur_cli cl \<longrightarrow> backup_ok (bs u) (kb u) c (sv u))"

definition end_marker :: "LogEntry list \<Rightarrow> nat \<Rightarrow> LogEntry" where
  "end_marker es j = LogEntry_new\<lparr>client_seq := of_nat (pos es j)\<rparr>"

lemma end_marker_simps [simp]:
  "client_id (end_marker es j) = 0" "log_idx (end_marker es j) = 0" "wf_entry (end_marker es j)"
  "client_seq (end_marker es j) = of_nat (pos es j)"
  by (simp_all add: end_marker_def LogEntry_new_def wf_entry_def)

lemma fit_prefix_take: "\<exists>n. fit_prefix m es = take n es \<and> n \<le> length es"
proof (induction es arbitrary: m)
  case (Cons e es)
  obtain n where "fit_prefix (m - esz e) es = take n es" "n \<le> length es"
    using Cons.IH [of "m - esz e"] by blast
  then show ?case
    by (cases "esz e \<le> m \<and> valid e") (auto intro: exI [of _ "Suc n"] exI [of _ 0])
qed simp

lemma fit_prefix_Nil: "es \<noteq> [] \<Longrightarrow> valid (hd es) \<Longrightarrow> fit_prefix m es = [] \<longleftrightarrow> m < esz (hd es)"
  by (cases es) auto

lemma pos_plus: "pos es (j + n) = pos es j + tsz (take n (drop j es))"
  by (simp add: pos_def take_add)

text \<open>What a fetch brings: the next \<open>n\<close> entries, at least one if the first one fits.\<close>

lemma FlatCli_Fetch_next:
  assumes q: "rdma_ok q" and p: "primary_ok es k c st" and j: "k \<le> j" "j \<le> length es" "unat (max (ordered_watermk st) frm) = pos es j"
  shows "\<exists>n c'. FlatCli_FetchUnorderedEntries q c (mem_rg_raw st) acc frm mx =
      Some (if n = 0 then (0, acc, c') else (of_nat (tsz (take n (drop j es))), acc @ take n (drop j es) @ [end_marker es (j + n)], c')) \<and>
    j + n \<le> length es \<and> primary_ok es k c' st \<and> (0 < n \<longleftrightarrow> j < length es \<and> (mx = 0 \<or> esz (es ! j) \<le> unat mx))"
proof (cases "frm < sequencer st")
  case False
  have P: "connected c st" "flat_inv st es k" "IsPrimary c" using p by (simp_all add: primary_ok_def)
  have "tsz es \<le> pos es j"
    using False flat_invD(5) [OF P(2)] j(3) by (auto simp: max_def word_le_nat_alt word_less_nat_alt split: if_splits)
  then have "j = length es"
    using pos_less_tsz [of j es] j(2) by (cases "j = length es") simp_all
  moreover have "FlatCli_FetchUnorderedEntries q c (mem_rg_raw st) acc frm mx =
      Some (0, acc, snd (getUnorderedRange q c (mem_rg_raw st)))"
    using False getUnorderedRange_eq(1) [OF q P(1) flat_invD(1) [OF P(2)]]
    by (simp add: FlatCli_FetchUnorderedEntries_def case_prod_beta Let_def not_less)
  moreover have "primary_ok es k (snd (getUnorderedRange q c (mem_rg_raw st))) st"
    using p by (simp add: primary_ok_def getUnorderedRange_def Let_def IsPrimary_def connected_def)
  ultimately show ?thesis
    by (intro exI [of _ 0] exI [of _ "snd (getUnorderedRange q c (mem_rg_raw st))"]) simp
next
  case True
  let ?lim = "if 0 < mx then min (tsz es) (pos es j + unat mx) else tsz es"
  have P: "connected c st" "flat_inv st es k" "tsz es - pos es k < unat (rg_size st)" "unat (rg_size st) < 2 ^ 32"
    "tsz es + 2 ^ 32 \<le> 2 ^ 64" using p by (simp_all add: primary_ok_def)
  obtain n where n: "fit_prefix (?lim - pos es j) (drop j es) = take n (drop j es)" "n \<le> length (drop j es)"
    using fit_prefix_take by blast
  obtain c' where c': "FlatCli_FetchUnorderedEntries q c (mem_rg_raw st) acc frm mx =
      Some (if take n (drop j es) = [] then (0, acc, c')
            else (of_nat (tsz (take n (drop j es))), acc @ take n (drop j es) @
              [LogEntry_new\<lparr>client_seq := of_nat (pos es j + tsz (take n (drop j es)))\<rparr>], c'))"
    "connected c' st" "IsPrimary c' = IsPrimary c"
    using FlatCli_FetchUnorderedEntries_ok [OF q P j True, where mx = mx and acc = acc] unfolding n by blast
  have nz: "take n (drop j es) = [] \<longleftrightarrow> n = 0" using n(2) by auto
  have "0 < n \<longleftrightarrow> j < length es \<and> (mx = 0 \<or> esz (es ! j) \<le> unat mx)"
  proof (cases "j < length es")
    case True
    then have "valid (hd (drop j es))" "hd (drop j es) = es ! j"
      using flat_invD(2) [OF P(2)] by (simp_all add: numbered_def stored_ok_def valid_def hd_drop_conv_nth)
    moreover have "pos es j + esz (es ! j) \<le> tsz es"
      using pos_less [of j "length es" es] True by simp
    ultimately show ?thesis
      using True nz fit_prefix_Nil [of "drop j es" "?lim - pos es j"] unfolding n
      by (cases "mx = 0") (auto simp: word_gt_0 min_def not_less split: if_splits)
  qed (use n(2) in simp)
  moreover have "primary_ok es k c' st"
    using p c'(2, 3) by (simp add: primary_ok_def)
  moreover have "j + n \<le> length es" using n(2) j(2) by simp
  ultimately show ?thesis
    using c'(1) unfolding nz pos_plus [symmetric] end_marker_def [symmetric] by blast
qed

lemma collect_all:
  assumes "distinct (map fst ds)"
    and "\<And>u c. (u, c) \<in> set ds \<Longrightarrow> \<exists>ids c1 d c2 st. ProcessFetchedEntries c es [] = Some (l, ids) \<and>
      FlatCli_DeleteOrderedEntriesAsync c ids = Some (c1, d) \<and> complete_deletion q (net u) d c1 (sv u) = Some (c2, st) \<and> R u c2 st"
  shows "\<exists>rs ds' sv'. issue_deletions ds es l0 = Some (if ds = [] then l0 else l, rs) \<and>
    wait_deletions q net rs sv = Some (ds', sv') \<and> map fst ds' = map fst ds \<and>
    (\<forall>u. u \<notin> fst ` set ds \<longrightarrow> sv' u = sv u) \<and> (\<forall>u c. (u, c) \<in> set ds' \<longrightarrow> R u c (sv' u))"
  using assms
proof (induction ds arbitrary: sv l0)
  case (Cons x ds)
  obtain u c where x: "x = (u, c)" by (cases x)
  obtain ids c1 d c2 st where st: "ProcessFetchedEntries c es [] = Some (l, ids)"
    "FlatCli_DeleteOrderedEntriesAsync c ids = Some (c1, d)" "complete_deletion q (net u) d c1 (sv u) = Some (c2, st)" "R u c2 st"
    using Cons.prems(2) [of u c] x by auto
  have u: "u \<notin> fst ` set ds" using Cons.prems(1) x by simp
  have "\<exists>ids c1 d c2 st'. ProcessFetchedEntries c' es [] = Some (l, ids) \<and>
      FlatCli_DeleteOrderedEntriesAsync c' ids = Some (c1, d) \<and>
      complete_deletion q (net u') d c1 ((sv(u := st)) u') = Some (c2, st') \<and> R u' c2 st'" if "(u', c') \<in> set ds" for u' c'
  proof -
    have "u' \<noteq> u" using u that by force
    then show ?thesis using Cons.prems(2) [of u' c'] that by simp
  qed
  moreover have "distinct (map fst ds)" using Cons.prems(1) by simp
  ultimately obtain rs ds' sv' where ih: "issue_deletions ds es l = Some (if ds = [] then l else l, rs)"
    "wait_deletions q net rs (sv(u := st)) = Some (ds', sv')" "map fst ds' = map fst ds"
    "\<forall>u'. u' \<notin> fst ` set ds \<longrightarrow> sv' u' = (sv(u := st)) u'" "\<forall>u c. (u, c) \<in> set ds' \<longrightarrow> R u c (sv' u)"
    using Cons.IH [of "sv(u := st)" l] by blast
  have "sv' u = st" using ih(4) u by simp
  then show ?case
    using ih st u x by (intro exI [of _ "(u, c1, d) # rs"] exI [of _ "(u, c2) # ds'"] exI [of _ sv']) auto
qed simp

section \<open>One round\<close>

text \<open>
  The consensus log relies on the contract of the backend, on remote memory access and on the durability
  servers running their handler for deletions.
\<close>

locale ordering = log_backend "be_AppendBatch be" "be_ReadEntry be" "be_UpdateGlobalIdx be" stores
  for be :: "'b StorageBackend" and stores +
  fixes q :: rdma and net :: "string \<Rightarrow> DurabilityLogFlat net" and resp0 :: MsgBuffer
  assumes rdma: "rdma_ok q"
    and deletions: "serves (net u) DEL_ORDERED_ENTRIES (DeleteOrderedEntriesHandler resp0)"
begin

lemma collect_primary:
  assumes p: "primary_ok es k c st" and n: "0 < n" "k + n \<le> length es"
  shows "\<exists>ids c1 d c2 st'. ProcessFetchedEntries c (take n (drop k es) @ [end_marker es (k + n)]) [] = Some (of_nat (k + n - 1), ids) \<and>
    FlatCli_DeleteOrderedEntriesAsync c ids = Some (c1, d) \<and> complete_deletion q (net u) d c1 st = Some (c2, st') \<and>
    primary_ok es (k + n) c2 st'"
proof -
  have P: "IsPrimary c" "connected c st" "flat_inv st es k" using p by (simp_all add: primary_ok_def)
  let ?st = "set_ordered_idx_watermk (of_nat (k + n)) (set_ordered_watermk (of_nat (pos es (k + n))) st)"
  obtain c1 d where c1: "FlatCli_DeleteOrderedEntriesAsync c [(of_nat (pos es (k + n)), 0), (of_nat (k + n), 0)] = Some (c1, d)"
    "same_conn c c1" "complete_deletion q (net u) d c1 st = Some (c1, ?st)"
    using async_delete_primary [OF rdma P(2) flat_invD(1) [OF P(3)] P(1)] by blast
  have "flat_inv ?st es (k + n)" by (rule flat_inv_watermarks [OF P(3) n(2)])
  moreover have "tsz es - pos es (k + n) < unat (rg_size st)"
    using p pos_mono [of k "k + n" es] unfolding primary_ok_def by linarith
  ultimately have "primary_ok es (k + n) c1 ?st"
    using p same_connD [OF c1(2)]
    by (simp add: primary_ok_def connected_def set_ordered_idx_watermk_def set_ordered_watermk_def)
  then show ?thesis
    using c1 ProcessFetchedEntries_primary [OF P(1) flat_invD(2) [OF P(3)] n, of "end_marker es (k + n)"] by auto
qed

lemma collect_backup:
  assumes b: "backup_ok bs k c st" and fs: "fs \<noteq> []" "length fs < 2 ^ 31" "client_id d = 0"
  shows "\<exists>ids c1 d' c2 st'. ProcessFetchedEntries c (fs @ [d]) [] = Some (log_idx (last fs), ids) \<and>
    FlatCli_DeleteOrderedEntriesAsync c ids = Some (c1, d') \<and> complete_deletion q (net u) d' c1 st = Some (c2, st') \<and>
    (\<exists>k'. backup_ok bs k' c2 st' \<and> kept fs bs k st k' st')"
proof -
  let ?ids = "filter (\<lambda>cs. fst cs \<noteq> 0) (maxSeqForClient (fs @ [d]))"
  define j where "j = gc_upto bs k (unat (max_seq_of (reqid_to_seq_map st) ?ids))"
  have B: "\<not> IsPrimary c" "\<not> is_primary st" "bs \<noteq> []" "flat_inv st bs k" "tsz bs - pos bs k \<le> unat (rg_size st)"
    using b by (simp_all add: backup_ok_def)
  obtain nd st' where st': "delEntriesBackup st ?ids = Some (nd, st')" "flat_inv st' bs j" "k \<le> j"
    "pending_entries st' = filter (\<lambda>e. \<not> acked ?ids e) (pending_entries st @ drop k (take j bs))"
    "\<not> is_primary st'" "rg_size st' = rg_size st" "wait st' = wait st"
    using delEntriesBackup_ok [OF B(4, 2, 3, 5), of ?ids] B(2) unfolding j_def [symmetric] by auto
  have "length ?ids < 2 ^ 32"
    by (rule order.strict_trans1 [OF length_filter_le]) (use length_maxSeq [of "fs @ [d]"] fs(2) in simp)
  moreover have "DelOrderedEntries st ?ids = Some (nd, st')"
    using B(2) st'(1) by (simp add: DelOrderedEntries_def)
  ultimately obtain c1 d' c2 where c: "FlatCli_DeleteOrderedEntriesAsync c ?ids = Some (c1, d')"
    "complete_deletion q (net u) d' c1 st = Some (c2, st')" "same_conn c c2"
    using async_delete_backup [OF deletions _ _ B(1)] by blast
  have "backup_ok bs j c2 st'"
    using b B st' same_connD(1) [OF c(3)] pos_mono [OF st'(3), of bs] by (simp add: backup_ok_def)
  moreover have "kept fs bs k st j st'"
  proof -
    have "set (drop k bs) = set (drop k (take j bs)) \<union> set (drop j bs)"
      using st'(3) by (metis append_take_drop_id drop_append drop_take le_add_diff_inverse drop_drop set_append take_drop add.commute)
    then show ?thesis
      using st'(3, 4) acked_maxSeq [OF fs(3), of fs] by (auto simp: kept_def)
  qed
  ultimately show ?thesis
    using ProcessFetchedEntries_backup [OF B(1) fs(1)] c by blast
qed

end

definition backups_kept ::
  "LogEntry list \<Rightarrow> (string \<Rightarrow> LogEntry list) \<Rightarrow> 'b ConsensusLog \<Rightarrow> (string \<Rightarrow> nat) \<Rightarrow> (string \<Rightarrow> DurabilityLogFlat) \<Rightarrow>
    (string \<Rightarrow> nat) \<Rightarrow> (string \<Rightarrow> DurabilityLogFlat) \<Rightarrow> bool" where
  "backups_kept fs bs cl kb sv kb' sv' \<longleftrightarrow>
     (\<forall>u\<in>fst ` set (dur_cli cl). u \<noteq> pri_dur_cli cl \<longrightarrow> kept fs (bs u) (kb u) (sv u) (kb' u) (sv' u))"

lemma servers_ok_frame:
  assumes "servers_ok es k bs kb cl sv" "dur_cli cl' = dur_cli cl" "pri_dur_cli cl' = pri_dur_cli cl"
  shows "servers_ok es k bs kb cl' sv"
  using assms(1) unfolding servers_ok_def assms(2, 3) .

lemma servers_ok_primary: "servers_ok es k bs kb cl sv \<Longrightarrow> \<exists>c. primary_ok es k c (sv (pri_dur_cli cl))"
  by (auto simp: servers_ok_def)

lemma primary_log_ok:
  assumes "primary_ok es k c st"
  shows "log_ok es" "4 + tsz es < 2 ^ 64"
proof -
  have P: "flat_inv st es k" "tsz es + 2 ^ 32 \<le> 2 ^ 64" using assms by (simp_all add: primary_ok_def)
  show "log_ok es"
    using flat_invD(2) [OF P(1)] tsz_ge_length [of es] P(2) by (auto simp: log_ok_def numbered_def stored_ok_def valid_def)
  show "4 + tsz es < 2 ^ 64" using P(2) by simp
qed

lemma batch_facts:
  assumes "primary_ok es k c st" "k \<le> j" "j + n \<le> length es" "0 < n"
  shows "length (take n (drop j es)) < 2 ^ 31" "log_idx (last (take n (drop j es))) = of_nat (j + n - 1)"
    "take n (drop j es) \<noteq> []" "unat (of_nat (tsz (take n (drop j es))) :: u32) = pos es (j + n) - pos es j"
    "0 < tsz (take n (drop j es))"
proof -
  have P: "flat_inv st es k" "tsz es - pos es k < 2 ^ 32" using assms(1) by (simp_all add: primary_ok_def)
  have t: "tsz (take n (drop j es)) = pos es (j + n) - pos es j" using pos_plus [of es j n] by simp
  have lt: "tsz (take n (drop j es)) < 2 ^ 32"
    using t P(2) pos_mono [OF assms(2), of es] pos_le_tsz [of es "j + n"] by simp
  have "m < 2 ^ 31" if "32 * m \<le> l" "l < 2 ^ 32" for m l :: nat using that by simp
  then show "length (take n (drop j es)) < 2 ^ 31"
    using tsz_ge_length [of "take n (drop j es)"] lt by blast
  show "log_idx (last (take n (drop j es))) = of_nat (j + n - 1)"
    using flat_invD(2) [OF P(1)] assms(3, 4) by (simp add: last_conv_nth numbered_def)
  show ne: "take n (drop j es) \<noteq> []" using assms(3, 4) by simp
  show "unat (of_nat (tsz (take n (drop j es))) :: u32) = pos es (j + n) - pos es j"
    using lt t by (subst unat_of_nat_small) simp_all
  show "0 < tsz (take n (drop j es))" using ne tsz_eq_0_iff [of "take n (drop j es)"] by blast
qed

lemma fetched_batchI:
  assumes "primary_ok es k c st" "k \<le> j" "j + n \<le> length es" "0 < n"
  shows "fetched_batch es j (j + n) (take n (drop j es) @ [end_marker es (j + n)])"
  using batch_facts(1) [OF assms] assms(3, 4) by (auto simp: fetched_batch_def drop_take)

lemma FetchFromPrimary_ok:
  assumes q: "rdma_ok q" and s: "servers_ok es k bs kb cl sv" and j: "k \<le> j" "j \<le> length es"
    and frm: "unat (max (ordered_watermk (sv (pri_dur_cli cl))) frm) = pos es j"
  shows "\<exists>n ds. FetchFromPrimary q cl sv acc frm =
      Some (if n = 0 then (0, acc, cl\<lparr>dur_cli := ds\<rparr>)
            else (of_nat (tsz (take n (drop j es))), acc @ take n (drop j es) @ [end_marker es (j + n)], cl\<lparr>dur_cli := ds\<rparr>)) \<and>
    j + n \<le> length es \<and> servers_ok es k bs kb (cl\<lparr>dur_cli := ds\<rparr>) sv \<and> fst ` set ds = fst ` set (dur_cli cl) \<and>
    (0 < n \<longleftrightarrow> j < length es \<and> (max_fetch_size cl = 0 \<or> esz (es ! j) \<le> unat (max_fetch_size cl)))"
proof -
  let ?u = "pri_dur_cli cl"
  obtain c where c: "map_of (dur_cli cl) ?u = Some c" "primary_ok es k c (sv ?u)"
    using s by (auto simp: servers_ok_def)
  obtain n c' where n: "FlatCli_FetchUnorderedEntries q c (mem_rg_raw (sv ?u)) acc frm (max_fetch_size cl) =
      Some (if n = 0 then (0, acc, c') else (of_nat (tsz (take n (drop j es))), acc @ take n (drop j es) @ [end_marker es (j + n)], c'))"
    "j + n \<le> length es" "primary_ok es k c' (sv ?u)"
    "0 < n \<longleftrightarrow> j < length es \<and> (max_fetch_size cl = 0 \<or> esz (es ! j) \<le> unat (max_fetch_size cl))"
    using FlatCli_Fetch_next [OF q c(2) j frm] by blast
  let ?ds = "AList.update ?u c' (dur_cli cl)"
  have "servers_ok es k bs kb (cl\<lparr>dur_cli := ?ds\<rparr>) sv"
    using s n(3) by (auto simp: servers_ok_def AList.update_conv' distinct_update split: if_splits)
  moreover have "fst ` set ?ds = fst ` set (dur_cli cl)"
    using map_of_SomeD [OF c(1)] by (force simp: AList.dom_update)
  moreover have "FetchFromPrimary q cl sv acc frm =
      Some (if n = 0 then (0, acc, cl\<lparr>dur_cli := ?ds\<rparr>)
            else (of_nat (tsz (take n (drop j es))), acc @ take n (drop j es) @ [end_marker es (j + n)], cl\<lparr>dur_cli := ?ds\<rparr>))"
    using n(1) c(1) by (simp add: FetchFromPrimary_def)
  ultimately show ?thesis
    using n(2, 4) by blast
qed

context ordering
begin

lemma collect_ok:
  assumes s: "servers_ok es k bs kb cl sv" and n: "0 < n" "k + n \<le> length es"
  shows "\<exists>ds sv' kb'. collect q net (take n (drop k es) @ [end_marker es (k + n)]) cl sv = Some (of_nat (k + n - 1), cl\<lparr>dur_cli := ds\<rparr>, sv') \<and>
    servers_ok es (k + n) bs kb' (cl\<lparr>dur_cli := ds\<rparr>) sv' \<and> fst ` set ds = fst ` set (dur_cli cl) \<and>
    backups_kept (take n (drop k es)) bs cl kb sv kb' sv'"
proof -
  let ?fs = "take n (drop k es)" and ?p = "pri_dur_cli cl"
  define R where "R u c st \<longleftrightarrow> (if u = ?p then primary_ok es (k + n) c st
    else \<exists>k'. backup_ok (bs u) k' c st \<and> kept ?fs (bs u) (kb u) (sv u) k' st)" for u c st
  obtain cp where cp: "map_of (dur_cli cl) ?p = Some cp" "primary_ok es k cp (sv ?p)"
    using s by (auto simp: servers_ok_def)
  note f = batch_facts [OF cp(2) le_refl n(2, 1)]
  have dist: "distinct (map fst (dur_cli cl))" and ne: "dur_cli cl \<noteq> []" using s cp(1) by (auto simp: servers_ok_def)
  have "\<exists>ids c1 d c2 st. ProcessFetchedEntries c (?fs @ [end_marker es (k + n)]) [] = Some (of_nat (k + n - 1), ids) \<and>
      FlatCli_DeleteOrderedEntriesAsync c ids = Some (c1, d) \<and> complete_deletion q (net u) d c1 (sv u) = Some (c2, st) \<and> R u c2 st"
    if "(u, c) \<in> set (dur_cli cl)" for u c
  proof (cases "u = ?p")
    case True
    then have "c = cp" using that cp(1) dist by simp
    then show ?thesis
      using collect_primary [OF cp(2) n, of u] True by (auto simp: R_def)
  next
    case False
    then have "backup_ok (bs u) (kb u) c (sv u)" using s that dist by (auto simp: servers_ok_def)
    from collect_backup [OF this f(3, 1), of "end_marker es (k + n)" u] show ?thesis
      using False f(2) by (auto simp: R_def)
  qed
  from collect_all [where net = net and sv = sv and R = R and ?l0.0 = 0, OF dist this]
  obtain rs ds sv' where r: "issue_deletions (dur_cli cl) (?fs @ [end_marker es (k + n)]) 0 = Some (of_nat (k + n - 1), rs)"
    "wait_deletions q net rs sv = Some (ds, sv')" "map fst ds = map fst (dur_cli cl)" "\<forall>u c. (u, c) \<in> set ds \<longrightarrow> R u c (sv' u)"
    using ne by auto
  have keys: "fst ` set ds = fst ` set (dur_cli cl)" using arg_cong [OF r(3), of set] by simp
  have dom: "\<exists>c. (u, c) \<in> set ds" if "u \<in> fst ` set (dur_cli cl)" for u using that keys by force
  have p: "?p \<in> fst ` set (dur_cli cl)" using map_of_SomeD [OF cp(1)] by force
  define kb' where "kb' u = (SOME k'. \<exists>c. (u, c) \<in> set ds \<and> backup_ok (bs u) k' c (sv' u) \<and> kept ?fs (bs u) (kb u) (sv u) k' (sv' u))" for u
  have b: "backup_ok (bs u) (kb' u) c (sv' u) \<and> kept ?fs (bs u) (kb u) (sv u) (kb' u) (sv' u)"
    if "(u, c) \<in> set ds" "u \<noteq> ?p" for u c
  proof -
    have "\<exists>k' c. (u, c) \<in> set ds \<and> backup_ok (bs u) k' c (sv' u) \<and> kept ?fs (bs u) (kb u) (sv u) k' (sv' u)"
      using r(4) [rule_format, OF that(1)] that unfolding R_def by (simp only: if_False) blast
    from someI_ex [OF this] obtain c' where "(u, c') \<in> set ds" "backup_ok (bs u) (kb' u) c' (sv' u)"
      "kept ?fs (bs u) (kb u) (sv u) (kb' u) (sv' u)"
      by (auto simp: kb'_def)
    moreover from this have "c' = c" using that(1) dist r(3) by (metis eq_key_imp_eq_value)
    ultimately show ?thesis by simp
  qed
  obtain c where "(?p, c) \<in> set ds" using dom [OF p] by blast
  then have "map_of ds ?p = Some c" "primary_ok es (k + n) c (sv' ?p)"
    using r(3, 4) dist by (auto simp: R_def)
  then have "servers_ok es (k + n) bs kb' (cl\<lparr>dur_cli := ds\<rparr>) sv'"
    using r(3) dist b by (auto simp: servers_ok_def dest: map_of_SomeD)
  moreover have "backups_kept ?fs bs cl kb sv kb' sv'"
    unfolding backups_kept_def using b dom by blast
  ultimately show ?thesis
    using r(1, 2) keys by (auto simp: collect_def)
qed

text \<open>A round without the pipeline.\<close>

lemma fetchAndStore_ok:
  assumes s: "servers_ok es k bs kb cl sv" and st: "stores es k g (backend cl)"
  shows "\<exists>n cl' sv' kb'. fetchAndStore be q net ts cl sv = Some (0 < n, cl', sv') \<and> k + n \<le> length es \<and>
    (0 < n \<longleftrightarrow> k < length es \<and> (max_fetch_size cl = 0 \<or> esz (es ! k) \<le> unat (max_fetch_size cl))) \<and>
    servers_ok es (k + n) bs kb' cl' sv' \<and> stores es (k + n) (if n = 0 then g else k + n - 1) (backend cl') \<and>
    max_ordered_idx cl' = (if n = 0 then max_ordered_idx cl else of_nat (k + n - 1)) \<and>
    max_fetch_size cl' = max_fetch_size cl \<and> fst ` set (dur_cli cl') = fst ` set (dur_cli cl) \<and> pri_dur_cli cl' = pri_dur_cli cl \<and>
    (if n = 0 then sv' = sv else backups_kept (take n (drop k es)) bs cl kb sv kb' sv')"
proof -
  obtain cp where cp: "primary_ok es k cp (sv (pri_dur_cli cl))" using s by (auto simp: servers_ok_def)
  then have I: "flat_inv (sv (pri_dur_cli cl)) es k" by (simp add: primary_ok_def)
  then have "unat (max (ordered_watermk (sv (pri_dur_cli cl))) 0) = pos es k" using flat_invD(7) [OF I] by simp
  from FetchFromPrimary_ok [OF rdma s le_refl flat_invD(3) [OF I] this, of "[]", unfolded append_Nil]
  obtain n ds where F: "FetchFromPrimary q cl sv [] 0 =
      Some (if n = 0 then (0, [], cl\<lparr>dur_cli := ds\<rparr>)
            else (of_nat (tsz (take n (drop k es))), take n (drop k es) @ [end_marker es (k + n)], cl\<lparr>dur_cli := ds\<rparr>))"
    and n: "k + n \<le> length es" "servers_ok es k bs kb (cl\<lparr>dur_cli := ds\<rparr>) sv" "fst ` set ds = fst ` set (dur_cli cl)"
    "0 < n \<longleftrightarrow> k < length es \<and> (max_fetch_size cl = 0 \<or> esz (es ! k) \<le> unat (max_fetch_size cl))"
    by blast
  show ?thesis
  proof (cases "n = 0")
    case True
    then show ?thesis
      using F n st by (intro exI [of _ n] exI [of _ "cl\<lparr>dur_cli := ds\<rparr>"] exI [of _ sv] exI [of _ kb]) (simp add: fetchAndStore_def)
  next
    case False
    then have n0: "0 < n" by simp
    let ?es = "take n (drop k es) @ [end_marker es (k + n)]"
    note f = batch_facts [OF cp le_refl n(1) n0]
    have l: "length es \<le> 2 ^ 64" using primary_log_ok(1) [OF cp] by (simp add: log_ok_def)
    obtain b1 b2 where b: "be_AppendBatch be (backend cl) ?es = Some (of_nat (k + n - 1), b1)"
      "be_UpdateGlobalIdx be b1 (of_nat (k + n - 1)) = Some b2" "stores es (k + n) (k + n - 1) b2"
      using append_publish [OF st fetched_batchI [OF cp le_refl n(1) n0] l] by blast
    have nz: "(of_nat (tsz (take n (drop k es))) :: u32) \<noteq> 0"
      using f(4, 5) pos_plus [of es k n] by (metis add_diff_cancel_left' less_irrefl unsigned_0)
    define cl1 where "cl1 = cl\<lparr>dur_cli := ds, total_fetch_time := total_fetch_time cl + fst ts,
      total_be_size := total_be_size cl + of_nat (length ?es) - 1, backend := b1, max_ordered_idx := of_nat (k + n - 1),
      total_append_time := total_append_time cl + fst (snd ts), total_be_n := total_be_n cl + 1\<rparr>"
    have "servers_ok es k bs kb cl1 sv" by (rule servers_ok_frame [OF n(2)]) (simp_all add: cl1_def)
    from collect_ok [OF this n0 n(1)] obtain ds' sv' kb' where c:
      "collect q net ?es cl1 sv = Some (of_nat (k + n - 1), cl1\<lparr>dur_cli := ds'\<rparr>, sv')"
      "servers_ok es (k + n) bs kb' (cl1\<lparr>dur_cli := ds'\<rparr>) sv'" "backups_kept (take n (drop k es)) bs cl1 kb sv kb' sv'"
      "fst ` set ds' = fst ` set (dur_cli cl1)"
      by blast
    define cl2 where "cl2 = cl1\<lparr>dur_cli := ds', total_gc_time := total_gc_time cl1 + snd (snd ts), backend := b2\<rparr>"
    have "fetchAndStore be q net ts cl sv = Some (True, cl2, sv')"
      using False F nz b c(1) by (simp add: fetchAndStore_def Let_def cl1_def cl2_def)
    moreover have "servers_ok es (k + n) bs kb' cl2 sv'"
      by (rule servers_ok_frame [OF c(2)]) (simp_all add: cl2_def)
    moreover have "backups_kept (take n (drop k es)) bs cl kb sv kb' sv'"
      using c(3) n(3) by (simp add: backups_kept_def cl1_def)
    ultimately show ?thesis
      using n0 n(1, 3, 4) b(3) c(4) by (intro exI [of _ n] exI [of _ cl2] exI [of _ sv'] exI [of _ kb']) (simp add: cl2_def cl1_def)
  qed
qed

end

text \<open>The loop of the server without the pipeline, \<open>n\<close> rounds of it. It gives the state and how many rounds moved entries.\<close>

fun run_rounds ::
  "nat \<Rightarrow> 'b StorageBackend \<Rightarrow> rdma \<Rightarrow> (string \<Rightarrow> DurabilityLogFlat net) \<Rightarrow> u64 \<times> u64 \<times> u64 \<Rightarrow> 'b ConsensusLog \<Rightarrow>
    (string \<Rightarrow> DurabilityLogFlat) \<Rightarrow> ('b ConsensusLog \<times> (string \<Rightarrow> DurabilityLogFlat)) option" where
  "run_rounds 0 be q net ts cl sv = Some (cl, sv)"
| "run_rounds (Suc n) be q net ts cl sv =
     (case fetchAndStore be q net ts cl sv of None \<Rightarrow> None | Some (_, cl, sv) \<Rightarrow> run_rounds n be q net ts cl sv)"

definition GetNumOrderedEntriesHandler :: "MsgBuffer \<Rightarrow> 'b ConsensusLog \<Rightarrow> MsgBuffer" where
  "GetNumOrderedEntriesHandler resp cl =
     resize_msg_buffer (resp\<lparr>buf := put_le (buf resp) 0 (GetNumOrderedEntries cl)\<rparr>) 8"

context ordering
begin

lemma run_rounds_all:
  assumes "servers_ok es k bs kb cl sv" "stores es k g (backend cl)" "length es - k \<le> n" "0 < k \<longrightarrow> g = k - 1"
    and "max_fetch_size cl = 0 \<or> (\<forall>e\<in>set es. esz e \<le> unat (max_fetch_size cl))"
  shows "\<exists>cl' sv' kb'. run_rounds n be q net ts cl sv = Some (cl', sv') \<and> servers_ok es (length es) bs kb' cl' sv' \<and>
    (es \<noteq> [] \<longrightarrow> stores es (length es) (length es - 1) (backend cl'))"
  using assms
proof (induction n arbitrary: k cl sv kb g)
  case 0
  then have "k \<le> length es" by (auto simp: servers_ok_def primary_ok_def flat_inv_def)
  then have "k = length es" using 0 by simp
  then show ?case using 0 by (intro exI [of _ cl] exI [of _ sv] exI [of _ kb]) (auto simp: neq_Nil_conv)
next
  case (Suc n)
  obtain m cl1 sv1 kb1 where r: "fetchAndStore be q net ts cl sv = Some (0 < m, cl1, sv1)" "k + m \<le> length es"
    "0 < m \<longleftrightarrow> k < length es \<and> (max_fetch_size cl = 0 \<or> esz (es ! k) \<le> unat (max_fetch_size cl))"
    "servers_ok es (k + m) bs kb1 cl1 sv1" "stores es (k + m) (if m = 0 then g else k + m - 1) (backend cl1)"
    "max_fetch_size cl1 = max_fetch_size cl"
    using fetchAndStore_ok [OF Suc.prems(1, 2)] by blast
  have "k < length es \<longrightarrow> 0 < m" using r(3) Suc.prems(5) by auto
  then have "length es - (k + m) \<le> n" using Suc.prems(3) by auto
  moreover have "0 < k + m \<longrightarrow> (if m = 0 then g else k + m - 1) = k + m - 1" using Suc.prems(4) by auto
  ultimately show ?case
    using Suc.IH [OF r(4, 5)] Suc.prems(5) r(1, 6) by auto
qed

end

context shard_cluster
begin

lemma cluster_backend:
  "log_backend (be_AppendBatch (NaiveBackend_methods net)) (be_ReadEntry (NaiveBackend_methods net))
    (be_UpdateGlobalIdx (NaiveBackend_methods net)) cluster_stores"
  using nb.log_backend_axioms by (simp add: NaiveBackend_methods_def)

end

lemma ordering_cluster:
  assumes "shard_cluster snet bnet r0 r1" "rdma_ok q" "\<And>u. serves (net u) DEL_ORDERED_ENTRIES (DeleteOrderedEntriesHandler resp0)"
  shows "ordering (NaiveBackend_methods snet) cluster_stores q net resp0"
  unfolding ordering_def ordering_axioms_def using shard_cluster.cluster_backend [OF assms(1)] assms(2, 3) by simp

interpretation sys: ordering "NaiveBackend_methods loopback_shards" cluster_stores copy_rdma
  "\<lambda>u t. DeleteOrderedEntriesHandler empty_msg" empty_msg
  by (rule ordering_cluster [OF loop.shard_cluster_axioms copy_rdma_ok serves_self])

text \<open>C2. One round of the consensus log, from the primary durability server to the shards. If the backend holds the first
  \<open>k\<close> entries of the primary and these are collected, then a round returns, stores the next \<open>n\<close> entries on their shards
  and the backups of these, in the order of the primary, moves the watermarks of the primary past exactly these entries,
  and lets readers see the log up to the last of them. It moves at least one entry unless there is none or the first one
  is larger than the limit of a fetch, and then it changes nothing.\<close>

theorem fetchAndStore_round:
  assumes net: "shard_cluster snet bnet r0 r1" "rdma_ok q" "\<And>u. serves (net u) DEL_ORDERED_ENTRIES (DeleteOrderedEntriesHandler resp0)"
    and s: "servers_ok es k bs kb cl sv" "cluster_stores es k g (backend cl)"
  shows "\<exists>n cl' sv' kb'. fetchAndStore (NaiveBackend_methods snet) q net ts cl sv = Some (0 < n, cl', sv') \<and> k + n \<le> length es \<and>
    (0 < n \<longleftrightarrow> k < length es \<and> (max_fetch_size cl = 0 \<or> esz (es ! k) \<le> unat (max_fetch_size cl))) \<and>
    servers_ok es (k + n) bs kb' cl' sv' \<and> cluster_stores es (k + n) (if n = 0 then g else k + n - 1) (backend cl') \<and>
    max_ordered_idx cl' = (if n = 0 then max_ordered_idx cl else of_nat (k + n - 1))"
  using ordering.fetchAndStore_ok [OF ordering_cluster [where net = net, OF net] s, where ts = ts] by blast

text \<open>C4. No loss. Assume that clients are sequential: an entry that a backup holds, with the same client as an entry of the
  primary and no larger number, is in the log of the primary up to there. Then after a round every entry that a backup held
  is still held by it, or is stored by the backend under an index that readers may see. The exception are the entries
  with number 0, the first of each client.\<close>

theorem fetchAndStore_no_loss:
  assumes net: "shard_cluster snet bnet r0 r1" "rdma_ok q" "\<And>u. serves (net u) DEL_ORDERED_ENTRIES (DeleteOrderedEntriesHandler resp0)"
    and s: "servers_ok es k bs kb cl sv" "cluster_stores es k g (backend cl)"
    and u: "u \<in> fst ` set (dur_cli cl)" "u \<noteq> pri_dur_cli cl"
    and e: "e \<in> set (pending_entries (sv u) @ drop (kb u) (bs u))" "client_seq e \<noteq> 0"
    and seq: "\<And>i. i < length es \<Longrightarrow> client_id (es ! i) = client_id e \<Longrightarrow> client_seq e \<le> client_seq (es ! i) \<Longrightarrow>
      \<exists>j\<le>i. reqid (es ! j) = reqid e"
  shows "\<exists>r cl' sv'. fetchAndStore (NaiveBackend_methods snet) q net ts cl sv = Some (r, cl', sv') \<and>
    ((\<exists>kb'. e \<in> set (pending_entries (sv' u) @ drop kb' (bs u)) \<and> flat_inv (sv' u) (bs u) kb') \<or>
     (\<exists>j b'. reqid (es ! j) = reqid e \<and>
       be_ReadEntry (NaiveBackend_methods snet) (backend cl') (of_nat j) d = Some (True, es ! j, b')))"
proof -
  note o = ordering_cluster [where net = net, OF net]
  obtain n cl' sv' kb' where r: "fetchAndStore (NaiveBackend_methods snet) q net ts cl sv = Some (0 < n, cl', sv')" "k + n \<le> length es"
    "servers_ok es (k + n) bs kb' cl' sv'" "cluster_stores es (k + n) (if n = 0 then g else k + n - 1) (backend cl')"
    "if n = 0 then sv' = sv else backups_kept (take n (drop k es)) bs cl kb sv kb' sv'"
    "fst ` set (dur_cli cl') = fst ` set (dur_cli cl)" "pri_dur_cli cl' = pri_dur_cli cl"
    using ordering.fetchAndStore_ok [OF o s, where ts = ts] by blast
  show ?thesis
  proof (cases "\<exists>kb'. e \<in> set (pending_entries (sv' u) @ drop kb' (bs u)) \<and> flat_inv (sv' u) (bs u) kb'")
    case True
    then show ?thesis using r(1) by blast
  next
    case False
    obtain c where c: "(u, c) \<in> set (dur_cli cl)" "backup_ok (bs u) (kb u) c (sv u)"
      using s(1) u by (auto simp: servers_ok_def)
    then have "0 < n" using r(5) False e(1) by (cases "n = 0") (auto simp: backup_ok_def)
    moreover obtain c' where "(u, c') \<in> set (dur_cli cl')" using u(1) r(6) by force
    then have "flat_inv (sv' u) (bs u) (kb' u)"
      using r(3, 7) u(2) by (auto simp: servers_ok_def backup_ok_def)
    moreover from calculation have "kept (take n (drop k es)) (bs u) (kb u) (sv u) (kb' u) (sv' u)"
      using r(5) u by (auto simp: backups_kept_def)
    ultimately obtain f where f: "f \<in> set (take n (drop k es))" "client_id f = client_id e" "client_seq e \<le> client_seq f"
      using False e unfolding kept_def by blast
    then obtain i where i: "i < n" "f = es ! (k + i)" using r(2) by (auto simp: in_set_conv_nth)
    then obtain j where "j \<le> k + i" "reqid (es ! j) = reqid e"
      using seq [of "k + i"] f r(2) by auto
    with i(1) have j: "j < k + n" "j \<le> k + n - 1" "reqid (es ! j) = reqid e" by simp_all
    have "length es < 2 ^ 64" using s(2) by (simp add: cluster_stores_def log_ok_def)
    then have "unat (of_nat j :: u64) = j" using j(1) r(2) by (intro unat_of_nat_small) simp
    then show ?thesis
      using log_backend.read_stores [OF ordering.axioms(1) [OF o] r(4), of "of_nat j" d] j \<open>0 < n\<close> r(1) by auto
  qed
qed

text \<open>C11. Every entry is ordered. With the entries of the primary no larger than the limit of a fetch, at most as many rounds as
  there are unordered entries store all of them and let readers see all of them.\<close>

theorem run_rounds_drain:
  assumes net: "shard_cluster snet bnet r0 r1" "rdma_ok q" "\<And>u. serves (net u) DEL_ORDERED_ENTRIES (DeleteOrderedEntriesHandler resp0)"
    and s: "servers_ok es k bs kb cl sv" "cluster_stores es k g (backend cl)" and n: "length es - k \<le> n" and g: "0 < k \<longrightarrow> g = k - 1"
    and mx: "max_fetch_size cl = 0 \<or> (\<forall>e\<in>set es. esz e \<le> unat (max_fetch_size cl))"
  shows "\<exists>cl' sv' kb'. run_rounds n (NaiveBackend_methods snet) q net ts cl sv = Some (cl', sv') \<and>
    servers_ok es (length es) bs kb' cl' sv' \<and> (es \<noteq> [] \<longrightarrow> cluster_stores es (length es) (length es - 1) (backend cl'))"
  by (rule ordering.run_rounds_all [OF ordering_cluster [where net = net, OF net] s n g mx])

text \<open>\<^verbatim>\<open>GetNumOrderedEntries\<close> does not count the ordered entries: after a round that has stored the first \<open>m\<close> entries it
  returns \<open>m - 2\<close>, and \<open>2 ^ 64 - 1\<close> after a round that has stored one entry.\<close>

theorem GetNumOrderedEntries_off:
  assumes net: "shard_cluster snet bnet r0 r1" "rdma_ok q" "\<And>u. serves (net u) DEL_ORDERED_ENTRIES (DeleteOrderedEntriesHandler resp0)"
    and s: "servers_ok es k bs kb cl sv" "cluster_stores es k g (backend cl)"
    and r: "fetchAndStore (NaiveBackend_methods snet) q net ts cl sv = Some (True, cl', sv')"
  shows "\<exists>m. cluster_stores es m (m - 1) (backend cl') \<and> k < m \<and> GetNumOrderedEntries cl' = of_nat m - 2"
proof -
  obtain n where n: "0 < n" "cluster_stores es (k + n) (k + n - 1) (backend cl')" "max_ordered_idx cl' = of_nat (k + n - 1)"
    using ordering.fetchAndStore_ok [OF ordering_cluster [where net = net, OF net] s, where ts = ts] r by auto
  then have "GetNumOrderedEntries cl' = of_nat (k + n) - 2"
    by (simp add: GetNumOrderedEntries_def of_nat_diff)
  then show ?thesis using n(1, 2) by (intro exI [of _ "k + n"]) simp
qed

section \<open>Witnesses\<close>

definition sample_cl :: "(NaiveBackend \<times> (int \<Rightarrow> ShardServer \<times> (ShardClient \<times> ShardServer) list)) ConsensusLog" where
  "sample_cl = (ConsensusLog_new (fresh_backend 3 2, fresh_cluster 3 2))
     \<lparr>pri_dur_cli := ''p'', dur_cli := [(''p'', sample_cli True 1048576), (''b'', sample_cli False 1048576)], cl_is_primary := True\<rparr>"

abbreviation sample_log :: "LogEntry list" where
  "sample_log \<equiv> map sample_entry [0..<3]"

lemma sample_system:
  "\<exists>sv. servers_ok sample_log 0 (\<lambda>_. sample_log) (\<lambda>_. 0) sample_cl sv \<and> pending_entries (sv ''b'') = []"
proof -
  obtain p b where p: "flat_inv p sample_log 0" "is_primary p" "rg_size p = 1048576" "wait p"
    and b: "flat_inv b sample_log 0" "\<not> is_primary b" "rg_size b = 1048576" "pending_entries b = []" "wait b"
    using running_log [of 1048576 3 True] running_log [of 1048576 3 False] by auto
  have "primary_ok sample_log 0 (sample_cli True 1048576) p" "backup_ok sample_log 0 (sample_cli False 1048576) b"
    using p b by (simp_all add: primary_ok_def backup_ok_def)
  then have "servers_ok sample_log 0 (\<lambda>_. sample_log) (\<lambda>_. 0) sample_cl (\<lambda>u. if u = ''p'' then p else b)"
    by (auto simp: servers_ok_def sample_cl_def ConsensusLog_new_def)
  then show ?thesis using b(4) by (intro exI [of _ "\<lambda>u. if u = ''p'' then p else b"]) simp
qed

lemma sample_stores: "cluster_stores sample_log 0 0 (backend sample_cl)"
proof -
  have "nb_ok 3 2 (fresh_backend 3 2)" "cluster_holds 3 2 sample_log 0 (fresh_cluster 3 2)"
    by (rule fresh_cluster_ok; simp)+
  moreover have "log_ok sample_log"
    by (auto simp: log_ok_def sample_entry_def wf_entry_def valid_def LogEntry_new_def)
  ultimately have "cluster_stores sample_log 0 0 (fresh_backend 3 2, fresh_cluster 3 2)"
    by (intro cluster_storesI [where N = 3 and U = 2]) (simp_all add: fresh_cluster_def)
  then show ?thesis by (simp add: sample_cl_def ConsensusLog_new_def)
qed

lemmas sample_net = loop.shard_cluster_axioms copy_rdma_ok serves_self [of "DeleteOrderedEntriesHandler empty_msg"]

abbreviation sample_round where
  "sample_round \<equiv> fetchAndStore (NaiveBackend_methods loopback_shards) copy_rdma (\<lambda>u t. DeleteOrderedEntriesHandler empty_msg) (1, 2, 3)"

theorem fetchAndStore_round_witness:
  "\<exists>sv cl' sv' n. sample_round sample_cl sv = Some (True, cl', sv') \<and> 0 < n \<and> cluster_stores sample_log n (n - 1) (backend cl')"
proof -
  obtain sv where sv: "servers_ok sample_log 0 (\<lambda>_. sample_log) (\<lambda>_. 0) sample_cl sv" using sample_system by blast
  from fetchAndStore_round [OF sample_net sv sample_stores, where ts = "(1, 2, 3)"]
  obtain n cl' sv' where "sample_round sample_cl sv = Some (0 < n, cl', sv')" "0 < n"
    "cluster_stores sample_log n (if n = 0 then 0 else n - 1) (backend cl')"
    by (auto simp: sample_cl_def ConsensusLog_new_def)
  then show ?thesis by (intro exI [of _ sv] exI [of _ cl'] exI [of _ sv'] exI [of _ n]) simp
qed

theorem fetchAndStore_no_loss_witness:
  "\<exists>sv r cl' sv'. sample_round sample_cl sv = Some (r, cl', sv') \<and>
    ((\<exists>kb'. sample_entry 1 \<in> set (pending_entries (sv' ''b'') @ drop kb' sample_log)) \<or>
     (\<exists>j b'. reqid (sample_log ! j) = reqid (sample_entry 1) \<and>
       be_ReadEntry (NaiveBackend_methods loopback_shards) (backend cl') (of_nat j) LogEntry_new = Some (True, sample_log ! j, b')))"
proof -
  obtain sv where sv: "servers_ok sample_log 0 (\<lambda>_. sample_log) (\<lambda>_. 0) sample_cl sv" using sample_system by blast
  have l: "sample_log = [sample_entry 0, sample_entry 1, sample_entry 2]" by (simp add: upt_rec numeral_2_eq_2)
  have e: "sample_entry 1 \<in> set (pending_entries (sv ''b'') @ drop 0 sample_log)" "client_seq (sample_entry 1) \<noteq> 0"
    by (simp, simp add: sample_entry_def)
  have u: "''b'' \<in> fst ` set (dur_cli sample_cl)" "''b'' \<noteq> pri_dur_cli sample_cl"
    by (simp_all add: sample_cl_def ConsensusLog_new_def)
  have "\<exists>j\<le>i. reqid (sample_log ! j) = reqid (sample_entry 1)"
    if "i < length sample_log" "client_seq (sample_entry 1) \<le> client_seq (sample_log ! i)" for i
  proof -
    have "i \<noteq> 0"
    proof
      assume "i = 0"
      then show False using that(2) by (simp add: sample_entry_def)
    qed
    then show ?thesis using l by (intro exI [of _ 1]) simp
  qed
  from fetchAndStore_no_loss [OF sample_net sv sample_stores u e this, where ts = "(1, 2, 3)" and d = LogEntry_new]
  show ?thesis by blast
qed

theorem run_rounds_drain_witness:
  "\<exists>sv cl' sv'. run_rounds 3 (NaiveBackend_methods loopback_shards) copy_rdma (\<lambda>u t. DeleteOrderedEntriesHandler empty_msg) (1, 2, 3) sample_cl sv = Some (cl', sv') \<and>
    cluster_stores sample_log 3 2 (backend cl')"
proof -
  obtain sv where sv: "servers_ok sample_log 0 (\<lambda>_. sample_log) (\<lambda>_. 0) sample_cl sv" using sample_system by blast
  from run_rounds_drain [OF sample_net sv sample_stores, of 3 "(1, 2, 3)"] show ?thesis
    by (auto simp: sample_cl_def ConsensusLog_new_def)
qed

theorem GetNumOrderedEntries_off_witness:
  "\<exists>sv cl' sv' m. sample_round sample_cl sv = Some (True, cl', sv') \<and> 0 < m \<and> GetNumOrderedEntries cl' = of_nat m - 2 \<and>
    cluster_stores sample_log m (m - 1) (backend cl')"
proof -
  obtain sv where sv: "servers_ok sample_log 0 (\<lambda>_. sample_log) (\<lambda>_. 0) sample_cl sv" using sample_system by blast
  from sys.fetchAndStore_ok [OF sv sample_stores, where ts = "(1, 2, 3)"]
  obtain n :: nat and cl' sv' where r: "sample_round sample_cl sv = Some (0 < n, cl', sv')"
    "0 < n \<longleftrightarrow> 0 < length sample_log \<and> (max_fetch_size sample_cl = 0 \<or> esz (sample_log ! 0) \<le> unat (max_fetch_size sample_cl))"
    by blast
  then have "0 < n" by (simp add: sample_cl_def ConsensusLog_new_def)
  then have "sample_round sample_cl sv = Some (True, cl', sv')" using r(1) by simp
  with GetNumOrderedEntries_off [OF sample_net sv sample_stores this] show ?thesis by blast
qed

end
