(* ===== verification/Kafka.thy ===== *)
theory Kafka
  imports Cons_Log
begin

text \<open>
  The storage backend that writes the log to Kafka, from \<^verbatim>\<open>src/src/cons_log/storage/kafka_backend.cc\<close>. The producer of
  the Kafka library is not part of the repository: its state is a type variable, and \<^verbatim>\<open>produce\<close> and \<^verbatim>\<open>flush\<close> are parameters
  of the model. \<open>None\<close> is undefined behaviour of the source: an empty batch, a division by zero, or an entry that does not fit
  the buffer of the backend.
\<close>

section \<open>The model\<close>

record KafkaBackend =
  kb_shard_num :: int
  kb_stripe_unit_size :: u64
  kb_topic :: string
  kb_buf :: mem

definition KafkaBackend_InitializeBackend :: "Properties \<Rightarrow> KafkaBackend \<Rightarrow> exn + KafkaBackend" where
  "KafkaBackend_InitializeBackend p kb =
     (let kb = kb\<lparr>kb_topic := GetProperty p ''kafka.topic'' ''default-topic''\<rparr>
      in case stoi (GetProperty p ''shard.num'' ''1'') of
           Inl x \<Rightarrow> Inl x
         | Inr n \<Rightarrow>
             (case stoi (GetProperty p ''shard.stripe_unit_size'' ''100000'') of
                Inl x \<Rightarrow> Inl x
              | Inr su \<Rightarrow> Inr (kb\<lparr>kb_shard_num := n, kb_stripe_unit_size := of_int su\<rparr>)))"

fun KafkaBackend_AppendBatch_loop ::
  "('k \<Rightarrow> string \<Rightarrow> int \<Rightarrow> byte list \<Rightarrow> 'k) \<Rightarrow> ('k \<Rightarrow> 'k) \<Rightarrow> LogEntry list \<Rightarrow> u64 \<Rightarrow> KafkaBackend \<Rightarrow> 'k \<Rightarrow>
    (KafkaBackend \<times> 'k) option" where
  "KafkaBackend_AppendBatch_loop produce flush [] stripe_count kb k = Some (kb, k)"
| "KafkaBackend_AppendBatch_loop produce flush (e # es) stripe_count kb k =
     (if kb_shard_num kb = 0 \<or> 8192 < esz e then None
      else let shard_id = int_of_u64 (log_idx e mod of_int (kb_shard_num kb));
               (m, len) = Serializer e (kb_buf kb) 0;
               k = produce k (kb_topic kb) shard_id (bytes_at m 0 (unat len));
               stripe_count = stripe_count + 1;
               kb = kb\<lparr>kb_buf := m\<rparr>
           in if kb_stripe_unit_size kb * of_int (kb_shard_num kb) \<le> stripe_count
              then KafkaBackend_AppendBatch_loop produce flush es 0 kb (flush k)
              else KafkaBackend_AppendBatch_loop produce flush es stripe_count kb k)"

definition KafkaBackend_AppendBatch ::
  "('k \<Rightarrow> string \<Rightarrow> int \<Rightarrow> byte list \<Rightarrow> 'k) \<Rightarrow> ('k \<Rightarrow> 'k) \<Rightarrow> KafkaBackend \<times> 'k \<Rightarrow> LogEntry list \<Rightarrow>
    (u64 \<times> KafkaBackend \<times> 'k) option" where
  "KafkaBackend_AppendBatch produce flush b es =
     (if es = [] then None
      else let last_idx = (if 1 < length es \<and> log_idx (last es) = 0 then length es - 2 else length es - 1)
           in case KafkaBackend_AppendBatch_loop produce flush (take last_idx es) 0 (fst b) (snd b) of
                None \<Rightarrow> None
              | Some (kb, k) \<Rightarrow> Some (log_idx (es ! last_idx), kb, flush k))"

definition KafkaBackend_methods ::
  "('k \<Rightarrow> string \<Rightarrow> int \<Rightarrow> byte list \<Rightarrow> 'k) \<Rightarrow> ('k \<Rightarrow> 'k) \<Rightarrow> (KafkaBackend \<times> 'k) StorageBackend" where
  "KafkaBackend_methods produce flush =
     \<lparr>be_AppendBatch = KafkaBackend_AppendBatch produce flush,
      be_ReadEntry = (\<lambda>b idx e. Some (False, e, b)),
      be_UpdateGlobalIdx = (\<lambda>b idx. Some b)\<rparr>"

section \<open>What is produced\<close>

text \<open>A producer that keeps the messages it is given.\<close>

definition record_produce :: "(string \<times> int \<times> byte list) list \<Rightarrow> string \<Rightarrow> int \<Rightarrow> byte list \<Rightarrow> (string \<times> int \<times> byte list) list" where
  "record_produce k topic part payload = k @ [(topic, part, payload)]"

definition kafka_message :: "string \<Rightarrow> nat \<Rightarrow> LogEntry \<Rightarrow> string \<times> int \<times> byte list \<Rightarrow> bool" where
  "kafka_message topic N e msg \<longleftrightarrow> fst msg = topic \<and> fst (snd msg) = int (unat (log_idx e) mod N) \<and>
     length (snd (snd msg)) = esz e \<and> entry_at (mapped (snd (snd msg))) 0 e"

lemma KafkaBackend_loop_sends:
  assumes "kb_shard_num kb = int N" "0 < N" "N < 2 ^ 31" "list_all (\<lambda>e. wf_entry e \<and> esz e \<le> 8192) es"
  shows "\<exists>kb' ms. KafkaBackend_AppendBatch_loop record_produce (\<lambda>k. k) es n kb k = Some (kb', k @ ms) \<and>
    list_all2 (kafka_message (kb_topic kb) N) es ms"
  using assms
proof (induction es arbitrary: n kb k)
  case (Cons e es)
  obtain m len where s: "Serializer e (kb_buf kb) 0 = (m, len)" by fastforce
  have e: "wf_entry e" "esz e \<le> 8192" using Cons.prems(4) by simp_all
  have len: "unat len = esz e" using ew.put_size [OF e(1), of "kb_buf kb" 0] s by simp
  have "entry_at m 0 e" using entry_at_Serializer [of e "kb_buf kb" 0] s by simp
  then have "entry_at (mapped (bytes_at m 0 (esz e))) 0 e" by (rule entry_at_shift) (simp add: bytes_at_def)
  then have msg: "kafka_message (kb_topic kb) N e (kb_topic kb, int (unat (log_idx e) mod N), bytes_at m 0 (unat len))"
    by (simp add: kafka_message_def len)
  let ?kb = "kb\<lparr>kb_buf := m\<rparr>" and ?k = "k @ [(kb_topic kb, int (unat (log_idx e) mod N), bytes_at m 0 (unat len))]"
  define n' where "n' = (if kb_stripe_unit_size kb * of_int (kb_shard_num kb) \<le> n + 1 then 0 else n + 1)"
  have "KafkaBackend_AppendBatch_loop record_produce (\<lambda>k. k) (e # es) n kb k =
      KafkaBackend_AppendBatch_loop record_produce (\<lambda>k. k) es n' ?kb ?k"
    using s e(2) Cons.prems(1-3) shard_of_idx(2) [of N "log_idx e"] by (simp add: Let_def n'_def record_produce_def)
  moreover obtain kb' ms where "KafkaBackend_AppendBatch_loop record_produce (\<lambda>k. k) es n' ?kb ?k = Some (kb', ?k @ ms)"
    "list_all2 (kafka_message (kb_topic kb) N) es ms"
    using Cons.IH [of ?kb n' ?k] Cons.prems by auto
  ultimately show ?case using msg
    by (intro exI [of _ kb'] exI [of _ "(kb_topic kb, int (unat (log_idx e) mod N), bytes_at m 0 (unat len)) # ms"]) simp
qed simp

text \<open>C31. The last entry of every batch is lost. For a batch with the last entry \<open>x\<close>, with or without the record of the end position
  behind it, \<^verbatim>\<open>AppendBatch\<close> gives the entries before \<open>x\<close> to the producer, in order and each to the partition of its shard, and
  reports the index of \<open>x\<close> as stored; \<open>x\<close> itself is never produced.\<close>

theorem KafkaBackend_AppendBatch_drops_last:
  assumes kb: "kb_shard_num kb = int N" "0 < N" "N < 2 ^ 31" and xs: "list_all (\<lambda>e. wf_entry e \<and> esz e \<le> 8192) xs"
    and es: "es = xs @ [x] \<and> (xs = [] \<or> log_idx x \<noteq> 0) \<or> es = xs @ [x, y] \<and> log_idx y = 0"
  shows "\<exists>kb' ms. KafkaBackend_AppendBatch record_produce (\<lambda>k. k) (kb, []) es = Some (log_idx x, kb', ms) \<and>
    list_all2 (kafka_message (kb_topic kb) N) xs ms"
proof -
  obtain kb' ms where l: "KafkaBackend_AppendBatch_loop record_produce (\<lambda>k. k) xs 0 kb [] = Some (kb', ms)"
    "list_all2 (kafka_message (kb_topic kb) N) xs ms"
    using KafkaBackend_loop_sends [OF kb xs, of 0 "[]"] by auto
  have "KafkaBackend_AppendBatch record_produce (\<lambda>k. k) (kb, []) es = Some (log_idx x, kb', ms)"
    using es l(1) by (auto simp: KafkaBackend_AppendBatch_def nth_append)
  then show ?thesis using l(2) by blast
qed

theorem KafkaBackend_AppendBatch_drops_last_witness:
  "\<exists>kb' ms. KafkaBackend_AppendBatch record_produce (\<lambda>k. k)
      (\<lparr>kb_shard_num = 2, kb_stripe_unit_size = 1, kb_topic = ''log'', kb_buf = (\<lambda>_. 0)\<rparr>, []) (plain_log 3) = Some (2, kb', ms) \<and>
    length ms = 2"
proof -
  let ?kb = "\<lparr>kb_shard_num = 2, kb_stripe_unit_size = 1, kb_topic = ''log'', kb_buf = (\<lambda>_. 0 :: byte)\<rparr>"
  have "plain_log 3 = plain_log 2 @ [plain_entry 2]" by (simp add: plain_log_def upt_rec numeral_2_eq_2)
  moreover have "list_all (\<lambda>e. wf_entry e \<and> esz e \<le> 8192) (plain_log 2)" by (simp add: plain_log_def list_all_iff)
  moreover note KafkaBackend_AppendBatch_drops_last [of ?kb 2 "plain_log 2" "plain_log 3" "plain_entry 2"]
  ultimately
  obtain kb' ms where "KafkaBackend_AppendBatch record_produce (\<lambda>k. k) (?kb, []) (plain_log 3) = Some (2, kb', ms)"
    "list_all2 (kafka_message ''log'' 2) (plain_log 2) ms" by auto
  then show ?thesis by (auto dest: list_all2_lengthD)
qed

end
