(* ===== verification/Pipeline.thy ===== *)
theory Pipeline
  imports Cons_Log
begin

text \<open>
  The pipelined consensus log (\<^verbatim>\<open>fetch\<close> and \<^verbatim>\<open>store\<close> of \<^verbatim>\<open>src/src/cons_log/cons_log.cc\<close>, run by two threads of
  \<^verbatim>\<open>src/src/cons_log/erpc_cl_transport.cc\<close>) as a step relation, together with the clients that append to
  the durability servers at any time. The fetch thread holds the lock of its buffer during a whole call, so a
  call is one step. A call of the store thread is four steps: it stores the batch, has it collected, releases the
  buffer, and publishes the last index; the other steps may come in between. The invariant describes the two buffers as
  a queue of batches: consecutive parts of the log of the primary.
\<close>

section \<open>The model\<close>

datatype store_pc = SIdle | SAppended | SCollected u64 | SReleased u64

record 'b PipeSys =
  p_cl :: "'b ConsensusLog"
  p_sv :: "string \<Rightarrow> DurabilityLogFlat"
  p_pc :: store_pc

inductive pipe_step ::
  "'b StorageBackend \<Rightarrow> rdma \<Rightarrow> (string \<Rightarrow> DurabilityLogFlat net) \<Rightarrow> 'b PipeSys \<Rightarrow> 'b PipeSys \<Rightarrow> bool"
  for be q net where
  client_append: "AppendEntry (p_sv \<sigma> u) e = Some (sq, e', st) \<Longrightarrow> u \<in> fst ` set (dur_cli (p_cl \<sigma>)) \<Longrightarrow> wf_entry e \<Longrightarrow>
    esz e \<le> unat SAFE_RG_SIZE \<Longrightarrow> unat (sequencer (p_sv \<sigma> u)) + esz e + 2 ^ 32 \<le> 2 ^ 64 \<Longrightarrow>
    pipe_step be q net \<sigma> (\<sigma>\<lparr>p_sv := (p_sv \<sigma>)(u := st)\<rparr>)"
| fetching: "fetch q t (p_sv \<sigma>) (p_cl \<sigma>) = Some cl \<Longrightarrow> pipe_step be q net \<sigma> (\<sigma>\<lparr>p_cl := cl\<rparr>)"
| storing: "p_pc \<sigma> = SIdle \<Longrightarrow> store_append be t (p_cl \<sigma>) = Some cl \<Longrightarrow>
    pipe_step be q net \<sigma> (\<sigma>\<lparr>p_cl := cl, p_pc := SAppended\<rparr>)"
| collecting: "p_pc \<sigma> = SAppended \<Longrightarrow> store_collect q net t (p_cl \<sigma>) (p_sv \<sigma>) = Some (l, cl, sv) \<Longrightarrow>
    pipe_step be q net \<sigma> (\<sigma>\<lparr>p_cl := cl, p_sv := sv, p_pc := SCollected l\<rparr>)"
| releasing: "p_pc \<sigma> = SCollected l \<Longrightarrow>
    pipe_step be q net \<sigma> (\<sigma>\<lparr>p_cl := store_release (p_cl \<sigma>), p_pc := SReleased l\<rparr>)"
| publishing: "p_pc \<sigma> = SReleased l \<Longrightarrow> store_publish be l (p_cl \<sigma>) = Some cl \<Longrightarrow>
    pipe_step be q net \<sigma> (\<sigma>\<lparr>p_cl := cl, p_pc := SIdle\<rparr>)"

inductive_cases pipe_stepE: "pipe_step be q net \<sigma> \<sigma>'"

abbreviation pipe_reach where
  "pipe_reach be q net \<equiv> (pipe_step be q net)\<^sup>*\<^sup>*"

section \<open>Appending during a round\<close>

lemma AppendEntry_Some:
  assumes inv: "flat_inv st es k" and e: "wf_entry e" "esz e \<le> unat SAFE_RG_SIZE" "tsz es + esz e < 2 ^ 64"
    and rg: "262144 \<le> unat (rg_size st)" "wait st" and app: "AppendEntry st e = Some (sq, e', st')"
  shows "flat_inv st' (es @ [e'\<lparr>flags := 1\<rparr>]) k" "tsz (es @ [e'\<lparr>flags := 1\<rparr>]) = tsz es + esz e"
    "tsz (es @ [e'\<lparr>flags := 1\<rparr>]) - pos es k < unat (rg_size st)"
    "is_primary st' = is_primary st" "rg_size st' = rg_size st" "wait st' = wait st"
proof -
  have nw: "\<not> waitForPlace_waits st (GetSize e)"
    using app by (auto simp: AppendEntry_def split: if_splits)
  note ok = AppendEntry_ok [OF inv e nw]
  have st': "e' = e\<lparr>log_idx := of_nat (length es), view := dl_view st\<rparr>" "st' = append_state st (e'\<lparr>flags := 1\<rparr>)"
    using ok(1) app by auto
  show "flat_inv st' (es @ [e'\<lparr>flags := 1\<rparr>]) k" using ok(2) st' by simp
  show sz: "tsz (es @ [e'\<lparr>flags := 1\<rparr>]) = tsz es + esz e" by (simp add: st'(1) esz_def)
  show "tsz (es @ [e'\<lparr>flags := 1\<rparr>]) - pos es k < unat (rg_size st)"
    using waits_iff [OF inv e(1, 3) rg(1)] nw rg(2) unfolding sz by linarith
  show "is_primary st' = is_primary st" "rg_size st' = rg_size st" "wait st' = wait st"
    by (simp_all add: st'(2) append_state_def Let_def)
qed

lemma primary_ok_append:
  assumes p: "primary_ok es k c st" and e: "wf_entry e" "esz e \<le> unat SAFE_RG_SIZE" "tsz es + esz e + 2 ^ 32 \<le> 2 ^ 64"
    and app: "AppendEntry st e = Some (sq, e', st')"
  shows "primary_ok (es @ [e'\<lparr>flags := 1\<rparr>]) k c st'"
proof -
  have P: "flat_inv st es k" "262144 \<le> unat (rg_size st)" "wait st" using p by (simp_all add: primary_ok_def)
  have "tsz es + esz e < 2 ^ 64" using e(3) by simp
  note a = AppendEntry_Some [OF P(1) e(1, 2) this P(2, 3) app]
  have "pos (es @ [e'\<lparr>flags := 1\<rparr>]) k = pos es k" using flat_invD(3) [OF P(1)] by simp
  then show ?thesis
    using p a e(3) unfolding primary_ok_def connected_def a(2) by simp
qed

lemma backup_ok_append:
  assumes b: "backup_ok bs k c st" and e: "wf_entry e" "esz e \<le> unat SAFE_RG_SIZE" "tsz bs + esz e < 2 ^ 64"
    and app: "AppendEntry st e = Some (sq, e', st')"
  shows "backup_ok (bs @ [e'\<lparr>flags := 1\<rparr>]) k c st'"
proof -
  have B: "flat_inv st bs k" "262144 \<le> unat (rg_size st)" "wait st" using b by (simp_all add: backup_ok_def)
  note a = AppendEntry_Some [OF B(1) e B(2, 3) app]
  have "pos (bs @ [e'\<lparr>flags := 1\<rparr>]) k = pos bs k" using flat_invD(3) [OF B(1)] by simp
  then show ?thesis
    using b a unfolding backup_ok_def a(2) by simp
qed

lemma servers_ok_append:
  assumes s: "servers_ok es k bs kb cl sv" and u: "u \<in> fst ` set (dur_cli cl)"
    and e: "wf_entry e" "esz e \<le> unat SAFE_RG_SIZE" "unat (sequencer (sv u)) + esz e + 2 ^ 32 \<le> 2 ^ 64"
    and app: "AppendEntry (sv u) e = Some (sq, e', st)"
  shows "\<exists>xs bs'. servers_ok (es @ xs) k bs' kb cl (sv(u := st))"
proof (cases "u = pri_dur_cli cl")
  case True
  obtain c where c: "map_of (dur_cli cl) u = Some c" "primary_ok es k c (sv u)" using s True by (auto simp: servers_ok_def)
  have "unat (sequencer (sv u)) = tsz es" using c(2) flat_invD(5) [of "sv u" es k] by (simp add: primary_ok_def)
  then have "primary_ok (es @ [e'\<lparr>flags := 1\<rparr>]) k c st" using primary_ok_append [OF c(2) e(1, 2) _ app] e(3) by simp
  then have "servers_ok (es @ [e'\<lparr>flags := 1\<rparr>]) k bs kb cl (sv(u := st))"
    using s c(1) True by (auto simp: servers_ok_def)
  then show ?thesis by blast
next
  case False
  obtain c where c: "map_of (dur_cli cl) u = Some c" "backup_ok (bs u) (kb u) c (sv u)" using s u False by (auto simp: servers_ok_def)
  have "unat (sequencer (sv u)) = tsz (bs u)" using c(2) flat_invD(5) [of "sv u" "bs u" "kb u"] by (simp add: backup_ok_def)
  then have "backup_ok (bs u @ [e'\<lparr>flags := 1\<rparr>]) (kb u) c st" using backup_ok_append [OF c(2) e(1, 2) _ app] e(3) by simp
  then have "servers_ok es k (bs(u := bs u @ [e'\<lparr>flags := 1\<rparr>])) kb cl (sv(u := st))"
    using s c(1) False by (auto simp: servers_ok_def dest: eq_key_imp_eq_value)
  then show ?thesis by (metis append_Nil2)
qed

section \<open>The queue of batches\<close>

text \<open>
  \<open>ms\<close> are the boundaries of the batches: the batch \<open>i\<close> holds the entries from \<open>ms ! i\<close> on and below \<open>ms ! (i + 1)\<close>. The store thread works
  on batch 0. When it has released the buffer and not yet advanced its round, batch 0 is the one of the next round.
\<close>

definition batch :: "LogEntry list \<Rightarrow> nat \<Rightarrow> nat \<Rightarrow> PipelineObj" where
  "batch es a b = \<lparr>entries_buf = take (b - a) (drop a es) @ [end_marker es b], buf_empty = False\<rparr>"

definition no_batch :: PipelineObj where
  "no_batch = \<lparr>entries_buf = [], buf_empty = True\<rparr>"

definition released :: "store_pc \<Rightarrow> nat" where
  "released pc = (case pc of SReleased _ \<Rightarrow> 1 | _ \<Rightarrow> 0)"

definition queue_ok :: "LogEntry list \<Rightarrow> nat list \<Rightarrow> nat \<Rightarrow> 'b ConsensusLog \<Rightarrow> bool" where
  "queue_ok es ms r cl \<longleftrightarrow> ms \<noteq> [] \<and> length ms \<le> 3 \<and> sorted_wrt (<) ms \<and> last ms \<le> length es \<and> length (buffers cl) = 2 \<and>
     fetch_round cl = store_round cl + of_nat (r + length ms - 1) \<and> fetch_begin cl = of_nat (pos es (last ms)) \<and>
     (\<forall>i<2. buffers cl ! ((unat (store_round cl) + r + i) mod 2) =
       (if Suc i < length ms then batch es (ms ! i) (ms ! Suc i) else no_batch))"

lemma parity: "unat ((w + of_nat x :: u64) mod 2) = (unat w + x) mod 2"
proof -
  have "unat (w + of_nat x :: u64) = (unat w + x) mod 2 ^ 64"
    by (simp add: unat_word_ariths unat_of_nat mod_simps)
  moreover have "(2 :: nat) dvd 2 ^ 64" by simp
  ultimately show ?thesis by (simp add: unat_mod mod_mod_cancel)
qed

lemma batch_append: "b \<le> length es \<Longrightarrow> batch (es @ xs) a b = batch es a b"
  by (cases "a \<le> b") (simp_all add: batch_def end_marker_def)

lemma queue_ok_append:
  assumes "queue_ok es ms r cl"
  shows "queue_ok (es @ xs) ms r cl"
proof -
  have l: "last ms \<le> length es" "sorted_wrt (<) ms" using assms by (simp_all add: queue_ok_def)
  have "ms ! Suc i \<le> length es" if "Suc i < length ms" for i
    using le_last_sorted [OF nth_mem [OF that]] l strict_sorted_imp_sorted [OF l(2)] by simp
  then show ?thesis
    using assms by (simp add: queue_ok_def batch_append)
qed

lemma queue_ok_frame:
  assumes "queue_ok es ms r cl" "buffers cl' = buffers cl" "fetch_round cl' = fetch_round cl" "fetch_begin cl' = fetch_begin cl"
    "store_round cl' = store_round cl"
  shows "queue_ok es ms r cl'"
  using assms by (simp add: queue_ok_def)

lemma store_idx_eq: "store_idx cl = unat (store_round cl) mod 2"
  using parity [of "store_round cl" 0] by (simp add: store_idx_def)

lemma queue_head:
  assumes "queue_ok es ms 0 cl"
  shows "buffers cl ! store_idx cl = (if 2 \<le> length ms then batch es (ms ! 0) (ms ! 1) else no_batch)"
  using assms unfolding queue_ok_def by (auto dest!: spec [of _ 0] simp: store_idx_eq Suc_le_eq numeral_2_eq_2)

lemma queue_bounds:
  assumes "queue_ok es ms r cl" "2 \<le> length ms"
  shows "ms ! 0 < ms ! 1" "ms ! 1 \<le> last ms" "ms ! 1 \<le> length es" "tl ms ! 0 = ms ! 1" "last (tl ms) = last ms"
proof -
  have q: "sorted_wrt (<) ms" "last ms \<le> length es" using assms(1) by (simp_all add: queue_ok_def)
  show "ms ! 0 < ms ! 1" using q(1) assms(2) by (simp add: sorted_wrt_nth_less)
  show l: "ms ! 1 \<le> last ms"
    using le_last_sorted [of "ms ! 1" ms] assms(2) strict_sorted_imp_sorted [OF q(1)] by simp
  then show "ms ! 1 \<le> length es" using q(2) by simp
  show "tl ms ! 0 = ms ! 1" "last (tl ms) = last ms" using assms(2) by (cases ms; auto simp: neq_Nil_conv)+
qed

lemma queue_release:
  assumes q: "queue_ok es ms 0 cl" and two: "2 \<le> length ms"
  shows "queue_ok es (tl ms) 1 (store_release cl)"
proof -
  let ?s = "unat (store_round cl)"
  have Q: "ms \<noteq> []" "length ms \<le> 3" "sorted_wrt (<) ms" "last ms \<le> length es" "length (buffers cl) = 2"
    "fetch_round cl = store_round cl + of_nat (length ms - 1)" "fetch_begin cl = of_nat (pos es (last ms))"
    and B: "\<And>i. i < 2 \<Longrightarrow> buffers cl ! ((?s + i) mod 2) = (if Suc i < length ms then batch es (ms ! i) (ms ! Suc i) else no_batch)"
    using q by (simp_all add: queue_ok_def)
  have "buffers (store_release cl) ! ((?s + 1 + i) mod 2) = (if Suc i < length (tl ms) then batch es (tl ms ! i) (tl ms ! Suc i) else no_batch)"
    if "i < 2" for i
  proof (cases "i = 0")
    case True
    have "(?s + 1) mod 2 \<noteq> ?s mod 2" by presburger
    then show ?thesis
      using True B [of 1] Q(5) two by (auto simp: store_release_def store_idx_eq nth_tl)
  next
    case False
    then have i: "i = 1" using that by simp
    have "(?s + 1 + 1) mod 2 = ?s mod 2" by presburger
    then show ?thesis
      using Q(2, 5) by (simp add: i store_release_def store_idx_eq no_batch_def)
  qed
  moreover have "tl ms \<noteq> []" "sorted_wrt (<) (tl ms)" "length (tl ms) \<le> 3" "1 + length (tl ms) - 1 = length ms - 1"
    using Q(1-3) two by (cases ms; auto)+
  ultimately show ?thesis
    using Q queue_bounds(5) [OF q two] by (simp add: queue_ok_def store_release_def)
qed

lemma queue_advance:
  assumes q: "queue_ok es ms 1 cl"
  shows "queue_ok es ms 0 (cl\<lparr>store_round := store_round cl + 1\<rparr>)"
proof -
  have "unat (store_round cl + 1) mod 2 = (unat (store_round cl) + 1) mod 2"
    using parity [of "store_round cl" 1] parity [of "store_round cl + 1" 0] by simp
  then have "(unat (store_round cl + 1) + i) mod 2 = (unat (store_round cl) + 1 + i) mod 2" for i
    by (metis mod_add_left_eq)
  moreover have "store_round cl + of_nat (1 + length ms - 1) = store_round cl + 1 + of_nat (length ms - 1)"
    using q by (cases ms) (auto simp: queue_ok_def)
  ultimately show ?thesis
    using q by (simp add: queue_ok_def)
qed

lemma queue_push:
  assumes q: "queue_ok es ms r cl" and n: "0 < n" "last ms + n \<le> length es" "length ms \<le> 2"
    and cl': "buffers cl' = (buffers cl)[unat (fetch_round cl mod 2) := batch es (last ms) (last ms + n)]"
      "fetch_round cl' = fetch_round cl + 1" "store_round cl' = store_round cl" "fetch_begin cl' = of_nat (pos es (last ms + n))"
  shows "queue_ok es (ms @ [last ms + n]) r cl'"
proof -
  let ?s = "unat (store_round cl) + r" and ?f = "(unat (store_round cl) + (r + length ms - 1)) mod 2"
  have Q: "ms \<noteq> []" "sorted_wrt (<) ms" "length (buffers cl) = 2" "fetch_round cl = store_round cl + of_nat (r + length ms - 1)"
    and B: "\<And>i. i < 2 \<Longrightarrow> buffers cl ! ((?s + i) mod 2) = (if Suc i < length ms then batch es (ms ! i) (ms ! Suc i) else no_batch)"
    using q by (simp_all add: queue_ok_def)
  have l1: "1 \<le> length ms" using Q(1) by (cases ms) auto
  have f: "unat (fetch_round cl mod 2) = ?f" unfolding Q(4) by (rule parity)
  have fs: "?f = (?s + (length ms - 1)) mod 2" using l1 by (simp add: add.assoc)
  have lst: "last ms = ms ! (length ms - 1)" using Q(1) by (rule last_conv_nth)
  have "buffers cl' ! ((?s + i) mod 2) =
      (if Suc i < length (ms @ [last ms + n]) then batch es ((ms @ [last ms + n]) ! i) ((ms @ [last ms + n]) ! Suc i) else no_batch)"
    if i: "i < 2" for i
  proof (cases "i = length ms - 1")
    case True
    then have "buffers cl' ! ((?s + i) mod 2) = batch es (last ms) (last ms + n)"
      unfolding cl'(1) f fs using Q(3) by simp
    then show ?thesis
      using True l1 lst by (simp add: nth_append)
  next
    case False
    then have "i = 1 \<and> length ms - 1 = 0 \<or> i = 0 \<and> length ms - 1 = 1"
      using i l1 n(3) by linarith
    moreover have "(a + 1) mod 2 \<noteq> a mod 2" for a :: nat by presburger
    ultimately have "(?s + i) mod 2 \<noteq> ?f"
      unfolding fs by (metis add.right_neutral)
    then have "buffers cl' ! ((?s + i) mod 2) = buffers cl ! ((?s + i) mod 2)"
      by (simp add: cl'(1) f)
    also note B [OF i]
    finally show ?thesis using False l1 by (auto simp: nth_append)
  qed
  moreover have "sorted_wrt (<) (ms @ [last ms + n])"
    using Q(2) n(1) le_last_sorted [OF _ strict_sorted_imp_sorted [OF Q(2)]] by (force simp: sorted_wrt_append)
  moreover have "fetch_round cl' = store_round cl' + of_nat (r + length (ms @ [last ms + n]) - 1)"
    using l1 unfolding cl'(2, 3) Q(4) by (cases ms) (auto simp: Q(1))
  ultimately show ?thesis
    using n Q(3) cl'(1, 3, 4) by (simp add: queue_ok_def add.assoc [symmetric])
qed

section \<open>The invariant\<close>

definition stored_upto :: "nat list \<Rightarrow> store_pc \<Rightarrow> nat" where
  "stored_upto ms pc = (case pc of SIdle \<Rightarrow> ms ! 0 | SReleased _ \<Rightarrow> ms ! 0 | _ \<Rightarrow> ms ! 1)"

definition collected_upto :: "nat list \<Rightarrow> store_pc \<Rightarrow> nat" where
  "collected_upto ms pc = (case pc of SCollected _ \<Rightarrow> ms ! 1 | _ \<Rightarrow> ms ! 0)"

definition pc_ok :: "nat list \<Rightarrow> store_pc \<Rightarrow> bool" where
  "pc_ok ms pc = (case pc of SIdle \<Rightarrow> True | SAppended \<Rightarrow> 2 \<le> length ms
     | SCollected l \<Rightarrow> 2 \<le> length ms \<and> l = of_nat (ms ! 1 - 1) | SReleased l \<Rightarrow> 0 < ms ! 0 \<and> l = of_nat (ms ! 0 - 1))"

lemmas pc_defs = stored_upto_def collected_upto_def pc_ok_def released_def

definition pipe_inv ::
  "(LogEntry list \<Rightarrow> nat \<Rightarrow> nat \<Rightarrow> 'b \<Rightarrow> bool) \<Rightarrow> LogEntry list \<Rightarrow> nat list \<Rightarrow> nat \<Rightarrow> 'b PipeSys \<Rightarrow> bool" where
  "pipe_inv stores es ms g \<sigma> \<longleftrightarrow> queue_ok es ms (released (p_pc \<sigma>)) (p_cl \<sigma>) \<and> pc_ok ms (p_pc \<sigma>) \<and>
     (\<exists>bs kb. servers_ok es (collected_upto ms (p_pc \<sigma>)) bs kb (p_cl \<sigma>) (p_sv \<sigma>)) \<and>
     stores es (stored_upto ms (p_pc \<sigma>)) g (backend (p_cl \<sigma>)) \<and> g \<le> ms ! 0 - 1 \<and>
     (p_pc \<sigma> = SIdle \<longrightarrow> g = ms ! 0 - 1)"

lemma pipe_invE:
  assumes "pipe_inv stores es ms g \<sigma>"
  obtains bs kb cp where "queue_ok es ms (released (p_pc \<sigma>)) (p_cl \<sigma>)" "pc_ok ms (p_pc \<sigma>)"
    "servers_ok es (collected_upto ms (p_pc \<sigma>)) bs kb (p_cl \<sigma>) (p_sv \<sigma>)"
    "primary_ok es (collected_upto ms (p_pc \<sigma>)) cp (p_sv \<sigma> (pri_dur_cli (p_cl \<sigma>)))"
    "stores es (stored_upto ms (p_pc \<sigma>)) g (backend (p_cl \<sigma>))" "g \<le> ms ! 0 - 1"
    "collected_upto ms (p_pc \<sigma>) \<le> stored_upto ms (p_pc \<sigma>)" "stored_upto ms (p_pc \<sigma>) \<le> last ms"
    "p_pc \<sigma> = SIdle \<longrightarrow> g = ms ! 0 - 1"
proof -
  obtain bs kb cp where a: "queue_ok es ms (released (p_pc \<sigma>)) (p_cl \<sigma>)" "pc_ok ms (p_pc \<sigma>)"
    "servers_ok es (collected_upto ms (p_pc \<sigma>)) bs kb (p_cl \<sigma>) (p_sv \<sigma>)"
    "primary_ok es (collected_upto ms (p_pc \<sigma>)) cp (p_sv \<sigma> (pri_dur_cli (p_cl \<sigma>)))"
    "stores es (stored_upto ms (p_pc \<sigma>)) g (backend (p_cl \<sigma>))" "g \<le> ms ! 0 - 1"
    "p_pc \<sigma> = SIdle \<longrightarrow> g = ms ! 0 - 1"
    using assms servers_ok_primary unfolding pipe_inv_def by blast
  have s: "sorted ms" "ms \<noteq> []" using a(1) strict_sorted_imp_sorted by (auto simp: queue_ok_def)
  then have "ms ! 0 \<le> last ms" using le_last_sorted [of "ms ! 0" ms] by simp
  moreover have "ms ! 0 \<le> ms ! 1 \<and> ms ! 1 \<le> last ms" if "2 \<le> length ms"
    using queue_bounds(1, 2) [OF a(1) that] by simp
  ultimately have "collected_upto ms (p_pc \<sigma>) \<le> stored_upto ms (p_pc \<sigma>)" "stored_upto ms (p_pc \<sigma>) \<le> last ms"
    using a(2) by (auto simp: pc_defs split: store_pc.splits)
  with a show ?thesis using that by blast
qed

context ordering
begin

lemma fetch_slot:
  assumes q': "queue_ok es ms r cl"
  shows "buffers cl ! unat (fetch_round cl mod 2) = (if length ms = 3 then batch es (ms ! 0) (ms ! 1) else no_batch)"
    "unat (fetch_round cl mod 2) < length (buffers cl)"
proof -
  have Q: "ms \<noteq> []" "length ms \<le> 3" "length (buffers cl) = 2" "fetch_round cl = store_round cl + of_nat (r + length ms - 1)"
    and B: "\<And>i. i < 2 \<Longrightarrow> buffers cl ! ((unat (store_round cl) + r + i) mod 2) = (if Suc i < length ms then batch es (ms ! i) (ms ! Suc i) else no_batch)"
    using q' by (simp_all add: queue_ok_def)
  obtain m where m: "length ms = Suc m" using Q(1) by (cases ms) auto
  have i: "unat (fetch_round cl mod 2) = (unat (store_round cl) + r + m) mod 2" unfolding Q(4) parity by (simp add: m add.assoc)
  then show "unat (fetch_round cl mod 2) < length (buffers cl)" by (simp add: Q(3))
  have "(unat (store_round cl) + r + 2) mod 2 = (unat (store_round cl) + r + 0) mod 2" by simp
  then show "buffers cl ! unat (fetch_round cl mod 2) = (if length ms = 3 then batch es (ms ! 0) (ms ! 1) else no_batch)"
    using B [of 0] B [of m] m Q(2) unfolding i by (cases "m = 2") auto
qed

lemma fetch_from_end:
  assumes s: "servers_ok es k bs kb cl sv" and q': "queue_ok es ms r cl" and k: "k \<le> last ms"
  obtains n ds where "FetchFromPrimary q cl sv [] (fetch_begin cl) =
        Some (if n = 0 then (0, [], cl\<lparr>dur_cli := ds\<rparr>)
              else (of_nat (tsz (take n (drop (last ms) es))), take n (drop (last ms) es) @ [end_marker es (last ms + n)], cl\<lparr>dur_cli := ds\<rparr>))"
    "last ms + n \<le> length es" "servers_ok es k bs kb (cl\<lparr>dur_cli := ds\<rparr>) sv"
    "0 < n \<longleftrightarrow> last ms < length es \<and> (max_fetch_size cl = 0 \<or> esz (es ! last ms) \<le> unat (max_fetch_size cl))"
proof -
  have Q: "last ms \<le> length es" "fetch_begin cl = of_nat (pos es (last ms))" using q' by (simp_all add: queue_ok_def)
  obtain cp where "primary_ok es k cp (sv (pri_dur_cli cl))" using s by (auto simp: servers_ok_def)
  then have I: "flat_inv (sv (pri_dur_cli cl)) es k" by (simp add: primary_ok_def)
  have "unat (of_nat (pos es (last ms)) :: u64) = pos es (last ms)"
    using flat_invD(9) [OF I] pos_le_tsz [of es "last ms"] by (intro unat_of_nat_small) simp
  then have "unat (max (ordered_watermk (sv (pri_dur_cli cl))) (fetch_begin cl)) = pos es (last ms)"
    using flat_invD(7) [OF I] pos_mono [OF k, of es] unfolding Q(2) by (simp add: max_def word_le_nat_alt)
  from FetchFromPrimary_ok [OF rdma s k Q(1) this, of "[]", unfolded append_Nil] show ?thesis using that by blast
qed

lemma fetch_queue:
  assumes s: "servers_ok es k bs kb cl sv" and q': "queue_ok es ms r cl" and k: "k \<le> last ms"
  shows "(length ms = 3 \<longrightarrow> fetch q t sv cl = None) \<and>
    (length ms \<le> 2 \<longrightarrow> (\<exists>cl' ms'. fetch q t sv cl = Some cl' \<and> queue_ok es ms' r cl' \<and> servers_ok es k bs kb cl' sv \<and>
      backend cl' = backend cl \<and> max_fetch_size cl' = max_fetch_size cl \<and>
      (if last ms < length es \<and> (max_fetch_size cl = 0 \<or> esz (es ! last ms) \<le> unat (max_fetch_size cl))
       then fetch_round cl' = fetch_round cl + 1 \<and> (\<exists>n>0. ms' = ms @ [last ms + n]) else ms' = ms)))"
proof (cases "length ms = 3")
  case True
  then show ?thesis using fetch_slot(1) [OF q'] by (simp add: fetch_def Let_def batch_def)
next
  case l: False
  let ?i = "unat (fetch_round cl mod 2)" and ?j = "last ms"
  have e: "buffers cl ! ?i = no_batch" using fetch_slot(1) [OF q'] l by simp
  obtain cp where cp: "primary_ok es k cp (sv (pri_dur_cli cl))" using s by (auto simp: servers_ok_def)
  obtain n ds where F: "FetchFromPrimary q cl sv [] (fetch_begin cl) =
        Some (if n = 0 then (0, [], cl\<lparr>dur_cli := ds\<rparr>)
              else (of_nat (tsz (take n (drop ?j es))), take n (drop ?j es) @ [end_marker es (?j + n)], cl\<lparr>dur_cli := ds\<rparr>))"
    and n: "?j + n \<le> length es" "servers_ok es k bs kb (cl\<lparr>dur_cli := ds\<rparr>) sv"
      "0 < n \<longleftrightarrow> ?j < length es \<and> (max_fetch_size cl = 0 \<or> esz (es ! ?j) \<le> unat (max_fetch_size cl))"
    by (rule fetch_from_end [OF s q' k])
  show ?thesis
  proof (cases "n = 0")
    case True
    have "(buffers cl)[?i := (buffers cl ! ?i)\<lparr>entries_buf := []\<rparr>] = buffers cl"
      using e by (metis PipelineObj.surjective PipelineObj.update_convs(1) list_update_id no_batch_def)
    then have "fetch q t sv cl = Some (cl\<lparr>dur_cli := ds\<rparr>)"
      using e F True by (simp add: fetch_def Let_def no_batch_def)
    moreover have "queue_ok es ms r (cl\<lparr>dur_cli := ds\<rparr>)" by (rule queue_ok_frame [OF q']) simp_all
    ultimately show ?thesis using l n(2, 3) True by auto
  next
    case False
    then have n0: "0 < n" by simp
    let ?fs = "take n (drop ?j es)"
    note f = batch_facts [OF cp k n(1) n0]
    have nz: "(of_nat (tsz ?fs) :: u32) \<noteq> 0"
      using f(4, 5) pos_plus [of es ?j n] by (metis add_diff_cancel_left' less_irrefl unsigned_0)
    have "fetch_begin cl = of_nat (pos es ?j)" "length ms \<le> 3" using q' by (simp_all add: queue_ok_def)
    then have fb: "fetch_begin cl + ucast (of_nat (tsz ?fs) :: u32) = of_nat (pos es (?j + n))"
      using pos_mono [of ?j "?j + n" es] of_nat_unat [of "of_nat (tsz ?fs) :: u32", where ?'a = "64 word", symmetric]
      unfolding f(4) by (simp add: of_nat_diff)
    define cl' where "cl' = cl\<lparr>dur_cli := ds, total_be_size := total_be_size cl + of_nat (length (?fs @ [end_marker es (?j + n)])) - 1,
      total_fetch_time := total_fetch_time cl + t, total_be_n := total_be_n cl + 1, fetch_begin := of_nat (pos es (?j + n)),
      buffers := (buffers cl)[?i := batch es ?j (?j + n)], fetch_round := fetch_round cl + 1\<rparr>"
    have "fetch q t sv cl = Some cl'"
      using e F False nz fb fetch_slot(2) [OF q'] by (simp add: fetch_def Let_def no_batch_def batch_def cl'_def)
    moreover have "queue_ok es (ms @ [?j + n]) r cl'"
      by (rule queue_push [OF q' n0 n(1)]) (use l \<open>length ms \<le> 3\<close> in \<open>simp_all add: cl'_def\<close>)
    moreover have "servers_ok es k bs kb cl' sv" by (rule servers_ok_frame [OF n(2)]) (simp_all add: cl'_def)
    ultimately show ?thesis using n(3) n0 l by (auto simp: cl'_def)
  qed
qed

end

context ordering
begin

lemma pipe_append:
  assumes inv: "pipe_inv stores es ms g \<sigma>" and u: "u \<in> fst ` set (dur_cli (p_cl \<sigma>))"
    and e: "wf_entry e" "esz e \<le> unat SAFE_RG_SIZE" "unat (sequencer (p_sv \<sigma> u)) + esz e + 2 ^ 32 \<le> 2 ^ 64"
    and app: "AppendEntry (p_sv \<sigma> u) e = Some (sq, e', st)"
  shows "\<exists>xs. pipe_inv stores (es @ xs) ms g (\<sigma>\<lparr>p_sv := (p_sv \<sigma>)(u := st)\<rparr>)"
proof -
  let ?k = "collected_upto ms (p_pc \<sigma>)"
  obtain bs kb where a: "queue_ok es ms (released (p_pc \<sigma>)) (p_cl \<sigma>)" "pc_ok ms (p_pc \<sigma>)"
    "servers_ok es ?k bs kb (p_cl \<sigma>) (p_sv \<sigma>)" "stores es (stored_upto ms (p_pc \<sigma>)) g (backend (p_cl \<sigma>))" "g \<le> ms ! 0 - 1" "p_pc \<sigma> = SIdle \<longrightarrow> g = ms ! 0 - 1"
    by (rule pipe_invE [OF inv])
  obtain xs bs' where xs: "servers_ok (es @ xs) ?k bs' kb (p_cl \<sigma>) ((p_sv \<sigma>)(u := st))"
    using servers_ok_append [OF a(3) u e app] by blast
  obtain c where "primary_ok (es @ xs) ?k c (((p_sv \<sigma>)(u := st)) (pri_dur_cli (p_cl \<sigma>)))"
    using servers_ok_primary [OF xs] by blast
  note l = primary_log_ok [OF this]
  show ?thesis
    using a xs queue_ok_append [OF a(1)] stores_grow [OF a(4) l] unfolding pipe_inv_def
    by (intro exI [of _ xs]) auto
qed

lemma pipe_fetch:
  assumes inv: "pipe_inv stores es ms g \<sigma>" and f: "fetch q t (p_sv \<sigma>) (p_cl \<sigma>) = Some cl"
  shows "\<exists>ms'. pipe_inv stores es ms' g (\<sigma>\<lparr>p_cl := cl\<rparr>) \<and> stored_upto ms' (p_pc \<sigma>) = stored_upto ms (p_pc \<sigma>)"
proof -
  let ?k = "collected_upto ms (p_pc \<sigma>)"
  obtain bs kb where a: "queue_ok es ms (released (p_pc \<sigma>)) (p_cl \<sigma>)" "pc_ok ms (p_pc \<sigma>)"
    "servers_ok es ?k bs kb (p_cl \<sigma>) (p_sv \<sigma>)" "stores es (stored_upto ms (p_pc \<sigma>)) g (backend (p_cl \<sigma>))" "g \<le> ms ! 0 - 1" "p_pc \<sigma> = SIdle \<longrightarrow> g = ms ! 0 - 1"
    "?k \<le> stored_upto ms (p_pc \<sigma>)" "stored_upto ms (p_pc \<sigma>) \<le> last ms"
    by (rule pipe_invE [OF inv])
  have k: "?k \<le> last ms" using a(7, 8) by simp
  have ms: "ms \<noteq> []" "length ms \<le> 3" using a(1) by (simp_all add: queue_ok_def)
  note F = fetch_queue [OF a(3, 1) k, of t]
  then have "length ms \<le> 2" using f ms(2) by (cases "length ms = 3") auto
  then obtain ms' where m: "queue_ok es ms' (released (p_pc \<sigma>)) cl" "servers_ok es ?k bs kb cl (p_sv \<sigma>)" "backend cl = backend (p_cl \<sigma>)"
    "ms' = ms \<or> (\<exists>n. ms' = ms @ [n])"
    using F f by (auto split: if_splits)
  have nth: "ms' ! 0 = ms ! 0" "2 \<le> length ms \<Longrightarrow> ms' ! 1 = ms ! 1" "length ms \<le> length ms'"
    using m(4) ms(1) by (auto simp: nth_append)
  have "pc_ok ms' (p_pc \<sigma>)" "stored_upto ms' (p_pc \<sigma>) = stored_upto ms (p_pc \<sigma>)" "collected_upto ms' (p_pc \<sigma>) = ?k"
    using a(2) nth by (auto simp: pc_defs split: store_pc.splits)
  then show ?thesis
    using m a nth(1) unfolding pipe_inv_def by (intro exI [of _ ms']) auto
qed

lemma pipe_store:
  assumes inv: "pipe_inv stores es ms g \<sigma>" and pc: "p_pc \<sigma> = SIdle"
  shows "if 2 \<le> length ms
    then \<exists>cl. store_append be t (p_cl \<sigma>) = Some cl \<and> pipe_inv stores es ms g (\<sigma>\<lparr>p_cl := cl, p_pc := SAppended\<rparr>)
    else store_append be t (p_cl \<sigma>) = None"
proof -
  obtain bs kb cp where a: "queue_ok es ms 0 (p_cl \<sigma>)" "servers_ok es (ms ! 0) bs kb (p_cl \<sigma>) (p_sv \<sigma>)"
    "primary_ok es (ms ! 0) cp (p_sv \<sigma> (pri_dur_cli (p_cl \<sigma>)))" "stores es (ms ! 0) g (backend (p_cl \<sigma>))" "g \<le> ms ! 0 - 1"
    by (rule pipe_invE [OF inv]) (use pc in \<open>simp add: pc_defs\<close>)
  note h = queue_head [OF a(1)]
  show ?thesis
  proof (cases "2 \<le> length ms")
    case True
    let ?n = "ms ! 1 - ms ! 0"
    note b = queue_bounds [OF a(1) True]
    have n: "ms ! 0 + ?n = ms ! 1" "0 < ?n" using b(1) by simp_all
    then have "fetched_batch es (ms ! 0) (ms ! 1) (entries_buf (batch es (ms ! 0) (ms ! 1)))"
      using fetched_batchI [OF a(3) le_refl, of ?n] b(3) by (simp add: batch_def)
    then obtain b' where b': "be_AppendBatch be (backend (p_cl \<sigma>)) (entries_buf (batch es (ms ! 0) (ms ! 1))) = Some (of_nat (ms ! 1 - 1), b')"
      "stores es (ms ! 1) g b'"
      using append_stores [OF a(4)] by blast
    let ?cl = "(p_cl \<sigma>)\<lparr>backend := b', max_ordered_idx := of_nat (ms ! 1 - 1), total_append_time := total_append_time (p_cl \<sigma>) + t\<rparr>"
    have "store_append be t (p_cl \<sigma>) = Some ?cl"
      using h True b'(1) by (simp add: store_append_def batch_def)
    moreover have "queue_ok es ms 0 ?cl" "servers_ok es (ms ! 0) bs kb ?cl (p_sv \<sigma>)"
      by (rule queue_ok_frame [OF a(1)] servers_ok_frame [OF a(2)]; simp)+
    then have "pipe_inv stores es ms g (\<sigma>\<lparr>p_cl := ?cl, p_pc := SAppended\<rparr>)"
      using True b'(2) a(5) by (auto simp: pipe_inv_def pc_defs)
    ultimately show ?thesis using True by auto
  next
    case False
    then show ?thesis using h by (simp add: store_append_def no_batch_def)
  qed
qed

lemma pipe_collect:
  assumes inv: "pipe_inv stores es ms g \<sigma>" and pc: "p_pc \<sigma> = SAppended"
  shows "\<exists>l cl sv. store_collect q net t (p_cl \<sigma>) (p_sv \<sigma>) = Some (l, cl, sv) \<and>
    pipe_inv stores es ms g (\<sigma>\<lparr>p_cl := cl, p_sv := sv, p_pc := SCollected l\<rparr>)"
proof -
  obtain bs kb where a: "queue_ok es ms 0 (p_cl \<sigma>)" "servers_ok es (ms ! 0) bs kb (p_cl \<sigma>) (p_sv \<sigma>)"
    "stores es (ms ! 1) g (backend (p_cl \<sigma>))" "g \<le> ms ! 0 - 1" "2 \<le> length ms"
    by (rule pipe_invE [OF inv]) (use pc in \<open>simp add: pc_defs\<close>)
  let ?n = "ms ! 1 - ms ! 0" and ?cl = "(p_cl \<sigma>)\<lparr>total_gc_time := total_gc_time (p_cl \<sigma>) + t\<rparr>"
  note b = queue_bounds [OF a(1, 5)]
  have n: "ms ! 0 + ?n = ms ! 1" "0 < ?n" using b(1) by simp_all
  have "servers_ok es (ms ! 0) bs kb ?cl (p_sv \<sigma>)" by (rule servers_ok_frame [OF a(2)]) simp_all
  from collect_ok [OF this n(2)] b(3) obtain ds sv kb' where c:
    "collect q net (take ?n (drop (ms ! 0) es) @ [end_marker es (ms ! 1)]) ?cl (p_sv \<sigma>) = Some (of_nat (ms ! 1 - 1), ?cl\<lparr>dur_cli := ds\<rparr>, sv)"
    "servers_ok es (ms ! 1) bs kb' (?cl\<lparr>dur_cli := ds\<rparr>) sv"
    unfolding n(1) by blast
  have "store_collect q net t (p_cl \<sigma>) (p_sv \<sigma>) = Some (of_nat (ms ! 1 - 1), ?cl\<lparr>dur_cli := ds\<rparr>, sv)"
    using c(1) queue_head [OF a(1)] a(5) by (simp add: store_collect_def batch_def)
  moreover have "queue_ok es ms 0 (?cl\<lparr>dur_cli := ds\<rparr>)" by (rule queue_ok_frame [OF a(1)]) simp_all
  then have "pipe_inv stores es ms g (\<sigma>\<lparr>p_cl := ?cl\<lparr>dur_cli := ds\<rparr>, p_sv := sv, p_pc := SCollected (of_nat (ms ! 1 - 1))\<rparr>)"
    using c(2) a(3-5) by (auto simp: pipe_inv_def pc_defs)
  ultimately show ?thesis by blast
qed

lemma pipe_release:
  assumes inv: "pipe_inv stores es ms g \<sigma>" and pc: "p_pc \<sigma> = SCollected l"
  shows "pipe_inv stores es (tl ms) g (\<sigma>\<lparr>p_cl := store_release (p_cl \<sigma>), p_pc := SReleased l\<rparr>)"
proof -
  obtain bs kb where a: "queue_ok es ms 0 (p_cl \<sigma>)" "servers_ok es (ms ! 1) bs kb (p_cl \<sigma>) (p_sv \<sigma>)"
    "stores es (ms ! 1) g (backend (p_cl \<sigma>))" "g \<le> ms ! 0 - 1" "2 \<le> length ms" "l = of_nat (ms ! 1 - 1)"
    by (rule pipe_invE [OF inv]) (use pc in \<open>simp add: pc_defs\<close>)
  note b = queue_bounds [OF a(1, 5)]
  have "servers_ok es (ms ! 1) bs kb (store_release (p_cl \<sigma>)) (p_sv \<sigma>)"
    by (rule servers_ok_frame [OF a(2)]) (simp_all add: store_release_def)
  then show ?thesis
    using queue_release [OF a(1, 5)] a b by (auto simp: pipe_inv_def pc_defs store_release_def)
qed

lemma pipe_publish:
  assumes inv: "pipe_inv stores es ms g \<sigma>" and pc: "p_pc \<sigma> = SReleased l"
  shows "\<exists>cl. store_publish be l (p_cl \<sigma>) = Some cl \<and> pipe_inv stores es ms (ms ! 0 - 1) (\<sigma>\<lparr>p_cl := cl, p_pc := SIdle\<rparr>)"
proof -
  obtain bs kb cp where a: "queue_ok es ms 1 (p_cl \<sigma>)" "servers_ok es (ms ! 0) bs kb (p_cl \<sigma>) (p_sv \<sigma>)"
    "primary_ok es (ms ! 0) cp (p_sv \<sigma> (pri_dur_cli (p_cl \<sigma>)))"
    "stores es (ms ! 0) g (backend (p_cl \<sigma>))" "l = of_nat (ms ! 0 - 1)"
    by (rule pipe_invE [OF inv]) (use pc in \<open>simp add: pc_defs\<close>)
  have "ms ! 0 \<le> length es" using flat_invD(3) [of "p_sv \<sigma> (pri_dur_cli (p_cl \<sigma>))" es "ms ! 0"] a(3) by (simp add: primary_ok_def)
  moreover have "length es < 2 ^ 64" using primary_log_ok(1) [OF a(3)] by (simp add: log_ok_def)
  ultimately have l: "unat l = ms ! 0 - 1"
    unfolding a(5) by (intro unat_of_nat_small) simp
  obtain b where b: "be_UpdateGlobalIdx be (backend (p_cl \<sigma>)) l = Some b" "stores es (ms ! 0) (ms ! 0 - 1) b"
    using publish_stores [OF a(4), of l] l by auto
  let ?cl = "(p_cl \<sigma>)\<lparr>backend := b, store_round := store_round (p_cl \<sigma>) + 1\<rparr>"
  have "queue_ok es ms 0 ?cl" by (rule queue_ok_frame [OF queue_advance [OF a(1)]]) simp_all
  moreover have "servers_ok es (ms ! 0) bs kb ?cl (p_sv \<sigma>)" by (rule servers_ok_frame [OF a(2)]) simp_all
  ultimately have "pipe_inv stores es ms (ms ! 0 - 1) (\<sigma>\<lparr>p_cl := ?cl, p_pc := SIdle\<rparr>)"
    using b(2) by (auto simp: pipe_inv_def pc_defs)
  then show ?thesis using b(1) by (simp add: store_publish_def)
qed

end

context ordering
begin

lemma pipe_inv_step:
  assumes step: "pipe_step be q net \<sigma> \<sigma>'" and inv: "pipe_inv stores es ms g \<sigma>"
  shows "\<exists>xs ms' g'. pipe_inv stores (es @ xs) ms' g' \<sigma>'"
proof -
  have E: ?thesis if "pipe_inv stores es ms' g' \<sigma>'" for ms' g'
    using that by (metis append_Nil2)
  show ?thesis
  proof (rule pipe_stepE [OF step], goal_cases)
    case (1 u e sq e' st)
    then have "unat (sequencer (p_sv \<sigma> u)) + esz e + 2 ^ 32 \<le> 2 ^ 64" by simp
    with 1 show ?thesis using pipe_append [OF inv, of u e sq e' st] by blast
  next
    case (2 t cl)
    then show ?thesis using pipe_fetch [OF inv] E by blast
  next
    case (3 t cl)
    then have "pipe_inv stores es ms g \<sigma>'" using pipe_store [OF inv, of t] by (simp split: if_splits)
    then show ?thesis by (rule E)
  next
    case (4 t l cl sv)
    then have "pipe_inv stores es ms g \<sigma>'" using pipe_collect [OF inv, of t] by auto
    then show ?thesis by (rule E)
  next
    case (5 l)
    then show ?thesis using pipe_release [OF inv] E by blast
  next
    case (6 l cl)
    then have "pipe_inv stores es ms (ms ! 0 - 1) \<sigma>'" using pipe_publish [OF inv] by auto
    then show ?thesis by (rule E)
  qed
qed

lemma pipe_inv_reach:
  assumes "pipe_reach be q net \<sigma> \<sigma>'" "pipe_inv stores es ms g \<sigma>"
  shows "\<exists>xs ms' g'. pipe_inv stores (es @ xs) ms' g' \<sigma>'"
  using assms
proof (induction arbitrary: rule: rtranclp_induct)
  case base
  then show ?case by (metis append_Nil2)
next
  case (step \<sigma>1 \<sigma>2)
  then obtain xs ms1 g1 where "pipe_inv stores (es @ xs) ms1 g1 \<sigma>1" by blast
  from pipe_inv_step [OF step(2) this] show ?case by (metis append_assoc)
qed

lemma pipe_inv_start:
  assumes s: "servers_ok es 0 bs kb cl sv" and st: "stores es 0 0 (backend cl)"
    and b: "buffers cl = replicate 2 no_batch" "fetch_round cl = store_round cl" "fetch_begin cl = 0"
  shows "pipe_inv stores es [0] 0 \<lparr>p_cl = cl, p_sv = sv, p_pc = SIdle\<rparr>"
proof -
  have "queue_ok es [0] 0 cl" using b by (simp add: queue_ok_def)
  then show ?thesis using s st by (auto simp: pipe_inv_def pc_defs)
qed

text \<open>Some thread can always go on as long as an entry is not stored.\<close>

lemma pipe_progress:
  assumes inv: "pipe_inv stores es ms g \<sigma>"
    and work: "p_pc \<sigma> \<noteq> SIdle \<or> ms ! 0 < length es"
    and mx: "max_fetch_size (p_cl \<sigma>) = 0 \<or> (\<forall>e\<in>set es. esz e \<le> unat (max_fetch_size (p_cl \<sigma>)))"
  shows "\<exists>\<sigma>' ms' g'. pipe_step be q net \<sigma> \<sigma>' \<and> pipe_inv stores es ms' g' \<sigma>' \<and>
    (p_pc \<sigma>' \<noteq> p_pc \<sigma> \<or> fetch_round (p_cl \<sigma>') = fetch_round (p_cl \<sigma>) + 1)"
proof -
  have I: ?thesis if "pipe_step be q net \<sigma> \<sigma>'" "pipe_inv stores es ms' g' \<sigma>'" "p_pc \<sigma>' \<noteq> p_pc \<sigma>" for \<sigma>' ms' g'
    using that by blast
  show ?thesis
  proof (cases "p_pc \<sigma>")
    case SIdle
    show ?thesis
    proof (cases "2 \<le> length ms")
      case True
      then obtain cl where cl: "store_append be 0 (p_cl \<sigma>) = Some cl" "pipe_inv stores es ms g (\<sigma>\<lparr>p_cl := cl, p_pc := SAppended\<rparr>)"
        using pipe_store [OF inv SIdle, of 0] by auto
      show ?thesis by (rule I [OF pipe_step.storing [OF SIdle cl(1)] cl(2)]) (simp add: SIdle)
    next
      case False
      obtain bs kb where a: "queue_ok es ms 0 (p_cl \<sigma>)" "servers_ok es (ms ! 0) bs kb (p_cl \<sigma>) (p_sv \<sigma>)"
        "stores es (ms ! 0) g (backend (p_cl \<sigma>))" "g = ms ! 0 - 1"
        by (rule pipe_invE [OF inv]) (use SIdle in \<open>simp add: pc_defs\<close>)
      obtain m where m: "ms = [m]" using a(1) False by (cases ms; cases "tl ms") (auto simp: queue_ok_def)
      have k: "ms ! 0 \<le> last ms" by (simp add: m)
      have w: "last ms < length es \<and> (max_fetch_size (p_cl \<sigma>) = 0 \<or> esz (es ! last ms) \<le> unat (max_fetch_size (p_cl \<sigma>)))"
        using work SIdle mx m by auto
      obtain cl ms' n where F: "fetch q 0 (p_sv \<sigma>) (p_cl \<sigma>) = Some cl" "queue_ok es ms' 0 cl" "servers_ok es (ms ! 0) bs kb cl (p_sv \<sigma>)"
        "backend cl = backend (p_cl \<sigma>)" "fetch_round cl = fetch_round (p_cl \<sigma>) + 1" "ms' = ms @ [last ms + n]"
        using fetch_queue [OF a(2, 1) k, of 0] w m by auto
      have "pipe_inv stores es ms' g (\<sigma>\<lparr>p_cl := cl\<rparr>)"
        using F(2-4, 6) a(3, 4) m by (auto simp: pipe_inv_def pc_defs SIdle)
      then show ?thesis
        using pipe_step.fetching [OF F(1), of be net] F(5)
        by (intro exI [of _ "\<sigma>\<lparr>p_cl := cl\<rparr>"] exI [of _ ms'] exI [of _ g]) simp
    qed
  next
    case SAppended
    then obtain l cl sv where "store_collect q net 0 (p_cl \<sigma>) (p_sv \<sigma>) = Some (l, cl, sv)"
      "pipe_inv stores es ms g (\<sigma>\<lparr>p_cl := cl, p_sv := sv, p_pc := SCollected l\<rparr>)"
      using pipe_collect [OF inv, of 0] by blast
    with SAppended show ?thesis by (intro I [OF pipe_step.collecting]) simp_all
  next
    case (SCollected l)
    then show ?thesis by (intro I [OF pipe_step.releasing pipe_release [OF inv]]) simp_all
  next
    case (SReleased l)
    then obtain cl where "store_publish be l (p_cl \<sigma>) = Some cl" "pipe_inv stores es ms (ms ! 0 - 1) (\<sigma>\<lparr>p_cl := cl, p_pc := SIdle\<rparr>)"
      using pipe_publish [OF inv] by blast
    with SReleased show ?thesis by (intro I [OF pipe_step.publishing]) simp_all
  qed
qed

end

section \<open>Properties of the pipeline\<close>

definition pipe_start :: "'b ConsensusLog \<Rightarrow> (string \<Rightarrow> DurabilityLogFlat) \<Rightarrow> 'b PipeSys" where
  "pipe_start cl sv = \<lparr>p_cl = cl, p_sv = sv, p_pc = SIdle\<rparr>"

definition fresh_pipe :: "'b ConsensusLog \<Rightarrow> bool" where
  "fresh_pipe cl \<longleftrightarrow> buffers cl = replicate 2 no_batch \<and> fetch_round cl = store_round cl \<and> fetch_begin cl = 0"

text \<open>C3. Safety of the pipeline. Whatever the interleaving of clients appending to the durability servers, of the fetch thread and
  of the steps of the store thread, the shards and their backups hold exactly the first \<open>n\<close> entries of the log of the
  primary, for some \<open>n\<close>, no entry twice and none out of order; the primary has not collected an entry that is not stored;
  and readers see only stored entries.\<close>

theorem pipeline_safe:
  assumes net: "shard_cluster snet bnet r0 r1" "rdma_ok q" "\<And>u. serves (net u) DEL_ORDERED_ENTRIES (DeleteOrderedEntriesHandler resp0)"
    and s: "servers_ok es 0 bs kb cl sv" "cluster_stores es 0 0 (backend cl)" "fresh_pipe cl"
    and r: "pipe_reach (NaiveBackend_methods snet) q net (pipe_start cl sv) \<sigma>"
  shows "\<exists>xs k n g. flat_inv (p_sv \<sigma> (pri_dur_cli (p_cl \<sigma>))) (es @ xs) k \<and> cluster_stores (es @ xs) n g (backend (p_cl \<sigma>)) \<and>
    k \<le> n \<and> n \<le> length (es @ xs) \<and> g \<le> n - 1"
proof -
  note o = ordering_cluster [where net = net, OF net]
  have "pipe_inv cluster_stores es [0] 0 (pipe_start cl sv)"
    using ordering.pipe_inv_start [OF o s(1, 2)] s(3) by (simp add: fresh_pipe_def pipe_start_def)
  from ordering.pipe_inv_reach [OF o r this]
  obtain xs ms g where inv: "pipe_inv cluster_stores (es @ xs) ms g \<sigma>" by blast
  let ?k = "collected_upto ms (p_pc \<sigma>)" and ?n = "stored_upto ms (p_pc \<sigma>)"
  obtain cp where a: "queue_ok (es @ xs) ms (released (p_pc \<sigma>)) (p_cl \<sigma>)" "pc_ok ms (p_pc \<sigma>)"
    "primary_ok (es @ xs) ?k cp (p_sv \<sigma> (pri_dur_cli (p_cl \<sigma>)))" "cluster_stores (es @ xs) ?n g (backend (p_cl \<sigma>))" "g \<le> ms ! 0 - 1"
    "?k \<le> ?n" "?n \<le> last ms"
    by (rule pipe_invE [OF inv])
  have "last ms \<le> length (es @ xs)" using a(1) by (simp add: queue_ok_def)
  moreover have "ms ! 0 \<le> ?n"
    using a(2) queue_bounds(1) [OF a(1)] by (auto simp: pc_defs split: store_pc.splits)
  ultimately have "?n \<le> length (es @ xs)" "g \<le> ?n - 1" using a(5, 7) by linarith+
  moreover have "flat_inv (p_sv \<sigma> (pri_dur_cli (p_cl \<sigma>))) (es @ xs) ?k" using a(3) by (simp add: primary_ok_def)
  ultimately show ?thesis using a(4, 6) by blast
qed

text \<open>C5. The pipeline does not get stuck. In every reachable state, with no limit for a fetch or one that the largest entry fits in,
  either all entries of the primary are stored and published, or the store thread can take its next step, or the fetch
  thread can fetch a batch: the two threads never wait for each other.\<close>

theorem pipeline_no_deadlock:
  assumes net: "shard_cluster snet bnet r0 r1" "rdma_ok q" "\<And>u. serves (net u) DEL_ORDERED_ENTRIES (DeleteOrderedEntriesHandler resp0)"
    and s: "servers_ok es 0 bs kb cl sv" "cluster_stores es 0 0 (backend cl)" "fresh_pipe cl"
    and r: "pipe_reach (NaiveBackend_methods snet) q net (pipe_start cl sv) \<sigma>"
    and mx: "max_fetch_size (p_cl \<sigma>) = 0 \<or> unat SAFE_RG_SIZE \<le> unat (max_fetch_size (p_cl \<sigma>))"
  shows "(\<exists>xs. unat (sequencer (p_sv \<sigma> (pri_dur_cli (p_cl \<sigma>)))) = tsz (es @ xs) \<and>
      cluster_stores (es @ xs) (length (es @ xs)) (length (es @ xs) - 1) (backend (p_cl \<sigma>))) \<or>
    (\<exists>\<sigma>'. pipe_step (NaiveBackend_methods snet) q net \<sigma> \<sigma>' \<and>
      (p_pc \<sigma>' \<noteq> p_pc \<sigma> \<or> fetch_round (p_cl \<sigma>') = fetch_round (p_cl \<sigma>) + 1))"
proof -
  note o = ordering_cluster [where net = net, OF net]
  have "pipe_inv cluster_stores es [0] 0 (pipe_start cl sv)"
    using ordering.pipe_inv_start [OF o s(1, 2)] s(3) by (simp add: fresh_pipe_def pipe_start_def)
  from ordering.pipe_inv_reach [OF o r this]
  obtain xs ms g where inv: "pipe_inv cluster_stores (es @ xs) ms g \<sigma>" by blast
  obtain cp where a: "queue_ok (es @ xs) ms (released (p_pc \<sigma>)) (p_cl \<sigma>)"
    "primary_ok (es @ xs) (collected_upto ms (p_pc \<sigma>)) cp (p_sv \<sigma> (pri_dur_cli (p_cl \<sigma>)))"
    "cluster_stores (es @ xs) (stored_upto ms (p_pc \<sigma>)) g (backend (p_cl \<sigma>))" "p_pc \<sigma> = SIdle \<longrightarrow> g = ms ! 0 - 1"
    "stored_upto ms (p_pc \<sigma>) \<le> last ms"
    by (rule pipe_invE [OF inv])
  then have I: "flat_inv (p_sv \<sigma> (pri_dur_cli (p_cl \<sigma>))) (es @ xs) (collected_upto ms (p_pc \<sigma>))" by (simp add: primary_ok_def)
  have fit: "max_fetch_size (p_cl \<sigma>) = 0 \<or> (\<forall>e\<in>set (es @ xs). esz e \<le> unat (max_fetch_size (p_cl \<sigma>)))"
  proof -
    have "esz e \<le> unat SAFE_RG_SIZE" if "e \<in> set (es @ xs)" for e
      using flat_invD(2) [OF I] that unfolding numbered_def stored_ok_def in_set_conv_nth by blast
    with mx show ?thesis by (meson le_trans)
  qed
  show ?thesis
  proof (cases "p_pc \<sigma> \<noteq> SIdle \<or> ms ! 0 < length (es @ xs)")
    case True
    then show ?thesis using ordering.pipe_progress [OF o inv True fit] by blast
  next
    case False
    then have "stored_upto ms (p_pc \<sigma>) = length (es @ xs)" "g = length (es @ xs) - 1"
      using a(1, 4, 5) by (auto simp: pc_defs queue_ok_def)
    then show ?thesis using a(3) flat_invD(5) [OF I] by auto
  qed
qed

section \<open>Witnesses\<close>

abbreviation sample_step where
  "sample_step \<equiv> pipe_step (NaiveBackend_methods loopback_shards) copy_rdma (\<lambda>u t. DeleteOrderedEntriesHandler empty_msg)"

lemma sample_fresh: "fresh_pipe sample_cl"
  by (simp add: fresh_pipe_def sample_cl_def ConsensusLog_new_def no_batch_def)

theorem pipeline_safe_witness:
  "\<exists>sv \<sigma> xs k n g. sample_step (pipe_start sample_cl sv) \<sigma> \<and> flat_inv (p_sv \<sigma> (pri_dur_cli (p_cl \<sigma>))) (sample_log @ xs) k \<and>
    cluster_stores (sample_log @ xs) n g (backend (p_cl \<sigma>)) \<and> k \<le> n"
proof -
  obtain sv where sv: "servers_ok sample_log 0 (\<lambda>_. sample_log) (\<lambda>_. 0) sample_cl sv" using sample_system by blast
  have inv: "pipe_inv cluster_stores sample_log [0] 0 (pipe_start sample_cl sv)"
    using sys.pipe_inv_start [OF sv sample_stores] sample_fresh by (simp add: fresh_pipe_def pipe_start_def)
  have m: "max_fetch_size (p_cl (pipe_start sample_cl sv)) = 0" by (simp add: pipe_start_def sample_cl_def ConsensusLog_new_def)
  have w: "p_pc (pipe_start sample_cl sv) \<noteq> SIdle \<or> [0] ! 0 < length sample_log" by simp
  obtain \<sigma> where st: "sample_step (pipe_start sample_cl sv) \<sigma>"
    using sys.pipe_progress [OF inv w disjI1 [OF m]] by blast
  then have r: "(sample_step)\<^sup>*\<^sup>* (pipe_start sample_cl sv) \<sigma>" by (rule r_into_rtranclp)
  obtain xs k n g where "flat_inv (p_sv \<sigma> (pri_dur_cli (p_cl \<sigma>))) (sample_log @ xs) k"
    "cluster_stores (sample_log @ xs) n g (backend (p_cl \<sigma>))" "k \<le> n"
    using pipeline_safe [OF sample_net sv sample_stores sample_fresh r] by blast
  with st show ?thesis by blast
qed

theorem pipeline_no_deadlock_witness:
  "\<exists>sv. (\<exists>xs. unat (sequencer (sv ''p'')) = tsz (sample_log @ xs) \<and>
      cluster_stores (sample_log @ xs) (length (sample_log @ xs)) (length (sample_log @ xs) - 1) (fresh_backend 3 2, fresh_cluster 3 2)) \<or>
    (\<exists>\<sigma>'. sample_step (pipe_start sample_cl sv) \<sigma>' \<and> (p_pc \<sigma>' \<noteq> SIdle \<or> fetch_round (p_cl \<sigma>') = 1))"
proof -
  obtain sv where sv: "servers_ok sample_log 0 (\<lambda>_. sample_log) (\<lambda>_. 0) sample_cl sv" using sample_system by blast
  have "p_cl (pipe_start sample_cl sv) = sample_cl" "p_pc (pipe_start sample_cl sv) = SIdle" "p_sv (pipe_start sample_cl sv) = sv"
    "max_fetch_size sample_cl = 0" "pri_dur_cli sample_cl = ''p''" "backend sample_cl = (fresh_backend 3 2, fresh_cluster 3 2)"
    "fetch_round sample_cl = 0"
    by (simp_all add: pipe_start_def sample_cl_def ConsensusLog_new_def)
  then show ?thesis
    using pipeline_no_deadlock [OF sample_net sv sample_stores sample_fresh rtranclp.rtrancl_refl] by simp blast
qed

end
