(* ===== verification/Shard_Steps.thy ===== *)
theory Shard_Steps
  imports Shard_Log
begin

text \<open>
  The threads of a storage shard at work. The event loop of the primary runs \<^verbatim>\<open>AppendBatchHandler\<close>, the backups run
  \<^verbatim>\<open>ReplicateBatchHandler\<close>, and any number of reader threads run \<^verbatim>\<open>ReadEntryHandler\<close>. A step is one critical
  section: the arrival of a batch with the requests to the backups, the store at the primary, the store at one
  backup, the commit (which waits for all backups), an update of the global index, and the sections of a reader
  (check, load, recheck). A reader that has to wait may wake up at any time, as after a notification.

  The order of steps is arbitrary. \<open>committed\<close> counts the entries of the log whose batches have been committed.
\<close>

datatype reader_pc = RCheck | RLoad | RRecheck bool | RWait | RDone LogEntry

record ShardSys =
  prim :: ShardServer
  baks :: "(ShardServer \<times> bool) list"
  cur :: "(MsgBuffer \<times> nat \<times> bool) option"
  readers :: "(u64 \<times> reader_pc) list"
  committed :: nat

definition reader_served :: "ShardServer \<Rightarrow> u64 \<Rightarrow> reader_pc" where
  "reader_served st idx = (case ReadEntry_serve st idx of None \<Rightarrow> RWait | Some e \<Rightarrow> RDone e)"

inductive shard_step :: "nat \<Rightarrow> nat \<Rightarrow> LogEntry list \<Rightarrow> nat \<Rightarrow> ShardSys \<Rightarrow> ShardSys \<Rightarrow> bool"
  for N U :: nat and L :: "LogEntry list" and s :: nat where
  Arrive: "cur \<sigma> = None \<Longrightarrow> shard_batch N U L (committed \<sigma>) m s req \<Longrightarrow>
    shard_step N U L s \<sigma> (\<sigma>\<lparr>cur := Some (req, m, False), baks := map (\<lambda>(b, _). (b, False)) (baks \<sigma>)\<rparr>)"
| Store: "cur \<sigma> = Some (req, m, False) \<Longrightarrow>
    store_batch (prim \<sigma>) (batch_base_idx (prim \<sigma>) req) (buf req) = Some (r, st) \<Longrightarrow>
    shard_step N U L s \<sigma> (\<sigma>\<lparr>prim := st, cur := Some (req, m, True)\<rparr>)"
| Backup: "cur \<sigma> = Some (req, m, x) \<Longrightarrow> i < length (baks \<sigma>) \<Longrightarrow> baks \<sigma> ! i = (b, False) \<Longrightarrow> same_msg req req' \<Longrightarrow>
    ReplicateBatchHandler resp req' b = Some (r, b') \<Longrightarrow>
    shard_step N U L s \<sigma> (\<sigma>\<lparr>baks := (baks \<sigma>)[i := (b', True)]\<rparr>)"
| Commit: "cur \<sigma> = Some (req, m, True) \<Longrightarrow> list_all snd (baks \<sigma>) \<Longrightarrow>
    commit_batch (prim \<sigma>) (batch_base_idx (prim \<sigma>) req) = Some st \<Longrightarrow>
    shard_step N U L s \<sigma> (\<sigma>\<lparr>prim := st, cur := None, committed := m\<rparr>)"
| Global: "shard_step N U L s \<sigma> (\<sigma>\<lparr>prim := (prim \<sigma>)\<lparr>global_index := g\<rparr>\<rparr>)"
| Read: "unat idx mod N = s \<Longrightarrow> shard_step N U L s \<sigma> (\<sigma>\<lparr>readers := readers \<sigma> @ [(idx, RCheck)]\<rparr>)"
| Check: "i < length (readers \<sigma>) \<Longrightarrow> readers \<sigma> ! i = (idx, RCheck) \<Longrightarrow>
    pc = (if ReadEntry_check (prim \<sigma>) (base_idx_of (prim \<sigma>) idx) then reader_served (prim \<sigma>) idx else RLoad) \<Longrightarrow>
    shard_step N U L s \<sigma> (\<sigma>\<lparr>readers := (readers \<sigma>)[i := (idx, pc)]\<rparr>)"
| Load: "i < length (readers \<sigma>) \<Longrightarrow> readers \<sigma> ! i = (idx, RLoad) \<Longrightarrow>
    ReadEntry_load (prim \<sigma>) (base_idx_of (prim \<sigma>) idx) = Some (l, st) \<Longrightarrow>
    shard_step N U L s \<sigma> (\<sigma>\<lparr>prim := st, readers := (readers \<sigma>)[i := (idx, RRecheck l)]\<rparr>)"
| Recheck: "i < length (readers \<sigma>) \<Longrightarrow> readers \<sigma> ! i = (idx, RRecheck l) \<Longrightarrow>
    pc = (if \<not> l \<and> \<not> ReadEntry_check (prim \<sigma>) (base_idx_of (prim \<sigma>) idx) then RWait else reader_served (prim \<sigma>) idx) \<Longrightarrow>
    shard_step N U L s \<sigma> (\<sigma>\<lparr>readers := (readers \<sigma>)[i := (idx, pc)]\<rparr>)"
| Wake: "i < length (readers \<sigma>) \<Longrightarrow> readers \<sigma> ! i = (idx, RWait) \<Longrightarrow>
    shard_step N U L s \<sigma> (\<sigma>\<lparr>readers := (readers \<sigma>)[i := (idx, RCheck)]\<rparr>)"

inductive_cases shard_stepE: "shard_step N U L s \<sigma> \<sigma>'"

inductive shard_reach :: "nat \<Rightarrow> nat \<Rightarrow> LogEntry list \<Rightarrow> nat \<Rightarrow> ShardSys \<Rightarrow> ShardSys \<Rightarrow> bool"
  for N U :: nat and L :: "LogEntry list" and s :: nat and \<sigma>0 :: ShardSys where
  init [intro]: "shard_reach N U L s \<sigma>0 \<sigma>0"
| step [intro]: "shard_reach N U L s \<sigma>0 \<sigma> \<Longrightarrow> shard_step N U L s \<sigma> \<sigma>' \<Longrightarrow> shard_reach N U L s \<sigma>0 \<sigma>'"

text \<open>Number of entries of the log that the primary and a backup hold.\<close>

definition prim_upto :: "ShardSys \<Rightarrow> nat" where
  "prim_upto \<sigma> = (case cur \<sigma> of Some (req, m, True) \<Rightarrow> m | _ \<Rightarrow> committed \<sigma>)"

definition bak_upto :: "ShardSys \<Rightarrow> bool \<Rightarrow> nat" where
  "bak_upto \<sigma> d = (case cur \<sigma> of Some (req, m, _) \<Rightarrow> if d then m else committed \<sigma> | _ \<Rightarrow> committed \<sigma>)"

lemma upto_upd [simp]:
  "prim_upto (\<sigma>\<lparr>prim := x\<rparr>) = prim_upto \<sigma>" "bak_upto (\<sigma>\<lparr>prim := x\<rparr>) = bak_upto \<sigma>"
  "prim_upto (\<sigma>\<lparr>readers := y\<rparr>) = prim_upto \<sigma>" "bak_upto (\<sigma>\<lparr>readers := y\<rparr>) = bak_upto \<sigma>"
  "prim_upto (\<sigma>\<lparr>baks := z\<rparr>) = prim_upto \<sigma>" "bak_upto (\<sigma>\<lparr>baks := z\<rparr>) = bak_upto \<sigma>"
  by (auto simp: prim_upto_def bak_upto_def fun_eq_iff split: option.split prod.split bool.split)

definition reader_ok :: "nat \<Rightarrow> LogEntry list \<Rightarrow> nat \<Rightarrow> nat \<Rightarrow> u64 \<times> reader_pc \<Rightarrow> bool" where
  "reader_ok N L s n r \<longleftrightarrow> unat (fst r) mod N = s \<and>
     (case snd r of RDone e \<Rightarrow> e = L ! unat (fst r) \<and> (unat (fst r) < n \<or> fst r = 0) | _ \<Rightarrow> True)"

definition sys_inv :: "nat \<Rightarrow> nat \<Rightarrow> LogEntry list \<Rightarrow> nat \<Rightarrow> ShardSys \<Rightarrow> bool" where
  "sys_inv N U L s \<sigma> \<longleftrightarrow> log_ok L \<and> shard_holds N U L (prim_upto \<sigma>) s (prim \<sigma>) \<and>
     list_all (\<lambda>(b, d). shard_holds N U L (bak_upto \<sigma> d) s b) (baks \<sigma>) \<and>
     (\<forall>req m x. cur \<sigma> = Some (req, m, x) \<longrightarrow> shard_batch N U L (committed \<sigma>) m s req) \<and>
     (unat (replicated_index (prim \<sigma>)) < committed \<sigma> \<or> replicated_index (prim \<sigma>) = 0) \<and>
     list_all (reader_ok N L s (committed \<sigma>)) (readers \<sigma>)"

lemma ReadEntry_load_id:
  assumes "store_inv st" "ReadEntry_load st b = Some (l, st')"
  shows "st' = st"
proof (cases "entries_cache_set st b")
  case None
  then have "files (os st) (getDataFilePath st b) = None"
    using assms(1) by (auto simp: store_inv_def split: option.splits dest: spec [of _ b])
  then show ?thesis
    using assms(2) None by (simp add: ReadEntry_load_def loadFromDiskToCache_def open_rdonly_def)
qed (use assms(2) in \<open>simp add: ReadEntry_load_def\<close>)

lemma reader_served_ok:
  assumes "sys_inv N U L s \<sigma>" "unat idx mod N = s"
  shows "reader_ok N L s (committed \<sigma>) (idx, reader_served (prim \<sigma>) idx)"
proof -
  have h: "shard_holds N U L (prim_upto \<sigma>) s (prim \<sigma>)"
    and r: "unat (replicated_index (prim \<sigma>)) < committed \<sigma> \<or> replicated_index (prim \<sigma>) = 0"
    using assms(1) by (auto simp: sys_inv_def)
  have "idx = 0" if "idx \<le> (0 :: u64)" using that by simp
  then show ?thesis
    using ReadEntry_serve_eq [OF h assms(2)] r assms(2)
    by (auto simp: reader_served_def reader_ok_def word_le_nat_alt)
qed

lemma readers_update:
  assumes "list_all (reader_ok N L s n) rs" "i < length rs" "reader_ok N L s n r"
  shows "list_all (reader_ok N L s n) (rs[i := r])"
  using assms by (auto simp: list_all_iff dest!: subsetD [OF set_update_subset_insert])

lemma reader_ok_nth: "sys_inv N U L s \<sigma> \<Longrightarrow> i < length (readers \<sigma>) \<Longrightarrow> readers \<sigma> ! i = (idx, pc) \<Longrightarrow> unat idx mod N = s"
  by (auto simp: sys_inv_def list_all_length reader_ok_def)

lemma reader_ok_mono: "reader_ok N L s n r \<Longrightarrow> n \<le> m \<Longrightarrow> reader_ok N L s m r"
  by (auto simp: reader_ok_def split: reader_pc.splits)

lemma last_cached_bound:
  assumes L: "log_ok L" and h: "shard_holds N U L n s st" and ne: "cached st b \<noteq> []"
  shows "unat (log_idx (last (cached st b))) < n"
proof -
  have "U * N dvd unat b" using h ne by (auto simp: shard_holds_def cached_def split: option.splits)
  note c = shard_holdsD(8) [OF h this]
  let ?is = "shard_idxs N U s (unat b div (U * N)) n"
  have "?is \<noteq> []" using ne c by simp
  then have "last ?is \<in> set ?is" "last (cached st b) = L ! last ?is" using c by (simp_all add: last_map)
  moreover from this have "last ?is < n" by (auto simp: shard_idxs_def)
  ultimately show ?thesis
    using L shard_holdsD(7) [OF h] by (simp add: log_ok_def unat_of_nat_small)
qed

lemma last_stored:
  assumes L: "log_ok L" and h: "shard_holds N U L m s st" and rq: "shard_batch N U L n m s req"
  shows "cached st (batch_base_idx st req) \<noteq> []"
    and "unat (log_idx (last (cached st (batch_base_idx st req)))) = last (filter (\<lambda>i. i mod N = s) [n..<m])"
proof -
  note H = shard_holdsD [OF h]
  let ?b = "batch_base_idx st req" and ?q = "n div (U * N)" and ?new = "filter (\<lambda>i. i mod N = s) [n..<m]"
  have b: "unat ?b = ?q * (U * N)" by (rule batch_base_idx_eq [OF L h rq])
  have B: "0 < U * N" using H(5, 6) by simp
  have R: "n \<le> m" "?new \<noteq> []" "n div (U * N) = (m - 1) div (U * N)" "m \<le> length L" using rq by (simp_all add: shard_batch_def)
  have c: "cached st ?b = map ((!) L) (shard_idxs N U s ?q n @ ?new)"
    using H(8) [of ?b] B shard_idxs_extend(1) [OF R(1) same_stripe [OF R(3)], of s] by (simp add: b)
  then show "cached st ?b \<noteq> []" using R(2) by simp
  have "last ?new \<in> set ?new" by (rule last_in_set [OF R(2)])
  then have "last ?new < length L" using R(4) by auto
  then show "unat (log_idx (last (cached st ?b))) = last ?new"
    using L R(2) unfolding c by (simp add: last_map log_ok_def unat_of_nat_small)
qed

text \<open>The steps of the writing threads: storing a batch on the primary, storing it on a backup, committing it.\<close>

lemma sys_inv_store:
  assumes inv: "sys_inv N U L s \<sigma>" and c: "cur \<sigma> = Some (req, m, False)"
    and st: "store_batch (prim \<sigma>) (batch_base_idx (prim \<sigma>) req) (buf req) = Some (r, st)"
  shows "sys_inv N U L s (\<sigma>\<lparr>prim := st, cur := Some (req, m, True)\<rparr>)"
proof -
  let ?\<sigma> = "\<sigma>\<lparr>prim := st, cur := Some (req, m, True)\<rparr>"
  have L: "log_ok L" and h: "shard_holds N U L (committed \<sigma>) s (prim \<sigma>)" and b: "shard_batch N U L (committed \<sigma>) m s req"
    using inv c by (auto simp: sys_inv_def prim_upto_def)
  have "shard_holds N U L m s st" "same_indices (prim \<sigma>) st"
    using store_batch_holds [OF L h b] st by auto
  moreover have "prim_upto ?\<sigma> = m" "bak_upto ?\<sigma> = bak_upto \<sigma>"
    using c by (auto simp: prim_upto_def bak_upto_def fun_eq_iff)
  ultimately show ?thesis
    using inv c by (auto simp: sys_inv_def same_indices_def)
qed

lemma sys_inv_backup:
  assumes inv: "sys_inv N U L s \<sigma>" and c: "cur \<sigma> = Some (req, m, x)" and i: "i < length (baks \<sigma>)" "baks \<sigma> ! i = (b, False)"
    and r: "same_msg req req'" "ReplicateBatchHandler resp req' b = Some (r, b')"
  shows "sys_inv N U L s (\<sigma>\<lparr>baks := (baks \<sigma>)[i := (b', True)]\<rparr>)"
proof -
  have L: "log_ok L" and bs: "list_all (\<lambda>(b, d). shard_holds N U L (bak_upto \<sigma> d) s b) (baks \<sigma>)"
    and rq: "shard_batch N U L (committed \<sigma>) m s req" using inv c by (auto simp: sys_inv_def)
  have "shard_holds N U L (committed \<sigma>) s b"
    using bs c i by (auto simp: list_all_length bak_upto_def dest!: spec [of _ i])
  then have "shard_holds N U L m s b'"
    using ReplicateBatchHandler_holds [OF L _ shard_batch_same [OF rq r(1)], of b resp] r(2) by auto
  then show ?thesis
    using inv c by (auto simp: sys_inv_def list_all_iff bak_upto_def dest!: subsetD [OF set_update_subset_insert])
qed

lemma sys_inv_commit:
  assumes inv: "sys_inv N U L s \<sigma>" and c: "cur \<sigma> = Some (req, m, True)" "list_all snd (baks \<sigma>)"
    and st: "commit_batch (prim \<sigma>) (batch_base_idx (prim \<sigma>) req) = Some st"
  shows "sys_inv N U L s (\<sigma>\<lparr>prim := st, cur := None, committed := m\<rparr>)"
proof -
  have L: "log_ok L" and h: "shard_holds N U L m s (prim \<sigma>)" and rq: "shard_batch N U L (committed \<sigma>) m s req"
    using inv c(1) by (auto simp: sys_inv_def prim_upto_def)
  have st: "st = (prim \<sigma>)\<lparr>replicated_index := log_idx (last (cached (prim \<sigma>) (batch_base_idx (prim \<sigma>) req)))\<rparr>"
    "cached (prim \<sigma>) (batch_base_idx (prim \<sigma>) req) \<noteq> []"
    using st by (auto simp: commit_batch_def split: if_splits)
  have "list_all (\<lambda>(b, d). shard_holds N U L m s b) (baks \<sigma>)"
    using inv c by (fastforce simp: sys_inv_def bak_upto_def list_all_iff)
  moreover have "list_all (reader_ok N L s m) (readers \<sigma>)"
    using inv rq reader_ok_mono [of N L s "committed \<sigma>" _ m] by (auto simp: sys_inv_def list_all_iff shard_batch_def)
  ultimately show ?thesis
    using L h st(1) last_cached_bound [OF L h st(2)]
    by (auto simp: sys_inv_def prim_upto_def bak_upto_def case_prod_beta)
qed

text \<open>A reader that moves on to a good state keeps the invariant.\<close>

lemma sys_inv_reader:
  assumes inv: "sys_inv N U L s \<sigma>" and "i < length (readers \<sigma>)" "reader_ok N L s (committed \<sigma>) (idx, pc)"
  shows "sys_inv N U L s (\<sigma>\<lparr>readers := (readers \<sigma>)[i := (idx, pc)]\<rparr>)"
  using assms readers_update by (auto simp: sys_inv_def)

lemma sys_inv_step:
  assumes inv: "sys_inv N U L s \<sigma>" and step: "shard_step N U L s \<sigma> \<sigma>'"
  shows "sys_inv N U L s \<sigma>'"
  using step
proof cases
  case (Arrive m req)
  then show ?thesis
    using inv by (auto simp: sys_inv_def prim_upto_def bak_upto_def list_all_iff case_prod_beta)
next
  case (Global g)
  then show ?thesis using inv by (auto simp: sys_inv_def)
next
  case (Read idx)
  then show ?thesis using inv by (auto simp: sys_inv_def reader_ok_def)
next
  case (Check i idx pc)
  have i: "unat idx mod N = s" using reader_ok_nth [OF inv Check(2, 3)] .
  have "reader_ok N L s (committed \<sigma>) (idx, pc)" using reader_served_ok [OF inv i] i Check(4) by (auto simp: reader_ok_def)
  then show ?thesis unfolding Check(1) by (rule sys_inv_reader [OF inv Check(2)])
next
  case (Load i idx l st)
  have i: "unat idx mod N = s" using reader_ok_nth [OF inv Load(2, 3)] .
  have "store_inv (prim \<sigma>)" using inv shard_holdsD(1) by (auto simp: sys_inv_def)
  then have "st = prim \<sigma>" using ReadEntry_load_id Load(4) by blast
  then show ?thesis using i Load(1) sys_inv_reader [OF inv Load(2), of idx "RRecheck l"] by (simp add: reader_ok_def)
next
  case (Recheck i idx l pc)
  have i: "unat idx mod N = s" using reader_ok_nth [OF inv Recheck(2, 3)] .
  have "reader_ok N L s (committed \<sigma>) (idx, pc)" using reader_served_ok [OF inv i] i Recheck(4) by (auto simp: reader_ok_def)
  then show ?thesis unfolding Recheck(1) by (rule sys_inv_reader [OF inv Recheck(2)])
next
  case (Wake i idx)
  have "reader_ok N L s (committed \<sigma>) (idx, RCheck)" using reader_ok_nth [OF inv Wake(2, 3)] by (simp add: reader_ok_def)
  then show ?thesis unfolding Wake(1) by (rule sys_inv_reader [OF inv Wake(2)])
qed (simp_all add: sys_inv_store [OF inv] sys_inv_backup [OF inv] sys_inv_commit [OF inv])

lemma sys_inv_reach: "shard_reach N U L s \<sigma>0 \<sigma> \<Longrightarrow> sys_inv N U L s \<sigma>0 \<Longrightarrow> sys_inv N U L s \<sigma>"
  by (induction rule: shard_reach.induct) (auto intro: sys_inv_step)

section \<open>Progress\<close>

lemma shard_reach_trans: "shard_reach N U L s \<sigma>1 \<sigma>2 \<Longrightarrow> shard_reach N U L s \<sigma>0 \<sigma>1 \<Longrightarrow> shard_reach N U L s \<sigma>0 \<sigma>2"
  by (induction rule: shard_reach.induct) auto

lemma backups_finish:
  assumes "sys_inv N U L s \<sigma>" "cur \<sigma> = Some (req, m, x)"
  shows "\<exists>bs. shard_reach N U L s \<sigma> (\<sigma>\<lparr>baks := bs\<rparr>) \<and> list_all snd bs"
  using assms
proof (induction "length (filter (Not \<circ> snd) (baks \<sigma>))" arbitrary: \<sigma> rule: less_induct)
  case less
  show ?case
  proof (cases "list_all snd (baks \<sigma>)")
    case True
    then show ?thesis by (intro exI [of _ "baks \<sigma>"]) auto
  next
    case False
    then obtain i b where i: "i < length (baks \<sigma>)" "baks \<sigma> ! i = (b, False)"
      by (auto simp: list_all_length prod_eq_iff)
    have L: "log_ok L" and bs: "list_all (\<lambda>(b, d). shard_holds N U L (bak_upto \<sigma> d) s b) (baks \<sigma>)"
      and rq: "shard_batch N U L (committed \<sigma>) m s req" using less.prems by (auto simp: sys_inv_def)
    have "shard_holds N U L (committed \<sigma>) s b"
      using bs i less.prems(2) by (auto simp: list_all_length bak_upto_def dest!: spec [of _ i])
    then obtain r b' where "ReplicateBatchHandler empty_msg req b = Some (r, b')"
      using ReplicateBatchHandler_holds [OF L _ rq] by blast
    then have st: "shard_step N U L s \<sigma> (\<sigma>\<lparr>baks := (baks \<sigma>)[i := (b', True)]\<rparr>)" (is "shard_step _ _ _ _ _ ?\<sigma>")
      using less.prems(2) i by (intro shard_step.Backup [where req' = req]) auto
    have "length (filter (Not \<circ> snd) (baks ?\<sigma>)) < length (filter (Not \<circ> snd) (baks \<sigma>))"
      using i by (simp add: upd_conv_take_nth_drop id_take_nth_drop [of i "baks \<sigma>", THEN arg_cong [where f = "filter (Not \<circ> snd)"]])
    then obtain bs where "shard_reach N U L s ?\<sigma> (?\<sigma>\<lparr>baks := bs\<rparr>)" "list_all snd bs"
      using less.hyps [of ?\<sigma>] sys_inv_step [OF less.prems(1) st] less.prems(2) by auto
    moreover have "shard_reach N U L s \<sigma> ?\<sigma>" using st by blast
    ultimately show ?thesis
      using shard_reach_trans by (intro exI [of _ bs]) fastforce
  qed
qed

lemma append_commits_reach:
  assumes inv: "sys_inv N U L s \<sigma>" and c: "cur \<sigma> = Some (req, m, x)"
  shows "\<exists>\<sigma>'. shard_reach N U L s \<sigma> \<sigma>' \<and> cur \<sigma>' = None \<and> committed \<sigma>' = m \<and> readers \<sigma>' = readers \<sigma> \<and>
    unat (replicated_index (prim \<sigma>')) = last (filter (\<lambda>i. i mod N = s) [committed \<sigma>..<m])"
proof -
  have L: "log_ok L" and rq: "shard_batch N U L (committed \<sigma>) m s req" using inv c by (auto simp: sys_inv_def)
  obtain st where st: "shard_reach N U L s \<sigma> (\<sigma>\<lparr>prim := st, cur := Some (req, m, True)\<rparr>)" (is "shard_reach _ _ _ _ _ ?\<sigma>")
  proof (cases x)
    case True
    then have "\<sigma>\<lparr>prim := prim \<sigma>, cur := Some (req, m, True)\<rparr> = \<sigma>" using c by simp
    then show thesis using that [of "prim \<sigma>"] by auto
  next
    case False
    then have "shard_holds N U L (committed \<sigma>) s (prim \<sigma>)" using inv c by (simp add: sys_inv_def prim_upto_def)
    then obtain st where "store_batch (prim \<sigma>) (batch_base_idx (prim \<sigma>) req) (buf req) = Some (0, st)"
      using store_batch_holds [OF L _ rq] by blast
    then show thesis using that [of st] c False by (auto intro: shard_step.Store)
  qed
  have inv1: "sys_inv N U L s ?\<sigma>" by (rule sys_inv_reach [OF st inv])
  obtain bs where bs: "shard_reach N U L s ?\<sigma> (?\<sigma>\<lparr>baks := bs\<rparr>)" "list_all snd bs"
    using backups_finish [OF inv1] by auto
  let ?\<sigma>2 = "?\<sigma>\<lparr>baks := bs\<rparr>"
  have h: "shard_holds N U L m s st" using inv1 by (simp add: sys_inv_def prim_upto_def)
  note la = last_stored [OF L h rq]
  then have "shard_step N U L s ?\<sigma>2 (?\<sigma>2\<lparr>prim := st\<lparr>replicated_index := log_idx (last (cached st (batch_base_idx st req)))\<rparr>,
      cur := None, committed := m\<rparr>)" (is "shard_step _ _ _ _ _ ?\<sigma>3")
    using bs(2) by (intro shard_step.Commit [where req = req]) (simp_all add: commit_batch_def)
  then have "shard_reach N U L s \<sigma> ?\<sigma>3" using st bs(1) shard_reach_trans by blast
  then show ?thesis using la(2) by (intro exI [of _ ?\<sigma>3]) simp
qed

text \<open>Progress of an append: from every reachable situation in which a batch has arrived, the shard can reach the state in
  which the batch is committed, whatever the other threads have done so far, and the replicated index is then the last
  index of the batch.\<close>

theorem append_commits:
  assumes inv: "sys_inv N U L s \<sigma>" and c: "cur \<sigma> = Some (req, m, x)"
  shows "\<exists>\<sigma>'. shard_reach N U L s \<sigma> \<sigma>' \<and> cur \<sigma>' = None \<and> committed \<sigma>' = m \<and> readers \<sigma>' = readers \<sigma> \<and>
    unat (replicated_index (prim \<sigma>')) = last (filter (\<lambda>i. i mod N = s) [committed \<sigma>..<m])"
  by (rule append_commits_reach [OF assms])

definition sys_start :: "nat \<Rightarrow> nat \<Rightarrow> nat \<Rightarrow> nat \<Rightarrow> ShardSys" where
  "sys_start N U s k = \<lparr>prim = fresh_shard N U s, baks = replicate k (fresh_shard N U s, True), cur = None, readers = [], committed = 0\<rparr>"

lemma sys_start_inv:
  assumes "log_ok L" "0 < U" "s < N" "N < 2 ^ 31" "U * N < 2 ^ 64"
  shows "sys_inv N U L s (sys_start N U s k)"
  using assms fresh_shard_holds [OF assms(2-5)]
  by (simp add: sys_inv_def sys_start_def prim_upto_def bak_upto_def list_all_iff)

text \<open>C9. Readers against appends. Whatever the order in which the threads of a fresh shard and its backups take their steps, a reader
  that has been answered for an index other than 0 got exactly the entry of the log with that index, and at that
  moment the primary and every backup of the shard hold the entry, in memory and on disk: no reader sees an entry that the failure
  of the primary could take back.\<close>

theorem readers_see_replicated:
  assumes "log_ok L" "0 < U" "s < N" "N < 2 ^ 31" "U * N < 2 ^ 64"
    and "shard_reach N U L s (sys_start N U s k) \<sigma>" and r: "(idx, RDone e) \<in> set (readers \<sigma>)" "idx \<noteq> 0"
  shows "e = L ! unat idx \<and> (\<exists>n. unat idx < n \<and> shard_holds N U L n s (prim \<sigma>)) \<and>
    (\<forall>(b, d)\<in>set (baks \<sigma>). \<exists>n. unat idx < n \<and> shard_holds N U L n s b)"
proof -
  have inv: "sys_inv N U L s \<sigma>" by (rule sys_inv_reach [OF assms(6) sys_start_inv [OF assms(1-5)]])
  then have e: "e = L ! unat idx" "unat idx < committed \<sigma>"
    using r by (auto simp: sys_inv_def list_all_iff reader_ok_def)
  have cm: "committed \<sigma> \<le> m" if "cur \<sigma> = Some (req, m, x)" for req m x
    using inv that by (auto simp: sys_inv_def shard_batch_def)
  have u: "unat idx < prim_upto \<sigma>" "unat idx < bak_upto \<sigma> d" for d
    using cm e(2) less_le_trans by (force simp: prim_upto_def bak_upto_def split: option.split bool.split)+
  have "\<exists>n. unat idx < n \<and> shard_holds N U L n s b" if "(b, d) \<in> set (baks \<sigma>)" for b d
    using inv that u(2) [of d] by (fastforce simp: sys_inv_def list_all_iff)
  moreover have "shard_holds N U L (prim_upto \<sigma>) s (prim \<sigma>)" using inv by (simp add: sys_inv_def)
  ultimately show ?thesis using e(1) u(1) by blast
qed

text \<open>C35. Index 0 is not protected: both the replicated index and the global index start at 0, so a reader of index 0 is answered as
  soon as the primary has the first entry in its cache, before a backup holds it, before the batch is committed and before
  the global index is published.\<close>

theorem reader_sees_unreplicated_0:
  assumes "log_ok L" "0 < U" "0 < N" "N < 2 ^ 31" "U * N < 2 ^ 64" and req: "shard_batch N U L 0 m 0 req"
  shows "\<exists>\<sigma>. shard_reach N U L 0 (sys_start N U 0 k) \<sigma> \<and> (0, RDone (L ! 0)) \<in> set (readers \<sigma>) \<and>
    committed \<sigma> = 0 \<and> list_all (\<lambda>(b, d). entries_cache_set b = Map.empty) (baks \<sigma>)"
proof -
  let ?s0 = "sys_start N U 0 k"
  let ?s1 = "?s0\<lparr>cur := Some (req, m, False), baks := map (\<lambda>(b, _). (b, False)) (baks ?s0)\<rparr>"
  have h: "shard_holds N U L 0 0 (fresh_shard N U 0)" by (rule fresh_shard_holds [OF assms(2-5)])
  have "shard_step N U L 0 ?s0 ?s1" using req by (intro shard_step.Arrive) (simp_all add: sys_start_def)
  then have r1: "shard_reach N U L 0 ?s0 ?s1" by blast
  obtain st where st: "store_batch (fresh_shard N U 0) (batch_base_idx (fresh_shard N U 0) req) (buf req) = Some (0, st)"
    "shard_holds N U L m 0 st" "same_indices (fresh_shard N U 0) st"
    using store_batch_holds [OF assms(1) h req] by blast
  let ?s2 = "?s1\<lparr>prim := st, cur := Some (req, m, True)\<rparr>" and ?s3 = "?s1\<lparr>prim := st, cur := Some (req, m, True), readers := [(0, RCheck)]\<rparr>"
  have "shard_step N U L 0 ?s1 ?s2" using st(1) by (intro shard_step.Store [where m = m and r = 0]) (simp_all add: sys_start_def)
  then have r2: "shard_reach N U L 0 ?s0 ?s2" using r1 by blast
  have "shard_step N U L 0 ?s2 (?s2\<lparr>readers := readers ?s2 @ [(0, RCheck)]\<rparr>)" by (rule shard_step.Read) simp
  then have r3: "shard_reach N U L 0 ?s0 ?s3" using r2 by (auto simp: sys_start_def)
  have m: "0 < m" using req by (simp add: shard_batch_def)
  have sv: "ReadEntry_serve st 0 = Some (L ! 0)"
    using ReadEntry_serve_eq [OF st(2), of 0] m by simp
  then have "entries_cache_set st (base_idx_of st 0) \<noteq> None"
    by (auto simp: ReadEntry_serve_def cached_def Let_def split: option.splits if_splits)
  then have pc: "RDone (L ! 0) = (if ReadEntry_check (prim ?s3) (base_idx_of (prim ?s3) 0) then reader_served (prim ?s3) 0 else RLoad)"
    using sv by (simp add: ReadEntry_check_def reader_served_def)
  have "shard_step N U L 0 ?s3 (?s3\<lparr>readers := (readers ?s3)[0 := (0, RDone (L ! 0))]\<rparr>)"
    by (rule shard_step.Check [OF _ _ pc]) simp_all
  then have "shard_reach N U L 0 ?s0 (?s3\<lparr>readers := (readers ?s3)[0 := (0, RDone (L ! 0))]\<rparr>)" using r3 by blast
  then show ?thesis
    by (intro exI conjI) (assumption, simp_all add: sys_start_def list_all_iff)
qed

section \<open>Witnesses\<close>

lemma first_batch: "shard_batch 1 2 (plain_log 2) 0 2 0 (batch_message [plain_entry 0, plain_entry 1])"
proof -
  have "filter (\<lambda>i. i mod 1 = 0) [0..<2] = [0, 1 :: nat]" by code_simp
  moreover have "batch_msg (batch_message [plain_entry 0, plain_entry 1]) [plain_entry 0, plain_entry 1]"
    by (rule batch_message_ok) simp_all
  ultimately show ?thesis by (simp add: shard_batch_def)
qed

theorem reader_sees_unreplicated_0_witness:
  "\<exists>\<sigma>. shard_reach 1 2 (plain_log 2) 0 (sys_start 1 2 0 1) \<sigma> \<and> (0, RDone (plain_entry 0)) \<in> set (readers \<sigma>) \<and>
    committed \<sigma> = 0"
  using reader_sees_unreplicated_0 [OF plain_log_ok _ _ _ _ first_batch, of 1] by auto

definition batch_arrived :: ShardSys where
  "batch_arrived = (sys_start 1 2 0 1)\<lparr>cur := Some (batch_message [plain_entry 0, plain_entry 1], 2, False),
     baks := map (\<lambda>(b, _). (b, False)) (baks (sys_start 1 2 0 1))\<rparr>"

lemma batch_arrived_reach: "shard_reach 1 2 (plain_log 2) 0 (sys_start 1 2 0 1) batch_arrived"
  unfolding batch_arrived_def
  by (rule shard_reach.step [OF shard_reach.init], rule shard_step.Arrive)
    (use first_batch in \<open>simp_all add: sys_start_def\<close>)

lemma batch_arrived_inv: "sys_inv 1 2 (plain_log 2) 0 batch_arrived"
  by (rule sys_inv_reach [OF batch_arrived_reach sys_start_inv]) (simp_all add: plain_log_ok)

lemma batch_arrived_simps [simp]:
  "cur batch_arrived = Some (batch_message [plain_entry 0, plain_entry 1], 2, False)" "committed batch_arrived = 0" "readers batch_arrived = []"
  by (simp_all add: batch_arrived_def sys_start_def)

theorem append_commits_witness:
  "\<exists>\<sigma>'. shard_reach 1 2 (plain_log 2) 0 batch_arrived \<sigma>' \<and> committed \<sigma>' = 2 \<and> unat (replicated_index (prim \<sigma>')) = 1"
proof -
  have "filter (\<lambda>i. i mod 1 = 0) [0..<2] = [0, 1 :: nat]" by code_simp
  then show ?thesis
    using append_commits [OF batch_arrived_inv batch_arrived_simps(1)] by auto
qed

theorem readers_see_replicated_witness:
  "\<exists>\<sigma>. shard_reach 1 2 (plain_log 2) 0 (sys_start 1 2 0 1) \<sigma> \<and> (1, RDone (plain_entry 1)) \<in> set (readers \<sigma>) \<and>
    (\<forall>(b, d)\<in>set (baks \<sigma>). \<exists>n. 1 < n \<and> shard_holds 1 2 (plain_log 2) n 0 b)"
proof -
  have "filter (\<lambda>i. i mod 1 = 0) [0..<2] = [0, 1 :: nat]" by code_simp
  then obtain \<sigma> where r: "shard_reach 1 2 (plain_log 2) 0 batch_arrived \<sigma>" "cur \<sigma> = None" "committed \<sigma> = 2" "readers \<sigma> = []"
    "unat (replicated_index (prim \<sigma>)) = 1"
    using append_commits_reach [OF batch_arrived_inv batch_arrived_simps(1)] by auto
  let ?\<sigma>1 = "\<sigma>\<lparr>prim := (prim \<sigma>)\<lparr>global_index := 1\<rparr>\<rparr>"
  let ?\<sigma>2 = "?\<sigma>1\<lparr>readers := readers ?\<sigma>1 @ [(1, RCheck)]\<rparr>"
  let ?\<sigma>3 = "?\<sigma>2\<lparr>readers := (readers ?\<sigma>2)[0 := (1, RDone (plain_entry 1))]\<rparr>"
  have r0: "shard_reach 1 2 (plain_log 2) 0 (sys_start 1 2 0 1) \<sigma>" by (rule shard_reach_trans [OF r(1) batch_arrived_reach])
  have r2: "shard_reach 1 2 (plain_log 2) 0 (sys_start 1 2 0 1) ?\<sigma>2"
    by (rule shard_reach.step [OF shard_reach.step [OF r0]], rule shard_step.Global, rule shard_step.Read) simp
  have "sys_inv 1 2 (plain_log 2) 0 \<sigma>" by (rule sys_inv_reach [OF r(1) batch_arrived_inv])
  then have h: "shard_holds 1 2 (plain_log 2) 2 0 (prim ?\<sigma>2)" using r(2, 3) by (simp add: sys_inv_def prim_upto_def)
  have sv: "ReadEntry_serve (prim ?\<sigma>2) 1 = Some (plain_entry 1)"
    using ReadEntry_serve_eq [OF h, of 1] r(5) by (simp add: word_le_nat_alt)
  then have "entries_cache_set (prim ?\<sigma>2) (base_idx_of (prim ?\<sigma>2) 1) \<noteq> None"
    by (auto simp: ReadEntry_serve_def cached_def Let_def split: option.splits if_splits)
  then have "RDone (plain_entry 1) = (if ReadEntry_check (prim ?\<sigma>2) (base_idx_of (prim ?\<sigma>2) 1) then reader_served (prim ?\<sigma>2) 1 else RLoad)"
    using sv by (simp add: ReadEntry_check_def reader_served_def)
  from shard_step.Check [OF _ _ this, of 0] have "shard_step 1 2 (plain_log 2) 0 ?\<sigma>2 ?\<sigma>3" using r(4) by simp
  then have r3: "shard_reach 1 2 (plain_log 2) 0 (sys_start 1 2 0 1) ?\<sigma>3" by (rule shard_reach.step [OF r2])
  have rd: "(1, RDone (plain_entry 1)) \<in> set (readers ?\<sigma>3)" using r(4) by simp
  have "\<forall>(b, d)\<in>set (baks ?\<sigma>3). \<exists>n. unat (1 :: u64) < n \<and> shard_holds 1 2 (plain_log 2) n 0 b"
    using readers_see_replicated [OF plain_log_ok _ _ _ _ r3 rd] by simp
  then have "\<forall>(b, d)\<in>set (baks ?\<sigma>3). \<exists>n. 1 < n \<and> shard_holds 1 2 (plain_log 2) n 0 b" by simp
  then show ?thesis using r3 rd by blast
qed

end
