(* ===== verification/Shard_Unopt.thy ===== *)
theory Shard_Unopt
  imports Shard_Log
begin

text \<open>
  The storage shard without an entry cache, from \<^verbatim>\<open>src/src/cons_log/storage/shard_server_wo_opt.cc\<close>. It writes the
  same files as the shard of \<^verbatim>\<open>shard_server.cc\<close>, but keeps in memory only, for every stripe, the map
  \<^verbatim>\<open>gsn_to_file_offset_map_\<close> from the index of an entry to its offset in the file of the stripe, the number of
  entries and the size of the file. A read takes the length of the entry from the offset of its successor and
  reads the bytes from the file into the response.

  The fields and functions carry the prefix \<open>uo_\<close>, as the names of the source are those of the other
  server. The critical sections, the meaning of \<open>None\<close> and the treatment of waits are those of the theory
  \<open>Shard_Server\<close>. A \<^verbatim>\<open>std::map\<close> is a partial function; its last key is the maximum of its domain.

  The lemmas show that the two servers are in simulation: they accept the same batches, write the same files and
  give readers the same entries.
\<close>

section \<open>The model\<close>

record ShardServerUnoptimized =
  gsn_to_file_offset_map :: "u64 \<rightharpoonup> (u64 \<rightharpoonup> u64)"
  uo_entries_fd_set :: "u64 \<rightharpoonup> nat"
  uo_cache_size :: "u64 \<rightharpoonup> u64"
  uo_num_entries :: "u64 \<rightharpoonup> u64"
  uo_stripe_unit_size :: u64
  uo_shard_num :: int
  uo_shard_id :: int
  uo_folder_path :: string
  uo_num_slow_path_reads :: u64
  uo_num_fast_path_reads :: u64
  uo_replicated_index :: u64
  uo_is_primary :: bool
  uo_os :: FileSys

definition ShardServerUnoptimized_new :: "FileSys \<Rightarrow> ShardServerUnoptimized" where
  "ShardServerUnoptimized_new fs =
     \<lparr>gsn_to_file_offset_map = Map.empty, uo_entries_fd_set = Map.empty, uo_cache_size = Map.empty,
      uo_num_entries = Map.empty, uo_stripe_unit_size = 0, uo_shard_num = 0, uo_shard_id = 0, uo_folder_path = [],
      uo_num_slow_path_reads = 0, uo_num_fast_path_reads = 0, uo_replicated_index = 0, uo_is_primary = False,
      uo_os = fs\<rparr>"

definition uo_Initialize ::
  "(string \<Rightarrow> bool) \<Rightarrow> (string \<Rightarrow> bool) \<Rightarrow> Properties \<Rightarrow> ShardServerUnoptimized \<Rightarrow> exn + ShardServerUnoptimized" where
  "uo_Initialize is_dir mkdir p u =
     (case stoi (GetProperty p ''shard.stripe_unit_size'' ''100000'') of Inl x \<Rightarrow> Inl x | Inr su \<Rightarrow>
      case stoi (GetProperty p ''shard.num'' ''1'') of Inl x \<Rightarrow> Inl x | Inr n \<Rightarrow>
      case stoi (GetProperty p ''shard.id'' ''0'') of Inl x \<Rightarrow> Inl x | Inr i \<Rightarrow>
      case stoull (GetProperty p ''shard.replicated_index'' ''0'') of Inl x \<Rightarrow> Inl x | Inr ri \<Rightarrow>
        let path = GetProperty p ''shard.folder_path'' ''./data/''
        in if \<not> is_dir path \<and> \<not> mkdir path then Inl (Exception ''Can't make directory'')
           else Inr (u\<lparr>uo_stripe_unit_size := of_int su, uo_shard_num := n, uo_shard_id := i, uo_folder_path := path,
                       uo_replicated_index := ri,
                       uo_is_primary := (GetProperty p ''leader'' ''false'' = ''true'')\<rparr>))"

definition uo_big_stripe_unit_size :: "ShardServerUnoptimized \<Rightarrow> u64" where
  "uo_big_stripe_unit_size u = uo_stripe_unit_size u * of_int (uo_shard_num u)"

definition uo_base_idx_of :: "ShardServerUnoptimized \<Rightarrow> u64 \<Rightarrow> u64" where
  "uo_base_idx_of u idx = idx div uo_big_stripe_unit_size u * uo_big_stripe_unit_size u"

definition uo_local_cache_idx :: "ShardServerUnoptimized \<Rightarrow> u64 \<Rightarrow> u64" where
  "uo_local_cache_idx u idx = (idx - uo_base_idx_of u idx) div of_int (uo_shard_num u)"

definition uo_getDataFilePath :: "ShardServerUnoptimized \<Rightarrow> u64 \<Rightarrow> string" where
  "uo_getDataFilePath u base_idx =
     uo_folder_path u @ ''/entries_'' @ nat_string (unat base_idx) @ ''_r_'' @ int_string (uo_shard_id u) @ ''.dat''"

definition uo_writeFromCacheToDisk :: "ShardServerUnoptimized \<Rightarrow> u64 \<Rightarrow> (int \<times> ShardServerUnoptimized) option" where
  "uo_writeFromCacheToDisk u base_idx =
     (case uo_entries_fd_set u base_idx of
        None \<Rightarrow> None
      | Some fd \<Rightarrow> Some (0, u\<lparr>uo_os := close_fd (uo_os u) fd\<rparr>))"

definition uo_readEntryFromDisk ::
  "ShardServerUnoptimized \<Rightarrow> u64 \<Rightarrow> u64 \<Rightarrow> mem \<Rightarrow> u64 \<Rightarrow> int \<times> mem \<times> ShardServerUnoptimized" where
  "uo_readEntryFromDisk u base_idx file_offset m len =
     (case open_rdonly (uo_os u) (uo_getDataFilePath u base_idx) of
        (None, fs) \<Rightarrow> (- 1, m, u)
      | (Some fd, fs) \<Rightarrow>
          let u = u\<lparr>uo_os := close_fd fs fd\<rparr>
          in case pread_fd fs fd (unat len) (unat file_offset) of
               None \<Rightarrow> (- 1, m, u)
             | Some bs \<Rightarrow> (int (length bs), write_bytes m 0 bs, u))"

definition uo_loadFromDiskToCache :: "ShardServerUnoptimized \<Rightarrow> u64 \<Rightarrow> (int \<times> ShardServerUnoptimized) option" where
  "uo_loadFromDiskToCache u base_idx =
     (case open_rdonly (uo_os u) (uo_getDataFilePath u base_idx) of
        (None, fs) \<Rightarrow> Some (- 1, u)
      | (Some fd, fs) \<Rightarrow>
          (case fstat_size fs fd of
             None \<Rightarrow> Some (9, u\<lparr>uo_os := close_fd fs fd\<rparr>)
           | Some st_size \<Rightarrow>
               (case mmap_fd fs fd of
                  None \<Rightarrow> Some (- 1, u\<lparr>uo_os := fs\<rparr>)
                | Some c \<Rightarrow>
                    (case ProcessAndBuildMap_size Map.empty (mapped c) 0 (of_nat st_size) 0 of
                       None \<Rightarrow> None
                     | Some (mp, n, num) \<Rightarrow>
                         Some (0, u\<lparr>gsn_to_file_offset_map := (gsn_to_file_offset_map u)(base_idx \<mapsto> mp),
                                    uo_cache_size := (uo_cache_size u)(base_idx \<mapsto> n),
                                    uo_num_entries := (uo_num_entries u)
                                      (base_idx \<mapsto> lookup0 (uo_num_entries u) base_idx + ucast num),
                                    uo_os := (if uo_stripe_unit_size u \<le> of_nat st_size then close_fd fs fd
                                              else fs)\<rparr>)))))"

definition uo_process_open :: "ShardServerUnoptimized \<Rightarrow> u64 \<Rightarrow> (nat option \<times> ShardServerUnoptimized) option" where
  "uo_process_open u base_idx =
     (case gsn_to_file_offset_map u base_idx of
        None \<Rightarrow>
          (case uo_loadFromDiskToCache u base_idx of
             None \<Rightarrow> None
           | Some (r, u) \<Rightarrow>
               if r < 0 then
                 let u = u\<lparr>gsn_to_file_offset_map := (gsn_to_file_offset_map u)(base_idx \<mapsto> Map.empty),
                           uo_cache_size := (uo_cache_size u)(base_idx \<mapsto> 0),
                           uo_num_entries := (uo_num_entries u)(base_idx \<mapsto> 0)\<rparr>
                 in case open_create (uo_os u) (uo_getDataFilePath u base_idx) of
                      (None, fs) \<Rightarrow> Some (None, u\<lparr>uo_os := fs\<rparr>)
                    | (Some fd, fs) \<Rightarrow>
                        Some (Some fd, u\<lparr>uo_os := fs, uo_entries_fd_set := (uo_entries_fd_set u)(base_idx \<mapsto> fd)\<rparr>)
               else Some (Some 0, u))
      | Some _ \<Rightarrow>
          let (fd, fm) = op_index (uo_entries_fd_set u) base_idx in Some (Some fd, u\<lparr>uo_entries_fd_set := fm\<rparr>))"

definition uo_process_append :: "ShardServerUnoptimized \<Rightarrow> u64 \<Rightarrow> nat \<Rightarrow> mem \<Rightarrow> ShardServerUnoptimized" where
  "uo_process_append u base_idx fd m =
     (let mp = (case gsn_to_file_offset_map u base_idx of None \<Rightarrow> Map.empty | Some mp \<Rightarrow> mp);
          (mp, n) = ProcessAndBuildMap mp m 0 (lookup0 (uo_cache_size u) base_idx);
          batch_len = n - 4
      in u\<lparr>gsn_to_file_offset_map := (gsn_to_file_offset_map u)(base_idx \<mapsto> mp),
           uo_cache_size := (uo_cache_size u)(base_idx \<mapsto> lookup0 (uo_cache_size u) base_idx + batch_len),
           uo_num_entries := (uo_num_entries u)
             (base_idx \<mapsto> lookup0 (uo_num_entries u) base_idx + ucast (get_le m 0 :: u32)),
           uo_os := snd (write_fd (uo_os u) fd (bytes_at m 4 (unat batch_len)))\<rparr>)"

definition processEntriesAndBuildMap :: "ShardServerUnoptimized \<Rightarrow> u64 \<Rightarrow> mem \<Rightarrow> ShardServerUnoptimized option" where
  "processEntriesAndBuildMap u base_idx m =
     (case uo_process_open u base_idx of
        None \<Rightarrow> None
      | Some (None, u) \<Rightarrow> Some u
      | Some (Some fd, u) \<Rightarrow> Some (uo_process_append u base_idx fd m))"

definition uo_store_batch :: "ShardServerUnoptimized \<Rightarrow> u64 \<Rightarrow> mem \<Rightarrow> (int \<times> ShardServerUnoptimized) option" where
  "uo_store_batch u base_idx m =
     (case processEntriesAndBuildMap u base_idx m of
        None \<Rightarrow> None
      | Some u \<Rightarrow>
          if uo_stripe_unit_size u \<le> lookup0 (uo_num_entries u) base_idx then uo_writeFromCacheToDisk u base_idx
          else Some (0, u))"

definition uo_batch_base_idx :: "ShardServerUnoptimized \<Rightarrow> MsgBuffer \<Rightarrow> u64" where
  "uo_batch_base_idx u req = uo_base_idx_of u (log_idx (fst (Deserializer LogEntry_new (buf req) 4)))"

definition uo_commit_batch :: "ShardServerUnoptimized \<Rightarrow> u64 \<Rightarrow> ShardServerUnoptimized option" where
  "uo_commit_batch u base_idx =
     (case gsn_to_file_offset_map u base_idx of
        None \<Rightarrow> None
      | Some mp \<Rightarrow> if mp = Map.empty then None else Some (u\<lparr>uo_replicated_index := Max (dom mp)\<rparr>))"

definition uo_AppendBatchHandler ::
  "'b net \<Rightarrow> MsgBuffer \<Rightarrow> MsgBuffer \<Rightarrow> ShardServerUnoptimized \<times> (ShardClient \<times> 'b) list \<Rightarrow>
    (MsgBuffer \<times> ShardServerUnoptimized \<times> (ShardClient \<times> 'b) list) option" where
  "uo_AppendBatchHandler net resp req ub =
     (case ub of (u, bs) \<Rightarrow>
        let base_idx = uo_batch_base_idx u req;
            rs = map (\<lambda>(c, b). (ReplicateBatchAsync c (buf req) (data_size req), b)) bs
        in case uo_store_batch u base_idx (buf req) of None \<Rightarrow> None | Some (_, u) \<Rightarrow>
           case wait_backups net rs of None \<Rightarrow> None | Some bs \<Rightarrow>
           case uo_commit_batch u base_idx of None \<Rightarrow> None | Some u \<Rightarrow>
             Some ((resize_msg_buffer resp 4)\<lparr>buf := put_le (buf resp) 0 (0 :: u32)\<rparr>, u, bs))"

definition uo_ReplicateBatchHandler ::
  "MsgBuffer \<Rightarrow> MsgBuffer \<Rightarrow> ShardServerUnoptimized \<Rightarrow> (MsgBuffer \<times> ShardServerUnoptimized) option" where
  "uo_ReplicateBatchHandler resp req u =
     (case uo_store_batch u (uo_batch_base_idx u req) (buf req) of
        None \<Rightarrow> None
      | Some (r, u) \<Rightarrow>
          Some (resize_msg_buffer (resp\<lparr>buf := put_le (buf resp) 0 (Status_word (if r < 0 then ERROR else OK))\<rparr>) 4, u))"

definition uo_ReadEntry_load :: "ShardServerUnoptimized \<Rightarrow> u64 \<Rightarrow> (bool \<times> ShardServerUnoptimized) option" where
  "uo_ReadEntry_load u base_idx =
     (if gsn_to_file_offset_map u base_idx = None
      then (case uo_loadFromDiskToCache u base_idx of None \<Rightarrow> None | Some (r, u) \<Rightarrow> Some (r = 0, u))
      else Some (True, u))"

definition uo_ReadEntry_serve ::
  "ShardServerUnoptimized \<Rightarrow> u64 \<Rightarrow> mem \<Rightarrow> (u64 \<times> mem) option \<times> ShardServerUnoptimized" where
  "uo_ReadEntry_serve u idx m =
     (let base_idx = uo_base_idx_of u idx
      in if lookup0 (uo_num_entries u) base_idx \<le> uo_local_cache_idx u idx \<or> uo_replicated_index u < idx then (None, u)
         else
           let offset_map = (case gsn_to_file_offset_map u base_idx of None \<Rightarrow> Map.empty | Some mp \<Rightarrow> mp);
               next_offset = (case offset_map (idx + of_int (uo_shard_num u)) of
                                Some x \<Rightarrow> x
                              | None \<Rightarrow> lookup0 (uo_cache_size u) base_idx);
               (file_offset, offset_map) = op_index offset_map idx;
               len = next_offset - file_offset;
               u = u\<lparr>gsn_to_file_offset_map := (gsn_to_file_offset_map u)(base_idx \<mapsto> offset_map)\<rparr>;
               (got, m, u) = uo_readEntryFromDisk u base_idx file_offset m len
           in (Some (len, m), u))"

definition uo_ReadEntry_pass ::
  "ShardServerUnoptimized \<Rightarrow> u64 \<Rightarrow> mem \<Rightarrow> ((u64 \<times> mem) option \<times> ShardServerUnoptimized) option" where
  "uo_ReadEntry_pass u idx m =
     (let base_idx = uo_base_idx_of u idx
      in if gsn_to_file_offset_map u base_idx \<noteq> None then Some (uo_ReadEntry_serve u idx m)
         else case uo_ReadEntry_load u base_idx of
                None \<Rightarrow> None
              | Some (loaded, u) \<Rightarrow>
                  if \<not> loaded \<and> gsn_to_file_offset_map u base_idx = None then Some (None, u)
                  else Some (uo_ReadEntry_serve u idx m))"

definition uo_ReadEntryHandler ::
  "bool \<Rightarrow> MsgBuffer \<Rightarrow> MsgBuffer \<Rightarrow> ShardServerUnoptimized \<Rightarrow> (MsgBuffer \<times> ShardServerUnoptimized) option" where
  "uo_ReadEntryHandler slow_path_exercized resp req u =
     (case uo_ReadEntry_pass u (get_le (buf req) 0) (buf resp) of
        Some (Some (len, m), u) \<Rightarrow>
          Some (resize_msg_buffer (resp\<lparr>buf := m\<rparr>) (unat len),
                if slow_path_exercized then u\<lparr>uo_num_slow_path_reads := uo_num_slow_path_reads u + 1\<rparr>
                else u\<lparr>uo_num_fast_path_reads := uo_num_fast_path_reads u + 1\<rparr>)
      | _ \<Rightarrow> None)"

section \<open>Simulation\<close>

text \<open>The two servers have stored the same batches: the same files, descriptors and replicated index, and for every
  stripe the offsets, the size and the number of the entries in the cache of the other server.\<close>

definition uo_stripe :: "ShardServerUnoptimized \<Rightarrow> u64 \<Rightarrow> LogEntry list \<Rightarrow> bool" where
  "uo_stripe u b es \<longleftrightarrow> gsn_to_file_offset_map u b = Some (map_updates Map.empty (idx_offsets 0 es)) \<and>
     lookup0 (uo_cache_size u) b = of_nat (tsz es) \<and> lookup0 (uo_num_entries u) b = of_nat (length es)"

definition uo_sim :: "ShardServer \<Rightarrow> ShardServerUnoptimized \<Rightarrow> bool" where
  "uo_sim st u \<longleftrightarrow> uo_stripe_unit_size u = stripe_unit_size st \<and> uo_shard_num u = shard_num st \<and>
     uo_shard_id u = shard_id st \<and> uo_folder_path u = folder_path st \<and> uo_replicated_index u = replicated_index st \<and>
     uo_entries_fd_set u = entries_fd_set st \<and> os_eq (os st) (uo_os u) \<and>
     (\<forall>b. case entries_cache_set st b of None \<Rightarrow> gsn_to_file_offset_map u b = None | Some es \<Rightarrow> uo_stripe u b es)"

lemma uo_simD:
  assumes "uo_sim st u"
  shows "uo_getDataFilePath u b = getDataFilePath st b" "uo_base_idx_of u idx = base_idx_of st idx"
    "uo_local_cache_idx u idx = local_cache_idx st idx" "uo_batch_base_idx u req = batch_base_idx st req"
    "uo_stripe_unit_size u = stripe_unit_size st" "uo_entries_fd_set u = entries_fd_set st" "os_eq (os st) (uo_os u)"
    "entries_cache_set st b = None \<Longrightarrow> gsn_to_file_offset_map u b = None"
    "entries_cache_set st b = Some es \<Longrightarrow> uo_stripe u b es"
proof -
  have "case entries_cache_set st b of None \<Rightarrow> gsn_to_file_offset_map u b = None | Some es \<Rightarrow> uo_stripe u b es"
    using assms by (simp add: uo_sim_def)
  then show "entries_cache_set st b = None \<Longrightarrow> gsn_to_file_offset_map u b = None"
    "entries_cache_set st b = Some es \<Longrightarrow> uo_stripe u b es" by simp_all
qed (use assms in \<open>simp_all add: uo_sim_def uo_getDataFilePath_def getDataFilePath_def uo_base_idx_of_def base_idx_of_def
      uo_big_stripe_unit_size_def big_stripe_unit_size_def uo_local_cache_idx_def local_cache_idx_def
      uo_batch_base_idx_def batch_base_idx_def\<close>)

lemma uo_simI:
  assumes sim: "uo_sim st u" and st: "same_config st st'" "same_indices st st'"
    "entries_cache_set st' = (entries_cache_set st)(b \<mapsto> es)"
    and u: "uo_stripe_unit_size u' = uo_stripe_unit_size u" "uo_shard_num u' = uo_shard_num u" "uo_shard_id u' = uo_shard_id u"
    "uo_folder_path u' = uo_folder_path u" "uo_replicated_index u' = uo_replicated_index u"
    "uo_entries_fd_set u' = entries_fd_set st'" "os_eq (os st') (uo_os u')" "uo_stripe u' b es"
    and others: "\<And>x. x \<noteq> b \<Longrightarrow> gsn_to_file_offset_map u' x = gsn_to_file_offset_map u x \<and>
      lookup0 (uo_cache_size u') x = lookup0 (uo_cache_size u) x \<and> lookup0 (uo_num_entries u') x = lookup0 (uo_num_entries u) x"
  shows "uo_sim st' u'"
proof -
  have "case entries_cache_set st' x of None \<Rightarrow> gsn_to_file_offset_map u' x = None | Some es \<Rightarrow> uo_stripe u' x es" for x
  proof (cases "x = b")
    case False
    then show ?thesis
      using others [OF False] uo_simD(8, 9) [OF sim, of x] by (simp add: st(3) uo_stripe_def split: option.split)
  qed (simp add: st(3) u(8))
  then show ?thesis
    using sim st(1, 2) u by (simp add: uo_sim_def same_config_def same_indices_def)
qed

lemma uo_process_open_sim:
  assumes inv: "store_inv st" and sim: "uo_sim st u" and o: "addToEntryCache_open st b = Some (Some fd, st')"
  shows "\<exists>u'. uo_process_open u b = Some (Some fd, u') \<and> uo_sim st' u'"
proof (cases "entries_cache_set st b")
  case None
  note S = uo_simD [OF sim]
  have f: "files (os st) (getDataFilePath st b) = None"
    using inv None by (auto simp: store_inv_def split: option.splits dest: spec [of _ b])
  have p: "getDataFilePath (st\<lparr>entries_cache_set := x, cache_size := y\<rparr>) = getDataFilePath st"
    "uo_getDataFilePath (u\<lparr>gsn_to_file_offset_map := z, uo_cache_size := y, uo_num_entries := w\<rparr>) = uo_getDataFilePath u" for x y z w
    by (rule ext, simp add: getDataFilePath_def uo_getDataFilePath_def)+
  obtain fs where fs: "open_create (os st) (getDataFilePath st b) = (Some fd, fs)"
    "st' = st\<lparr>entries_cache_set := (entries_cache_set st)(b \<mapsto> []), cache_size := (cache_size st)(b \<mapsto> 0),
      os := fs, entries_fd_set := (entries_fd_set st)(b \<mapsto> fd)\<rparr>"
    using o None f
    by (auto simp: addToEntryCache_open_def loadFromDiskToCache_def open_rdonly_def Let_def p split: prod.splits option.splits)
  obtain fs' where fs': "open_create (uo_os u) (getDataFilePath st b) = (Some fd, fs')" "os_eq fs fs'"
    using open_create_cong [OF S(7) fs(1)] by blast
  have "files (uo_os u) (getDataFilePath st b) = None" using f S(7) by (simp add: os_eq_def)
  then have eq: "uo_process_open u b = Some (Some fd,
    u\<lparr>gsn_to_file_offset_map := (gsn_to_file_offset_map u)(b \<mapsto> Map.empty), uo_cache_size := (uo_cache_size u)(b \<mapsto> 0),
      uo_num_entries := (uo_num_entries u)(b \<mapsto> 0), uo_os := fs', uo_entries_fd_set := (uo_entries_fd_set u)(b \<mapsto> fd)\<rparr>)"
    using S(8) [OF None] fs'(1)
    by (simp add: uo_process_open_def uo_loadFromDiskToCache_def open_rdonly_def Let_def p S(1))
  have cr: "creatable fs = creatable (os st)"
    using fs(1) alloc_fd_spec(5) by (fastforce simp: open_create_def split: if_splits prod.splits)
  show ?thesis
    unfolding fs(2)
    by (rule exI, rule conjI [OF eq], rule uo_simI [OF sim, where b = b and es = "[]"])
      (simp_all add: same_config_def same_indices_def uo_stripe_def lookup0_def fs'(2) S(6) cr)
next
  case (Some es)
  note S = uo_simD [OF sim]
  have "st' = st\<lparr>entries_fd_set := snd (op_index (entries_fd_set st) b)\<rparr>" "fd = lookup0 (entries_fd_set st) b"
    using o Some by (auto simp: addToEntryCache_open_def Let_def case_prod_beta)
  moreover have "uo_sim (st\<lparr>entries_fd_set := x\<rparr>) (u\<lparr>uo_entries_fd_set := x\<rparr>)" for x
    by (rule uo_simI [OF sim, where b = b and es = es])
      (use Some S(7) S(9) [OF Some] in \<open>simp_all add: same_config_def same_indices_def uo_stripe_def fun_upd_idem\<close>)
  ultimately show ?thesis
    using S(6) S(9) [OF Some] by (simp add: uo_process_open_def uo_stripe_def Let_def case_prod_beta)
qed

lemma ProcessAndBuildMap_batch_msg:
  assumes "batch_msg req xs"
  shows "ProcessAndBuildMap mp (buf req) 0 cfo = (map_updates mp (idx_offsets cfo xs), 4 + of_nat (tsz xs))"
  using ProcessAndBuildMap_loop_chain [of "buf req" 0 4 xs LogEntry_new mp cfo] assms
  by (simp add: ProcessAndBuildMap_def batch_msg_def unat_of_nat_small takeWhile_all)

lemma uo_process_append_sim:
  assumes sim: "uo_sim st u" and es: "entries_cache_set st b = Some es" and req: "batch_msg req xs"
  shows "uo_sim (addToEntryCache_append st b fd (buf req)) (uo_process_append u b fd (buf req))"
proof -
  have l: "unat (of_nat (tsz xs) :: u64) = tsz xs" "of_nat (4 + tsz xs) - 4 = (of_nat (tsz xs) :: u64)"
    using req by (simp_all add: batch_msg_def unat_of_nat_small)
  have n: "ucast (get_le (buf req) 0 :: u32) = (of_nat (length xs) :: u64)"
    using req by (simp add: batch_msg_def ucast_64_of_nat unat_of_nat_small)
  have st: "addToEntryCache_append st b fd (buf req) =
    st\<lparr>entries_cache_set := (entries_cache_set st)(b \<mapsto> es @ xs),
      cache_size := (cache_size st)(b \<mapsto> lookup0 (cache_size st) b + of_nat (tsz xs)),
      os := snd (write_fd (os st) fd (bytes_at (buf req) 4 (tsz xs)))\<rparr>"
    using es MultiDeserializer_batch_msg [OF req, of es] l
    by (simp add: addToEntryCache_append_def Let_def del: of_nat_add)
  have cr: "creatable (snd (write_fd fs fd bs)) = creatable fs" for fs bs
    by (simp add: write_fd_def split: option.split fdesc.split)
  note S = uo_simD [OF sim]
  have "uo_stripe (uo_process_append u b fd (buf req)) b (es @ xs)"
    using S(9) [OF es] ProcessAndBuildMap_batch_msg [OF req] n
    by (simp add: uo_process_append_def uo_stripe_def Let_def lookup0_def idx_offsets_append map_updates_append)
  moreover have "os_eq (snd (write_fd (os st) fd (bytes_at (buf req) 4 (tsz xs)))) (uo_os (uo_process_append u b fd (buf req)))"
    using write_fd_cong [OF S(7)] ProcessAndBuildMap_batch_msg [OF req] l
    by (simp add: uo_process_append_def Let_def case_prod_beta)
  ultimately show ?thesis
    unfolding st
    by (intro uo_simI [OF sim, where b = b and es = "es @ xs"])
      (simp_all add: same_config_def same_indices_def cr S(6) uo_process_append_def Let_def case_prod_beta lookup0_def)
qed

text \<open>Storing a batch: both servers store it, and stay in simulation.\<close>

lemma uo_store_batch_sim:
  assumes inv: "store_inv st" and sim: "uo_sim st u" and req: "batch_msg req xs"
    and room: "length (cached st b) < unat (stripe_unit_size st)"
    and s: "store_batch st b (buf req) = Some (r, st')"
  shows "\<exists>u'. uo_store_batch u b (buf req) = Some (r, u') \<and> uo_sim st' u'"
proof -
  obtain fd st1 where st1: "addToEntryCache_open st b = Some (Some fd, st1)" "stripe_ok st1 b (cached st b)"
    using addToEntryCache_open_ok [OF inv room] by blast
  obtain u1 where u1: "uo_process_open u b = Some (Some fd, u1)" "uo_sim st1 u1"
    using uo_process_open_sim [OF inv sim st1(1)] by blast
  define st2 u2 where "st2 = addToEntryCache_append st1 b fd (buf req)" and "u2 = uo_process_append u1 b fd (buf req)"
  have e1: "entries_cache_set st1 b = Some (cached st b)" using st1(2) by (simp add: stripe_ok_def)
  have sim2: "uo_sim st2 u2" unfolding st2_def u2_def by (rule uo_process_append_sim [OF u1(2) e1 req])
  note S = uo_simD [OF sim2]
  have add: "addToEntryCache st b (buf req) = Some st2" "processEntriesAndBuildMap u b (buf req) = Some u2"
    using st1(1) u1(1) by (simp_all add: addToEntryCache_def processEntriesAndBuildMap_def st2_def u2_def)
  have "entries_cache_set st2 b \<noteq> None"
    by (simp add: st2_def addToEntryCache_append_def Let_def case_prod_beta)
  then have n: "lookup0 (uo_num_entries u2) b = of_nat (length (cached st2 b))"
    using S(9) [of b] by (auto simp: cached_def uo_stripe_def)
  show ?thesis
  proof (cases "stripe_unit_size st2 \<le> of_nat (length (cached st2 b))")
    case False
    then show ?thesis using s sim2 n by (simp add: store_batch_def uo_store_batch_def add S(5))
  next
    case True
    then obtain fd' where fd': "entries_fd_set st2 b = Some fd'" "r = 0" "st' = st2\<lparr>os := close_fd (os st2) fd'\<rparr>"
      using s by (auto simp: store_batch_def add writeFromCacheToDisk_def split: option.splits)
    have "uo_sim st' (u2\<lparr>uo_os := close_fd (uo_os u2) fd'\<rparr>)"
      using sim2 close_fd_cong [OF S(7)] unfolding fd'(3)
      by (simp add: uo_sim_def uo_stripe_def cong: option.case_cong)
    then show ?thesis
      using True fd' n S(5, 6) by (simp add: uo_store_batch_def add uo_writeFromCacheToDisk_def)
  qed
qed

section \<open>Batches\<close>

definition uo_holds :: "nat \<Rightarrow> nat \<Rightarrow> LogEntry list \<Rightarrow> nat \<Rightarrow> nat \<Rightarrow> ShardServerUnoptimized \<Rightarrow> bool" where
  "uo_holds N U L n s u \<longleftrightarrow> (\<exists>st. shard_holds N U L n s st \<and> uo_sim st u)"

lemma sorted_shard_idxs: "sorted_wrt (<) (shard_idxs N U s q n)"
  by (simp add: shard_idxs_def sorted_wrt_filter)

lemma log_idx_cached:
  assumes L: "log_ok L" and h: "shard_holds N U L n s st" and b: "U * N dvd unat b"
  defines "js \<equiv> shard_idxs N U s (unat b div (U * N)) n"
  shows "map log_idx (cached st b) = map of_nat js" "set js \<subseteq> {..<2 ^ 64}" "distinct (map log_idx (cached st b))"
proof -
  have js: "j < length L" if "j \<in> set js" for j
    using that shard_holdsD(7) [OF h] by (auto simp: js_def shard_idxs_def)
  have c: "cached st b = map ((!) L) js" using shard_holdsD(8) [OF h b] by (simp add: js_def)
  show eq: "map log_idx (cached st b) = map of_nat js"
    using L js by (simp add: c log_ok_def)
  show lt: "set js \<subseteq> {..<2 ^ 64}" using js L by (fastforce simp: log_ok_def)
  have "inj_on (of_nat :: nat \<Rightarrow> u64) (set js)"
    using lt by (intro inj_onI) (metis lessThan_iff of_nat_eq_u64 subsetD)
  then show "distinct (map log_idx (cached st b))"
    using sorted_shard_idxs [of N U s "unat b div (U * N)" n]
    unfolding eq by (simp add: distinct_map js_def strict_sorted_iff)
qed

lemma uo_commit_batch_sim:
  assumes L: "log_ok L" and h: "shard_holds N U L n s st" and sim: "uo_sim st u" and b: "U * N dvd unat b"
    and c: "commit_batch st b = Some st'"
  shows "\<exists>u'. uo_commit_batch u b = Some u' \<and> uo_sim st' u'"
proof -
  let ?js = "shard_idxs N U s (unat b div (U * N)) n" and ?es = "cached st b"
  have es: "?es \<noteq> []" "st' = st\<lparr>replicated_index := log_idx (last ?es)\<rparr>"
    using c by (auto simp: commit_batch_def split: if_splits)
  note l = log_idx_cached [OF L h b]
  have mp: "gsn_to_file_offset_map u b = Some (map_updates Map.empty (idx_offsets 0 ?es))"
    using es(1) uo_simD(9) [OF sim, of b ?es] by (auto simp: cached_def uo_stripe_def split: option.splits)
  have "fst ` set (idx_offsets 0 ?es) = set (map log_idx ?es)"
    by (metis image_set map_fst_idx_offsets)
  then have d: "dom (map_updates Map.empty (idx_offsets 0 ?es)) = of_nat ` set ?js"
    unfolding dom_map_updates l(1) by simp
  have js: "?js \<noteq> []" using es(1) l(1) by force
  have "sorted ?js" using sorted_shard_idxs [of N U s _ n] by (simp add: strict_sorted_iff)
  then have le: "j \<le> last ?js" "j < 2 ^ 64" "last ?js < 2 ^ 64" if "j \<in> set ?js" for j
    using that le_last_sorted l(2) last_in_set [OF js] by blast+
  have "Max (of_nat ` set ?js :: u64 set) = of_nat (last ?js)"
    by (rule Max_eqI) (use le js in \<open>auto simp: word_le_nat_alt unat_of_nat_small\<close>)
  also have "\<dots> = log_idx (last ?es)"
    using l(1) es(1) js by (metis last_map)
  finally have m: "Max (dom (map_updates Map.empty (idx_offsets 0 ?es))) = log_idx (last ?es)" by (simp only: d)
  have "map_updates Map.empty (idx_offsets 0 ?es) \<noteq> Map.empty"
    using d js by force
  then show ?thesis
    using mp m sim by (auto simp: uo_commit_batch_def es(2) uo_sim_def uo_stripe_def cong: option.case_cong)
qed

lemma uo_ReplicateBatchHandler_holds:
  assumes L: "log_ok L" and h: "uo_holds N U L n s u" and req: "shard_batch N U L n m s req"
  shows "\<exists>resp' u'. uo_ReplicateBatchHandler resp req u = Some (resp', u') \<and> uo_holds N U L m s u' \<and>
    data_size resp' = 4 \<and> get_le (buf resp') 0 = Status_word OK"
proof -
  obtain st where st: "shard_holds N U L n s st" "uo_sim st u" using h by (auto simp: uo_holds_def)
  obtain st' where st': "store_batch st (batch_base_idx st req) (buf req) = Some (0, st')" "shard_holds N U L m s st'"
    using store_batch_holds [OF L st(1) req] by blast
  obtain u' where "uo_store_batch u (batch_base_idx st req) (buf req) = Some (0, u')" "uo_sim st' u'"
    using uo_store_batch_sim [OF shard_holdsD(1) [OF st(1)] st(2) _ shard_batch_room [OF L st(1) req] st'(1)] req
    by (auto simp: shard_batch_def)
  then show ?thesis
    using st'(2) uo_simD(4) [OF st(2)]
    by (auto simp: uo_ReplicateBatchHandler_def resize_msg_buffer_def uo_holds_def)
qed

lemma uo_AppendBatchHandler_sim:
  assumes L: "log_ok L" and net: "serves net REP_BATCH (ReplicateBatchHandler resp0)"
    and unet: "serves unet REP_BATCH (uo_ReplicateBatchHandler resp1)"
    and h: "shard_holds N U L n s st" "list_all (\<lambda>(c, b). shard_holds N U L n s b) bs"
    and u: "uo_sim st u" "list_all (\<lambda>(c, w). uo_holds N U L n s w) ws"
    and req: "shard_batch N U L n m s req"
  shows "\<exists>resp' st' bs' u' ws'. AppendBatchHandler net resp req (st, bs) = Some (resp', st', bs') \<and>
    uo_AppendBatchHandler unet resp req (u, ws) = Some (resp', u', ws') \<and>
    shard_holds N U L m s st' \<and> uo_sim st' u' \<and> length ws' = length ws \<and> list_all (\<lambda>(c, w). uo_holds N U L m s w) ws'"
proof -
  let ?b = "batch_base_idx st req" and ?xs = "map ((!) L) (filter (\<lambda>i. i mod N = s) [n..<m])"
  have msg: "batch_msg req ?xs" using req by (simp add: shard_batch_def)
  obtain st1 where st1: "store_batch st ?b (buf req) = Some (0, st1)" "shard_holds N U L m s st1" "cached st1 ?b \<noteq> []"
    using store_batch_holds [OF L h(1) req] by blast
  obtain u1 where u1: "uo_store_batch u ?b (buf req) = Some (0, u1)" "uo_sim st1 u1"
    using uo_store_batch_sim [OF shard_holdsD(1) [OF h(1)] u(1) msg shard_batch_room [OF L h(1) req] st1(1)] by blast
  have c: "commit_batch st1 ?b = Some (st1\<lparr>replicated_index := log_idx (last (cached st1 ?b))\<rparr>)"
    using st1(3) by (simp add: commit_batch_def)
  have "U * N dvd unat ?b" using batch_base_idx_eq [OF L h(1) req] by simp
  then obtain u2 where u2: "uo_commit_batch u1 ?b = Some u2" "uo_sim (st1\<lparr>replicated_index := log_idx (last (cached st1 ?b))\<rparr>) u2"
    using uo_commit_batch_sim [OF L st1(2) u1(2) _ c] by blast
  obtain bs' where bs': "wait_backups net (map (\<lambda>(c, b). (ReplicateBatchAsync c (buf req) (data_size req), b)) bs) = Some bs'"
    using wait_backups_holds [OF L net req h(2)] by blast
  have step: "\<exists>r w'. uo_ReplicateBatchHandler resp1 req' w = Some (r, w') \<and> uo_holds N U L m s w'"
    if "uo_holds N U L n s w" "batch_msg req' ?xs" for w req'
  proof -
    have "shard_batch N U L n m s req'" using that(2) req by (simp add: shard_batch_def)
    then show ?thesis using uo_ReplicateBatchHandler_holds [OF L that(1)] by blast
  qed
  obtain ws' where ws': "wait_backups unet (map (\<lambda>(c, b). (ReplicateBatchAsync c (buf req) (data_size req), b)) ws) = Some ws'"
    "length ws' = length ws" "list_all (\<lambda>(c, w). uo_holds N U L m s w) ws'"
    using wait_backups_all [OF unet msg step u(2)] by blast
  show ?thesis
    using st1 u1 u2 c bs' ws' uo_simD(4) [OF u(1)]
    by (simp add: AppendBatchHandler_def uo_AppendBatchHandler_def Let_def)
qed


section \<open>Reading\<close>

lemma entries_at_nth:
  assumes "entries_at m a es" "j < length es"
  shows "entry_at m (a + tsz (take j es)) (es ! j)"
proof -
  have "entries_at m a (take j es @ es ! j # drop (Suc j) es)" using assms by (simp flip: id_take_nth_drop)
  then show ?thesis by (simp add: chain_append)
qed

lemma tsz_take_Suc: "j < length es \<Longrightarrow> tsz (take (Suc j) es) = tsz (take j es) + esz (es ! j)"
  by (simp add: take_Suc_conv_app_nth)

lemma tsz_take_le: "tsz (take j es) \<le> tsz es"
  by (metis append_take_drop_id le_add1 map_append sum_list_append)

text \<open>The entry at position \<open>j\<close> of a stripe, from its offset and its size.\<close>

lemma uo_readEntryFromDisk_ok:
  assumes sim: "uo_sim st u" and ok: "stripe_ok st b es" and j: "j < length es" and sz: "tsz es < 2 ^ 64"
  shows "\<exists>m' u'. uo_readEntryFromDisk u b (of_nat (tsz (take j es))) m (of_nat (esz (es ! j))) =
      (int (esz (es ! j)), m', u') \<and> entry_at m' 0 (es ! j) \<and> uo_sim st u'"
proof -
  note S = uo_simD [OF sim]
  let ?e = "es ! j" and ?o = "tsz (take j es)"
  obtain c where c: "files (os st) (getDataFilePath st b) = Some c" "length c = tsz es" "entries_at (mapped c) 0 es"
    using ok by (auto simp: stripe_ok_def)
  have e: "entry_at (mapped c) ?o ?e" using entries_at_nth [OF c(3) j] by simp
  have len: "?o + esz ?e \<le> length c"
    using tsz_take_Suc [OF j] tsz_take_le [of "Suc j" es] c(2) by simp
  have un: "unat (of_nat ?o :: u64) = ?o" "unat (of_nat (esz ?e) :: u64) = esz ?e"
    using len sz c(2) by (simp_all add: unat_of_nat_small)
  have c': "files (uo_os u) (getDataFilePath st b) = Some c" using c(1) S(7) by (simp add: os_eq_def)
  obtain fd fs where a: "alloc_fd (uo_os u) (File (getDataFilePath st b) False 0) = (fd, fs)" by fastforce
  let ?bs = "take (esz ?e) (drop ?o c)"
  have p: "pread_fd fs fd (esz ?e) ?o = Some ?bs"
    using alloc_fd_spec [OF a] c' by (simp add: pread_fd_def)
  have l: "length ?bs = esz ?e" using len by simp
  have "entry_at (write_bytes m 0 ?bs) 0 ?e"
  proof (rule entry_at_shift [OF e])
    fix i assume i: "i < esz ?e"
    then have "write_bytes m 0 ?bs (0 + i) = ?bs ! i" by (intro write_bytes_apply_in) (simp only: l)
    then show "write_bytes m 0 ?bs (0 + i) = mapped c (?o + i)" using i len by simp
  qed
  moreover have "uo_sim st (u\<lparr>uo_os := close_fd fs fd\<rparr>)"
    using sim os_eq_trans [OF S(7) alloc_close [OF a]] by (simp add: uo_sim_def uo_stripe_def cong: option.case_cong)
  ultimately show ?thesis
    using a c' p l by (simp add: uo_readEntryFromDisk_def open_rdonly_def S(1) un Let_def)
qed

lemma uo_offsets:
  assumes L: "log_ok L" and h: "shard_holds N U L n s st" and i: "unat idx mod N = s" "unat idx < n"
    and wrap: "unat idx + N < 2 ^ 64"
  defines "es \<equiv> cached st (base_idx_of st idx)" and "j \<equiv> unat (local_cache_idx st idx)"
  shows "map_updates Map.empty (idx_offsets 0 es) idx = Some (of_nat (tsz (take j es)))"
    and "(case map_updates Map.empty (idx_offsets 0 es) (idx + of_int (shard_num st)) of Some x \<Rightarrow> x | None \<Rightarrow> of_nat (tsz es)) =
      of_nat (tsz (take (Suc j) es))"
proof -
  note H = shard_holdsD [OF h] and C = cached_lookup [OF h i(1), folded es_def j_def]
  let ?js = "shard_idxs N U s (unat idx div (U * N)) n" and ?mp = "map_updates Map.empty (idx_offsets 0 es)"
  note l = log_idx_cached [OF L h C(6), folded es_def]
  have js: "unat (base_idx_of st idx) div (U * N) = unat idx div (U * N)"
    using unat_base_idx [OF H(2), of idx] H(3-6) by simp
  have at: "?mp (log_idx (es ! k)) = Some (of_nat (tsz (take k es)))" if "k < length es" for k
    using map_updates_distinct [of "idx_offsets 0 es" k Map.empty] l(3) that by (simp add: nth_idx_offsets)
  have idx: "log_idx (es ! k) = of_nat (?js ! k)" if "k < length es" for k
    using that l(1) js C(4) by (metis length_map nth_map)
  show "?mp idx = Some (of_nat (tsz (take j es)))"
    using at [OF C(2) [OF i(2)]] idx [OF C(2) [OF i(2)]] C(5) [OF i(2)] by simp
  have step: "?js ! k = unat idx div (U * N) * (U * N) + s + k * N" if "k < length es" for k
    using nth_shard_idxs [OF H(5, 6)] that C(4) by simp
  have succ: "idx + of_int (shard_num st) = of_nat (unat idx + N)" using H(3, 5) by simp
  show "(case ?mp (idx + of_int (shard_num st)) of Some x \<Rightarrow> x | None \<Rightarrow> of_nat (tsz es)) = of_nat (tsz (take (Suc j) es))"
  proof (cases "Suc j < length es")
    case True
    have "?js ! Suc j = unat idx + N" using step [OF True] step [OF C(2) [OF i(2)]] C(5) [OF i(2)] by simp
    then show ?thesis using at [OF True] idx [OF True] by (simp add: succ)
  next
    case False
    have "of_nat (unat idx + N) \<notin> log_idx ` set es"
    proof
      assume "of_nat (unat idx + N) \<in> log_idx ` set es"
      then obtain k where k: "k < length es" "of_nat (unat idx + N) = (of_nat (?js ! k) :: u64)"
        using idx by (auto simp: in_set_conv_nth)
      have "?js ! k \<in> set ?js" using k(1) C(4) by simp
      then have "?js ! k < 2 ^ 64" using l(2) js by auto
      then have "unat idx + N = ?js ! k" using k(2) wrap of_nat_eq_u64 by blast
      then have "k * N = Suc j * N" using step [OF k(1)] step [OF C(2) [OF i(2)]] C(5) [OF i(2)] by simp
      then have "k = Suc j" using H(5) by (metis mult_cancel2 not_less0)
      then show False using k(1) False by simp
    qed
    then have "?mp (idx + of_int (shard_num st)) = None"
      using map_updates_notin [of _ "idx_offsets 0 es" Map.empty] map_fst_idx_offsets [of 0 es] by (simp add: succ flip: set_map)
    moreover have "take (Suc j) es = es" using False by simp
    ultimately show ?thesis by simp
  qed
qed

lemma uo_ReadEntry_pass_ok:
  assumes L: "log_ok L" and h: "shard_holds N U L n s st" and sim: "uo_sim st u" and i: "unat idx mod N = s"
    and wrap: "unat idx + N < 2 ^ 64" and sz: "tsz (cached st (base_idx_of st idx)) < 2 ^ 64"
  shows "unat idx < n \<and> idx \<le> replicated_index st \<Longrightarrow>
      \<exists>m' u'. uo_ReadEntry_pass u idx m = Some (Some (of_nat (esz (L ! unat idx)), m'), u') \<and>
        entry_at m' 0 (L ! unat idx) \<and> uo_sim st u'"
    and "\<not> (unat idx < n \<and> idx \<le> replicated_index st) \<Longrightarrow> \<exists>u'. uo_ReadEntry_pass u idx m = Some (None, u')"
proof -
  note H = shard_holdsD [OF h] and S = uo_simD [OF sim] and C = cached_lookup [OF h i]
  let ?b = "base_idx_of st idx" and ?j = "unat (local_cache_idx st idx)"
  let ?es = "cached st ?b"
  have inv: "entries_cache_set st ?b = None \<Longrightarrow> files (uo_os u) (getDataFilePath st ?b) = None"
    "entries_cache_set st ?b = Some x \<Longrightarrow> stripe_ok st ?b x" for x
    using H(1) S(7) by (auto simp: store_inv_def os_eq_def split: option.splits dest: spec [of _ ?b])
  {
    assume a: "unat idx < n \<and> idx \<le> replicated_index st"
    then have j: "?j < length ?es" "?es ! ?j = L ! unat idx" using C(2, 3) by simp_all
    then have es: "entries_cache_set st ?b = Some ?es" by (auto simp: cached_def split: option.splits)
    note U = S(9) [OF es, unfolded uo_stripe_def] and off = uo_offsets [OF L h i _ wrap]
    let ?mp = "map_updates Map.empty (idx_offsets 0 ?es)"
    have nserve: "\<not> lookup0 (uo_num_entries u) ?b \<le> local_cache_idx st idx" "\<not> uo_replicated_index u < idx"
      using U C(1) a sim by (auto simp: uo_sim_def)
    have upd: "u\<lparr>gsn_to_file_offset_map := (gsn_to_file_offset_map u)(?b \<mapsto> ?mp)\<rparr> = u"
      using U by (simp add: fun_upd_idem)
    have num: "uo_shard_num u = shard_num st" using sim by (simp add: uo_sim_def)
    have nx: "(case ?mp (idx + of_int (shard_num st)) of Some x \<Rightarrow> x | None \<Rightarrow> lookup0 (uo_cache_size u) ?b) =
        of_nat (tsz (take (Suc ?j) ?es))"
      using off(2) a U by presburger
    have d: "of_nat (tsz (take (Suc ?j) ?es)) - of_nat (tsz (take ?j ?es)) = (of_nat (esz (L ! unat idx)) :: u64)"
      using tsz_take_Suc [OF j(1)] j(2) by simp
    obtain m' u' where r: "uo_readEntryFromDisk u ?b (of_nat (tsz (take ?j ?es))) m (of_nat (esz (L ! unat idx))) =
        (int (esz (L ! unat idx)), m', u')" "entry_at m' 0 (L ! unat idx)" "uo_sim st u'"
      using uo_readEntryFromDisk_ok [OF sim inv(2) [OF es] j(1) sz, of m] j(2) by auto
    have "uo_ReadEntry_serve u idx m = (Some (of_nat (esz (L ! unat idx)), m'), u')"
      using nserve U off(1) a by (simp add: uo_ReadEntry_serve_def Let_def S(2, 3) op_index_def upd num nx d r(1))
    then show "\<exists>m' u'. uo_ReadEntry_pass u idx m = Some (Some (of_nat (esz (L ! unat idx)), m'), u') \<and>
        entry_at m' 0 (L ! unat idx) \<and> uo_sim st u'"
      using U r(2, 3) by (simp add: uo_ReadEntry_pass_def S(2) Let_def)
  next
    assume a: "\<not> (unat idx < n \<and> idx \<le> replicated_index st)"
    show "\<exists>u'. uo_ReadEntry_pass u idx m = Some (None, u')"
    proof (cases "entries_cache_set st ?b")
      case None
      then show ?thesis
        using S(8) [OF None] inv(1)
        by (simp add: uo_ReadEntry_pass_def uo_ReadEntry_load_def uo_loadFromDiskToCache_def open_rdonly_def S(1, 2) Let_def)
    next
      case (Some x)
      note U = S(9) [OF Some, unfolded uo_stripe_def]
      have "lookup0 (uo_num_entries u) ?b \<le> local_cache_idx st idx \<or> uo_replicated_index u < idx"
        using U C(1) a sim Some by (auto simp: uo_sim_def cached_def)
      then show ?thesis
        using U by (auto simp: uo_ReadEntry_pass_def uo_ReadEntry_serve_def S(2, 3) Let_def)
    qed
  }
qed

text \<open>C14. The two servers answer reads alike: with an index that the coordinator has published, \<^verbatim>\<open>ReadEntryHandler\<close> of
  the server without a cache waits exactly when that of the other server does, and otherwise the responses have
  the same size and deserialize to the same entry, one taken from memory and one from the file at an offset computed
  from the map. Both servers stay related.\<close>

theorem uo_ReadEntryHandler_equiv:
  assumes L: "log_ok L" and h: "shard_holds N U L n s st" and sim: "uo_sim st u"
    and idx: "idx = get_le (buf req) 0" "unat idx mod N = s" "unat idx + N < 2 ^ 64" "idx \<le> global_index st"
    and sz: "tsz (cached st (base_idx_of st idx)) < 2 ^ 64"
  shows "case ReadEntryHandler slow resp req st of
      None \<Rightarrow> uo_ReadEntryHandler slow resp' req u = None
    | Some (r, st') \<Rightarrow> (\<exists>r' u'. uo_ReadEntryHandler slow resp' req u = Some (r', u') \<and> data_size r' = data_size r \<and>
        Deserializer e0 (buf r') 0 = Deserializer e0 (buf r) 0 \<and> uo_sim st' u')"
proof (cases "unat idx < n \<and> idx \<le> replicated_index st")
  case True
  let ?e = "L ! unat idx"
  have "unat idx < length L" using True shard_holdsD(7) [OF h] by simp
  then have e: "wf_entry ?e" "valid ?e" using L by (simp_all add: log_ok_def)
  have st: "ReadEntry_pass st idx = Some (Some ?e, st)"
    using ReadEntry_pass_eq [OF shard_holdsD(1) [OF h]] ReadEntry_serve_eq [OF h idx(2)] True idx(4) by simp
  obtain m' u' where u: "uo_ReadEntry_pass u idx (buf resp') = Some (Some (of_nat (esz ?e), m'), u')" "entry_at m' 0 ?e"
    "uo_sim st u'"
    using uo_ReadEntry_pass_ok(1) [OF L h sim idx(2, 3) sz True] by blast
  have sim': "uo_sim (st\<lparr>num_slow_path_reads := x\<rparr>) (u'\<lparr>uo_num_slow_path_reads := y\<rparr>)"
    "uo_sim (st\<lparr>num_fast_path_reads := x\<rparr>) (u'\<lparr>uo_num_fast_path_reads := y\<rparr>)" for x y
    using u(3) by (simp_all add: uo_sim_def uo_stripe_def cong: option.case_cong)
  have "snd (Serializer ?e (buf resp) 0) = of_nat (esz ?e)"
    using e(1) by (intro word_eq_of_nat ew.put_size)
  moreover have "Deserializer e0 m' 0 = Deserializer e0 (fst (Serializer ?e (buf resp) 0)) 0"
    using Deserializer_entry [OF u(2) e(1)] Deserializer_entry [OF entry_at_Serializer e(1)] e(2) by (simp add: valid_def)
  ultimately show ?thesis
    using st u(1) sim' by (simp add: ReadEntryHandler_def uo_ReadEntryHandler_def case_prod_beta resize_msg_buffer_def flip: idx(1))
next
  case False
  have st: "ReadEntry_pass st idx = Some (None, st)"
    using ReadEntry_pass_eq [OF shard_holdsD(1) [OF h]] ReadEntry_serve_eq [OF h idx(2)] False by auto
  obtain u' where "uo_ReadEntry_pass u idx (buf resp') = Some (None, u')"
    using uo_ReadEntry_pass_ok(2) [OF L h sim idx(2, 3) sz False] by blast
  then show ?thesis using st by (simp add: ReadEntryHandler_def uo_ReadEntryHandler_def flip: idx(1))
qed

section \<open>Restarts\<close>

text \<open>Loading the file of a stripe rebuilds the offsets, the size and the number of entries of the stripe.\<close>

lemma uo_loadFromDiskToCache_recovers:
  assumes c: "files (uo_os u) (uo_getDataFilePath u b) = Some c" "c \<noteq> []" "length c = tsz es" "entries_at (mapped c) 0 es"
    and es: "list_all wf_entry es" "list_all valid es" "tsz es < 2 ^ 64" "length es < 2 ^ 32"
    and fresh: "uo_num_entries u b = None"
  shows "\<exists>u'. uo_loadFromDiskToCache u b = Some (0, u') \<and> uo_stripe u' b es \<and> files (uo_os u') = files (uo_os u)"
proof -
  let ?p = "uo_getDataFilePath u b"
  obtain fd fs where a: "alloc_fd (uo_os u) (File ?p False 0) = (fd, fs)"
    by (cases "alloc_fd (uo_os u) (File ?p False 0)")
  note A = alloc_fd_spec [OF a]
  have o: "open_rdonly (uo_os u) ?p = (Some fd, fs)" using c(1) a by (simp add: open_rdonly_def)
  have f: "fstat_size fs fd = Some (tsz es)" "mmap_fd fs fd = Some c"
    using A(2, 4) c by (simp_all add: fstat_size_def mmap_fd_def)
  have "ProcessAndBuildMap_size Map.empty (mapped c) 0 (of_nat (tsz es)) 0 =
    Some (map_updates Map.empty (idx_offsets 0 es), of_nat (tsz es), of_nat (length es))"
    using ProcessAndBuildMap_size_loop_chain [of "mapped c" 0 0 es "of_nat (tsz es)" LogEntry_new Map.empty 0 0] c(4) es
    by (simp add: ProcessAndBuildMap_size_def unat_of_nat_small)
  moreover have "(ucast (of_nat (length es) :: u32) :: u64) = of_nat (length es)"
    using es(4) by (simp add: ucast_64_of_nat unat_of_nat_small)
  ultimately show ?thesis
    using o f A(4) fresh by (simp add: uo_loadFromDiskToCache_def uo_stripe_def lookup0_def)
qed

section \<open>Witnesses\<close>

definition uo_fresh :: "nat \<Rightarrow> nat \<Rightarrow> nat \<Rightarrow> ShardServerUnoptimized" where
  "uo_fresh N U s = (ShardServerUnoptimized_new (FileSys_new (\<lambda>_. True)))
     \<lparr>uo_stripe_unit_size := of_nat U, uo_shard_num := int N, uo_shard_id := int s, uo_folder_path := ''data''\<rparr>"

lemma uo_fresh_sim: "uo_sim (fresh_shard N U s) (uo_fresh N U s)"
  by (simp add: uo_sim_def fresh_shard_def uo_fresh_def ShardServer_new_def ShardServerUnoptimized_new_def)


definition index_message :: "u64 \<Rightarrow> MsgBuffer" where
  "index_message i = \<lparr>buf = put_le (\<lambda>_. 0) 0 i, data_size = 8\<rparr>"

theorem uo_ReadEntryHandler_equiv_witness:
  "\<exists>st u r st' r' u'. ReadEntryHandler False empty_msg (index_message 1) st = Some (r, st') \<and>
    uo_ReadEntryHandler False empty_msg (index_message 1) u = Some (r', u') \<and>
    Deserializer LogEntry_new (buf r') 0 = Deserializer LogEntry_new (buf r) 0 \<and> data_size r = 32 \<and> data_size r' = 32"
proof -
  have h: "shard_holds 2 2 (plain_log 4) 0 1 (fresh_shard 2 2 1)" by (rule fresh_shard_holds) simp_all
  obtain resp st bs u ws where a: "AppendBatchHandler (\<lambda>t. ReplicateBatchHandler empty_msg) empty_msg
      (batch_message [plain_entry 1, plain_entry 3]) (fresh_shard 2 2 1, []) = Some (resp, st, bs)"
    "shard_holds 2 2 (plain_log 4) 4 1 st" "uo_sim st u"
    using uo_AppendBatchHandler_sim [OF plain_log_ok serves_self serves_self h _ uo_fresh_sim _ sample_shard_batch,
        of "[]" "[]" empty_msg empty_msg empty_msg] by auto
  have ri: "unat (replicated_index st) = 3"
    using AppendBatchHandler_holds [OF plain_log_ok serves_self h _ sample_shard_batch, of "[]" empty_msg empty_msg] a(1)
    unfolding filter_odd_4 by auto
  let ?st = "st\<lparr>global_index := 3\<rparr>"
  have sim: "uo_sim ?st u" and hs: "shard_holds 2 2 (plain_log 4) 4 1 ?st"
    using a(2, 3) by (simp_all add: uo_sim_def cong: option.case_cong)
  have L: "log_ok (plain_log 4)" by (rule plain_log_ok) simp
  have i: "get_le (buf (index_message 1)) 0 = (1 :: u64)" by (simp add: index_message_def)
  have "cached ?st (base_idx_of ?st 1) = map ((!) (plain_log 4)) (shard_idxs 2 2 1 0 4)"
    using cached_lookup(4) [OF hs, of 1] by simp
  moreover have "shard_idxs 2 2 1 0 4 = [1, 3]" by code_simp
  ultimately have sz: "tsz (cached ?st (base_idx_of ?st 1)) < 2 ^ 64" by simp
  have rd: "ReadEntry_pass ?st 1 = Some (Some (plain_log 4 ! 1), ?st)"
    using ReadEntry_pass_eq [OF shard_holdsD(1) [OF hs], of 1] ReadEntry_serve_eq [OF hs, of 1] ri by (simp add: word_le_nat_alt)
  have "snd (Serializer (plain_log 4 ! 1) (buf empty_msg) 0) = of_nat (esz (plain_log 4 ! 1))"
    by (rule word_eq_of_nat, rule ew.put_size) simp
  then have r: "\<exists>r st'. ReadEntryHandler False empty_msg (index_message 1) ?st = Some (r, st') \<and> data_size r = 32"
    using rd by (simp add: ReadEntryHandler_def i case_prod_beta resize_msg_buffer_def)
  then show ?thesis
    using uo_ReadEntryHandler_equiv [OF L hs sim i [symmetric] _ _ _ sz, where slow = False and resp = empty_msg and resp' = empty_msg and ?e0.0 = LogEntry_new] by fastforce
qed

end
