(* ===== verification/Client.thy ===== *)
theory Client
  imports Dur_Cli Backend "HOL-Library.AList"
begin

text \<open>
  The client library, from \<^verbatim>\<open>src/src/client/lazylog_cli.cc\<close>, with the read side of the storage backend,
  \<^verbatim>\<open>NaiveReadBackend\<close> of \<^verbatim>\<open>src/src/cons_log/storage/naive_backend.cc\<close>. An append goes to every durability
  server, a read to the shard of its index.

  \<^verbatim>\<open>dur_clis_\<close> is an association list, in the order in which the loops of the client run through it.
  \<^verbatim>\<open>AppendEntryAll\<close> and \<^verbatim>\<open>AppendEntryQuorum\<close> send requests and then poll the event loop of eRPC until
  enough of them are completed. The requests that are sent and not answered are the field \<open>lc_flight\<close>;
  the tokens, which the requests share with the client, are the elements of \<open>lc_tokens\<close>. A run of the event loop
  processes the answers of some servers: which ones is the argument \<open>evs\<close>, with one list for every pass of the
  polling loop. \<open>None\<close> is undefined behaviour of the source (a server that is not connected, a request buffer
  that eRPC still uses), a server that never answers, or a loop that has not ended with the given answers.
  The shuffled order of servers in \<^verbatim>\<open>AppendEntry\<close> is an argument too.
\<close>

section \<open>The model\<close>

subsection \<open>Reading from the shards\<close>

record NaiveReadBackend =
  rb_stripe_unit_size :: u64
  rb_shard_num :: int
  rb_thread_id :: int
  rb_shard_clients :: "int \<rightharpoonup> ShardClient"

definition NaiveReadBackend_new :: "int \<Rightarrow> NaiveReadBackend" where
  "NaiveReadBackend_new th =
     \<lparr>rb_stripe_unit_size = 0, rb_shard_num = 0, rb_thread_id = th + uint CL_CLI_RPCID_OFFSET, rb_shard_clients = Map.empty\<rparr>"

definition NaiveReadBackend_InitializeBackend ::
  "(string \<Rightarrow> int \<Rightarrow> ShardClient) \<Rightarrow> Properties \<Rightarrow> NaiveReadBackend \<Rightarrow> (exn + NaiveReadBackend) option" where
  "NaiveReadBackend_InitializeBackend connect p rb =
     (case stoi (GetProperty p ''shard.stripe_unit_size'' ''100000'') of
        Inl x \<Rightarrow> Some (Inl x)
      | Inr su \<Rightarrow>
          let shd_servers = SeparateValue (GetProperty p ''shard.primary_uri'' ''localhost:31860'') CHR '',''
          in case stoll (GetProperty p ''shard.num'' []) of
               Inl x \<Rightarrow> Some (Inl x)
             | Inr n \<Rightarrow>
                 let shard_num = sint (of_int n :: u32)
                 in if int (length shd_servers) < shard_num then None
                    else Some (Inr (rb\<lparr>rb_stripe_unit_size := of_int su, rb_shard_num := shard_num,
                      rb_shard_clients := (\<lambda>i. if 0 \<le> i \<and> i < shard_num
                                               then Some (connect (shd_servers ! nat i) (rb_thread_id rb))
                                               else rb_shard_clients rb i)\<rparr>)))"

definition NaiveReadBackend_ReadEntry ::
  "(int \<Rightarrow> 's net) \<Rightarrow> NaiveReadBackend \<Rightarrow> u64 \<Rightarrow> LogEntry \<Rightarrow> (int \<Rightarrow> 's) \<Rightarrow>
    (bool \<times> LogEntry \<times> NaiveReadBackend \<times> (int \<Rightarrow> 's)) option" where
  "NaiveReadBackend_ReadEntry net rb idx e sv =
     (let shard = int_of_u64 (idx mod of_int (rb_shard_num rb))
      in case rb_shard_clients rb shard of
           None \<Rightarrow> None
         | Some c \<Rightarrow>
             (case ShardClient_ReadEntry (net shard) c idx e (sv shard) of
                None \<Rightarrow> None
              | Some (r, e, c, s) \<Rightarrow>
                  Some (True, e, rb\<lparr>rb_shard_clients := (rb_shard_clients rb)(shard \<mapsto> c)\<rparr>, sv(shard := s))))"

definition NaiveReadBackend_UpdateGlobalIdx :: "NaiveReadBackend \<Rightarrow> u64 \<Rightarrow> NaiveReadBackend" where
  "NaiveReadBackend_UpdateGlobalIdx rb idx = rb"

subsection \<open>The client\<close>

record LazyLogClient =
  dur_clis :: "(string \<times> DurabilityLogERPCCli) list"
  be_rd_cli :: NaiveReadBackend
  dl_primary :: string
  lc_client_id :: u64
  lc_seq :: Sequencer
  maj_threshold :: int
  lc_tokens :: "RPCToken list"
  lc_flight :: "(string \<times> MsgBuffer \<times> nat) list"

definition LazyLogClient_new :: "NaiveReadBackend \<Rightarrow> u64 \<Rightarrow> u64 \<times> LazyLogClient" where
  "LazyLogClient_new rb global_cli_id =
     (global_cli_id + 1,
      \<lparr>dur_clis = [], be_rd_cli = rb, dl_primary = [], lc_client_id = global_cli_id, lc_seq = Sequencer_new,
       maj_threshold = 0, lc_tokens = [], lc_flight = []\<rparr>)"

definition client_id_for :: "u64 \<Rightarrow> u32 \<Rightarrow> u64" where
  "client_id_for cli_id addr = cli_id + ucast (push_bit 6 addr)"

definition read_thread :: "Properties \<Rightarrow> byte \<Rightarrow> (exn + int \<times> byte) option" where
  "read_thread p global_th_id =
     (case stoull (GetProperty p ''shard.threadcount'' ''1'') of
        Inl x \<Rightarrow> Some (Inl x)
      | Inr thread_count \<Rightarrow>
          if ContainsKey p ''dur_log.client_id'' then
            (case stoull (GetProperty p ''dur_log.client_id'' []) of
               Inl x \<Rightarrow> Some (Inl x)
             | Inr i \<Rightarrow>
                 if thread_count = 0 then None else Some (Inr (int_of_u64 (i mod thread_count), global_th_id)))
          else if thread_count = 0 then None
          else Some (Inr (int_of_u64 (ucast global_th_id mod thread_count), global_th_id + 1)))"

definition LazyLogClient_Initialize ::
  "u32 \<Rightarrow> (string \<Rightarrow> DurabilityLogERPCCli) \<Rightarrow> (string \<Rightarrow> int \<Rightarrow> ShardClient) \<Rightarrow> Properties \<Rightarrow> byte \<Rightarrow> LazyLogClient \<Rightarrow>
    (exn + byte \<times> LazyLogClient) option" where
  "LazyLogClient_Initialize addr connect connect_shard p global_th_id c =
     (let dl_servers = SeparateValue (GetProperty p ''dur_log.server_uri'' ''localhost:31850'') CHR '','';
          c = c\<lparr>dl_primary := GetProperty p ''dur_log.primary_uri'' ''dur_log.primary_uri'',
                lc_client_id := client_id_for (lc_client_id c) addr,
                dur_clis := fold (\<lambda>s. AList.update s (ERPCCli_InitializeConn p s (connect s))) dl_servers (dur_clis c)\<rparr>
      in case read_thread p global_th_id of
           None \<Rightarrow> None
         | Some (Inl x) \<Rightarrow> Some (Inl x)
         | Some (Inr (th, global_th_id)) \<Rightarrow>
             (case NaiveReadBackend_InitializeBackend connect_shard p (NaiveReadBackend_new th) of
                None \<Rightarrow> None
              | Some (Inl x) \<Rightarrow> Some (Inl x)
              | Some (Inr rb) \<Rightarrow>
                  Some (Inr (global_th_id, c\<lparr>be_rd_cli := rb, maj_threshold := int (length dl_servers)\<rparr>))))"

definition constructLogEntry :: "LazyLogClient \<Rightarrow> byte list \<Rightarrow> LogEntry \<times> LazyLogClient" where
  "constructLogEntry c d =
     (let (s, sq) = GetNextSeq (lc_seq c) 1
      in (LogEntry_new\<lparr>client_id := lc_client_id c, client_seq := s, log_idx := 0, esize := of_nat (length d),
            flags := 1, data := d\<rparr>, c\<lparr>lc_seq := sq\<rparr>))"

subsection \<open>Requests in flight\<close>

definition ERPCCli_AppendEntryAsync :: "DurabilityLogERPCCli \<Rightarrow> LogEntry \<Rightarrow> DurabilityLogERPCCli \<times> MsgBuffer" where
  "ERPCCli_AppendEntryAsync d e =
     (let (m, len) = Serializer e (buf (req_buf d)) 0;
          req = resize_msg_buffer ((req_buf d)\<lparr>buf := m\<rparr>) (unat len)
      in (d\<lparr>req_buf := req\<rparr>, req))"

definition send_entry :: "string \<Rightarrow> LogEntry \<Rightarrow> LazyLogClient \<Rightarrow> (nat \<times> LazyLogClient) option" where
  "send_entry u e c =
     (case map_of (dur_clis c) u of
        None \<Rightarrow> None
      | Some d \<Rightarrow>
          if map_of (lc_flight c) u \<noteq> None then None
          else let t = length (lc_tokens c);
                   (d, req) = ERPCCli_AppendEntryAsync d e
               in Some (t, c\<lparr>dur_clis := AList.update u d (dur_clis c), lc_tokens := lc_tokens c @ [RPCToken_new],
                             lc_flight := (u, req, t) # lc_flight c\<rparr>))"

definition deliver ::
  "(string \<Rightarrow> 's net) \<Rightarrow> string \<Rightarrow> LazyLogClient \<times> (string \<Rightarrow> 's) \<Rightarrow> LazyLogClient \<times> (string \<Rightarrow> 's)" where
  "deliver net u cs =
     (case cs of (c, sv) \<Rightarrow>
        case map_of (lc_flight c) u of
          None \<Rightarrow> (c, sv)
        | Some (req, t) \<Rightarrow>
            (case net u APPEND_ENTRY req (sv u) of
               None \<Rightarrow> (c, sv)
             | Some (r, s) \<Rightarrow>
                 (c\<lparr>lc_flight := AList.delete u (lc_flight c),
                    lc_tokens := (lc_tokens c)[t := SetComplete (lc_tokens c ! t)],
                    dur_clis := AList.map_entry u (\<lambda>d. d\<lparr>resp_buf := r\<rparr>) (dur_clis c)\<rparr>, sv(u := s))))"

definition RunERPC ::
  "(string \<Rightarrow> 's net) \<Rightarrow> string list \<Rightarrow> LazyLogClient \<times> (string \<Rightarrow> 's) \<Rightarrow> LazyLogClient \<times> (string \<Rightarrow> 's)" where
  "RunERPC net us cs = fold (deliver net) us cs"

subsection \<open>Appending\<close>

fun AppendEntry_loop ::
  "(string \<Rightarrow> 's net) \<Rightarrow> string list \<Rightarrow> LogEntry \<Rightarrow> u64 list \<Rightarrow> LazyLogClient \<Rightarrow> (string \<Rightarrow> 's) \<Rightarrow>
    (u64 list \<times> LazyLogClient \<times> (string \<Rightarrow> 's)) option" where
  "AppendEntry_loop net [] e sequence_nums c sv = Some (sequence_nums, c, sv)"
| "AppendEntry_loop net (u # us) e sequence_nums c sv =
     (case map_of (dur_clis c) u of
        None \<Rightarrow> None
      | Some d \<Rightarrow>
          if map_of (lc_flight c) u \<noteq> None then None
          else case ERPCCli_AppendEntry (net u) d e (sv u) of
                 None \<Rightarrow> None
               | Some (r, d, s) \<Rightarrow>
                   let seq_num = r div 40
                   in AppendEntry_loop net us e (if IsPrimary d then seq_num # sequence_nums else sequence_nums @ [seq_num])
                        (c\<lparr>dur_clis := AList.update u d (dur_clis c)\<rparr>) (sv(u := s)))"

definition LazyLogClient_AppendEntry ::
  "(string \<Rightarrow> 's net) \<Rightarrow> string list \<Rightarrow> byte list \<Rightarrow> LazyLogClient \<Rightarrow> (string \<Rightarrow> 's) \<Rightarrow>
    (u64 list \<times> LazyLogClient \<times> (string \<Rightarrow> 's)) option" where
  "LazyLogClient_AppendEntry net order d c sv =
     (case constructLogEntry c d of (e, c) \<Rightarrow> AppendEntry_loop net order e [] c sv)"

definition quorumCompleted :: "LazyLogClient \<Rightarrow> nat option \<Rightarrow> nat list \<Rightarrow> bool option" where
  "quorumCompleted c pri_token tokens =
     (case pri_token of
        None \<Rightarrow> None
      | Some t \<Rightarrow>
          Some (Complete (lc_tokens c ! t) \<and>
            maj_threshold c \<le> int (length (filter (\<lambda>t. Complete (lc_tokens c ! t)) tokens)) + 1))"

definition allCompleted :: "LazyLogClient \<Rightarrow> nat list \<Rightarrow> bool" where
  "allCompleted c tokens \<longleftrightarrow> list_all (\<lambda>t. Complete (lc_tokens c ! t)) tokens"

fun AppendEntryQuorum_send ::
  "string list \<Rightarrow> LogEntry \<Rightarrow> nat option \<Rightarrow> nat list \<Rightarrow> LazyLogClient \<Rightarrow> (nat option \<times> nat list \<times> LazyLogClient) option" where
  "AppendEntryQuorum_send [] e pri_token tokens c = Some (pri_token, tokens, c)"
| "AppendEntryQuorum_send (u # us) e pri_token tokens c =
     (case send_entry u e c of
        None \<Rightarrow> None
      | Some (t, c) \<Rightarrow>
          (case map_of (dur_clis c) u of
             None \<Rightarrow> None
           | Some d \<Rightarrow>
               (let c = c\<lparr>dur_clis := AList.update u (AddPendingReq d t) (dur_clis c)\<rparr>
                in if IsPrimary d then AppendEntryQuorum_send us e (Some t) tokens c
                   else AppendEntryQuorum_send us e pri_token (tokens @ [t]) c)))"

definition check_pending ::
  "(string \<Rightarrow> 's net) \<Rightarrow> string \<Rightarrow> string list \<Rightarrow> LazyLogClient \<times> (string \<Rightarrow> 's) \<Rightarrow> LazyLogClient \<times> (string \<Rightarrow> 's)" where
  "check_pending net u evs cs =
     (case map_of (dur_clis (fst cs)) u of
        None \<Rightarrow> cs
      | Some d \<Rightarrow>
          if pending_reqs d = [] then cs
          else let (c, sv) = RunERPC net evs cs;
                   run = (\<lambda>_. (!) (lc_tokens c))
               in (c\<lparr>dur_clis := AList.map_entry u (\<lambda>d. fst (CheckPendingReq run d ((!) (lc_tokens (fst cs))))) (dur_clis c)\<rparr>, sv))"

fun check_all_pending ::
  "(string \<Rightarrow> 's net) \<Rightarrow> string list \<Rightarrow> string list list \<Rightarrow> LazyLogClient \<times> (string \<Rightarrow> 's) \<Rightarrow> LazyLogClient \<times> (string \<Rightarrow> 's)" where
  "check_all_pending net [] evs cs = cs"
| "check_all_pending net (u # us) [] cs = check_all_pending net us [] (check_pending net u [] cs)"
| "check_all_pending net (u # us) (ev # evs) cs = check_all_pending net us evs (check_pending net u ev cs)"

fun AppendEntryQuorum_wait ::
  "(string \<Rightarrow> 's net) \<Rightarrow> string list \<Rightarrow> string list list list \<Rightarrow> nat option \<Rightarrow> nat list \<Rightarrow> LazyLogClient \<times> (string \<Rightarrow> 's) \<Rightarrow>
    (LazyLogClient \<times> (string \<Rightarrow> 's)) option" where
  "AppendEntryQuorum_wait net us [] pri_token tokens cs = None"
| "AppendEntryQuorum_wait net us (ev # evs) pri_token tokens cs =
     (let cs = check_all_pending net us ev cs
      in case quorumCompleted (fst cs) pri_token tokens of
           None \<Rightarrow> None
         | Some True \<Rightarrow> Some cs
         | Some False \<Rightarrow> AppendEntryQuorum_wait net us evs pri_token tokens cs)"

definition AppendEntryQuorum ::
  "(string \<Rightarrow> 's net) \<Rightarrow> string list list list \<Rightarrow> byte list \<Rightarrow> LazyLogClient \<Rightarrow> (string \<Rightarrow> 's) \<Rightarrow>
    ((u64 \<times> u64) \<times> LazyLogClient \<times> (string \<Rightarrow> 's)) option" where
  "AppendEntryQuorum net evs d c sv =
     (let (e, c) = constructLogEntry c d; us = map fst (dur_clis c)
      in case AppendEntryQuorum_send us e None [] c of
           None \<Rightarrow> None
         | Some (pri_token, tokens, c) \<Rightarrow>
             (case AppendEntryQuorum_wait net us evs pri_token tokens (c, sv) of
                None \<Rightarrow> None
              | Some (c, sv) \<Rightarrow> Some ((client_id e, client_seq e), c, sv)))"

fun AppendEntryAll_send :: "string list \<Rightarrow> LogEntry \<Rightarrow> LazyLogClient \<Rightarrow> (nat list \<times> LazyLogClient) option" where
  "AppendEntryAll_send [] e c = Some ([], c)"
| "AppendEntryAll_send (u # us) e c =
     (case send_entry u e c of
        None \<Rightarrow> None
      | Some (t, c) \<Rightarrow>
          (case AppendEntryAll_send us e c of None \<Rightarrow> None | Some (ts, c) \<Rightarrow> Some (t # ts, c)))"

fun AppendEntryAll_wait ::
  "(string \<Rightarrow> 's net) \<Rightarrow> string list list \<Rightarrow> nat list \<Rightarrow> LazyLogClient \<times> (string \<Rightarrow> 's) \<Rightarrow>
    (LazyLogClient \<times> (string \<Rightarrow> 's)) option" where
  "AppendEntryAll_wait net [] tokens cs = None"
| "AppendEntryAll_wait net (ev # evs) tokens cs =
     (let cs = RunERPC net ev cs
      in if allCompleted (fst cs) tokens then Some cs else AppendEntryAll_wait net evs tokens cs)"

definition AppendEntryAll ::
  "(string \<Rightarrow> 's net) \<Rightarrow> string list list \<Rightarrow> byte list \<Rightarrow> LazyLogClient \<Rightarrow> (string \<Rightarrow> 's) \<Rightarrow>
    ((u64 \<times> u64) \<times> LazyLogClient \<times> (string \<Rightarrow> 's)) option" where
  "AppendEntryAll net evs d c sv =
     (let (e, c) = constructLogEntry c d
      in case AppendEntryAll_send (map fst (dur_clis c)) e c of
           None \<Rightarrow> None
         | Some (tokens, c) \<Rightarrow>
             (case AppendEntryAll_wait net evs tokens (c, sv) of
                None \<Rightarrow> None
              | Some (c, sv) \<Rightarrow> Some ((client_id e, client_seq e), c, sv)))"

definition OrderEntry :: "byte list \<Rightarrow> u64" where
  "OrderEntry d = 0"

subsection \<open>Reading\<close>

definition LazyLogClient_ReadEntry ::
  "(int \<Rightarrow> 's net) \<Rightarrow> u64 \<Rightarrow> LazyLogClient \<Rightarrow> (int \<Rightarrow> 's) \<Rightarrow> (bool \<times> byte list \<times> LazyLogClient \<times> (int \<Rightarrow> 's)) option" where
  "LazyLogClient_ReadEntry net idx c sv =
     (case NaiveReadBackend_ReadEntry net (be_rd_cli c) idx LogEntry_new sv of
        None \<Rightarrow> None
      | Some (ret, e, rb, sv) \<Rightarrow> Some (ret, data e, c\<lparr>be_rd_cli := rb\<rparr>, sv))"

definition LazyLogClient_ReadEntries :: "u64 \<Rightarrow> u64 \<Rightarrow> LogEntry list \<Rightarrow> bool \<times> LogEntry list" where
  "LazyLogClient_ReadEntries f t es = (False, es)"

definition LazyLogClient_SpecReadEntry ::
  "(string \<Rightarrow> 's net) \<Rightarrow> u64 \<Rightarrow> byte list \<Rightarrow> LazyLogClient \<Rightarrow> (string \<Rightarrow> 's) \<Rightarrow>
    (int \<times> byte list \<times> LazyLogClient \<times> (string \<Rightarrow> 's)) option" where
  "LazyLogClient_SpecReadEntry net idx d c sv =
     (let u = dl_primary c
      in case map_of (dur_clis c) u of
           None \<Rightarrow> None
         | Some dc \<Rightarrow>
             (case ERPCCli_SpecRead (net u) dc idx LogEntry_new (sv u) of
                None \<Rightarrow> None
              | Some (ret_v, e, dc, s) \<Rightarrow>
                  Some (ret_v, if 0 < ret_v then data e else d, c\<lparr>dur_clis := AList.update u dc (dur_clis c)\<rparr>, sv(u := s))))"

definition GetTail ::
  "(string \<Rightarrow> 's net) \<Rightarrow> LazyLogClient \<Rightarrow> (string \<Rightarrow> 's) \<Rightarrow> ((u64 \<times> u64 \<times> u16) \<times> LazyLogClient \<times> (string \<Rightarrow> 's)) option" where
  "GetTail net c sv =
     (let u = dl_primary c
      in case map_of (dur_clis c) u of
           None \<Rightarrow> None
         | Some dc \<Rightarrow>
             (case ERPCCli_GetNumDurEntry (net u) dc (sv u) of
                None \<Rightarrow> None
              | Some (tail, dc, s) \<Rightarrow> Some (tail, c\<lparr>dur_clis := AList.update u dc (dur_clis c)\<rparr>, sv(u := s))))"

section \<open>Calls in progress\<close>

text \<open>
  \<open>append_call A e uts sv0 (c, sv)\<close>: the client has sent the entry \<open>e\<close> to the servers of \<open>uts\<close>, each with
  its token, in the state \<open>sv0\<close> of the servers. For each server either its request is in flight, its token is not
  completed and the server is as before, or its token is completed and the server has appended the entry.
\<close>

definition append_call ::
  "(string \<Rightarrow> 's \<Rightarrow> 's \<Rightarrow> bool) \<Rightarrow> LogEntry \<Rightarrow> (string \<times> nat) list \<Rightarrow> (string \<Rightarrow> 's) \<Rightarrow> LazyLogClient \<times> (string \<Rightarrow> 's) \<Rightarrow> bool" where
  "append_call A e uts sv0 cs \<longleftrightarrow>
     distinct (map fst uts) \<and> distinct (map snd uts) \<and> snd ` set uts \<subseteq> {..<length (lc_tokens (fst cs))} \<and>
     distinct (map fst (lc_flight (fst cs))) \<and> fst ` set (lc_flight (fst cs)) \<subseteq> fst ` set uts \<and>
     (\<forall>u t. (u, t) \<in> set uts \<longrightarrow>
        (case map_of (lc_flight (fst cs)) u of
           Some (req, t') \<Rightarrow> t' = t \<and> entry_msg e req \<and> \<not> Complete (lc_tokens (fst cs) ! t) \<and> snd cs u = sv0 u
         | None \<Rightarrow> Complete (lc_tokens (fst cs) ! t) \<and> A u (sv0 u) (snd cs u))) \<and>
     (\<forall>u. u \<notin> fst ` set uts \<longrightarrow> snd cs u = sv0 u)"

lemma append_callD:
  assumes "append_call A e uts sv0 cs" "(u, t) \<in> set uts"
  shows "t < length (lc_tokens (fst cs))"
    and "map_of (lc_flight (fst cs)) u = None \<longleftrightarrow> Complete (lc_tokens (fst cs) ! t)"
    and "map_of (lc_flight (fst cs)) u = None \<Longrightarrow> A u (sv0 u) (snd cs u)"
    and "map_of (lc_flight (fst cs)) u = Some (req, t') \<Longrightarrow> t' = t \<and> entry_msg e req \<and> snd cs u = sv0 u"
proof -
  have "case map_of (lc_flight (fst cs)) u of
      Some (req, t') \<Rightarrow> t' = t \<and> entry_msg e req \<and> \<not> Complete (lc_tokens (fst cs) ! t) \<and> snd cs u = sv0 u
    | None \<Rightarrow> Complete (lc_tokens (fst cs) ! t) \<and> A u (sv0 u) (snd cs u)"
    using assms unfolding append_call_def by blast
  then show "map_of (lc_flight (fst cs)) u = None \<longleftrightarrow> Complete (lc_tokens (fst cs) ! t)"
    "map_of (lc_flight (fst cs)) u = None \<Longrightarrow> A u (sv0 u) (snd cs u)"
    "map_of (lc_flight (fst cs)) u = Some (req, t') \<Longrightarrow> t' = t \<and> entry_msg e req \<and> snd cs u = sv0 u"
    by (auto split: option.splits)
  show "t < length (lc_tokens (fst cs))" using assms by (auto simp: append_call_def)
qed

lemma append_call_cli:
  "append_call A e uts sv0 (c\<lparr>dur_clis := x\<rparr>, sv) = append_call A e uts sv0 (c, sv)"
  by (simp add: append_call_def cong: option.case_cong)

lemma token_at_most_once:
  assumes "distinct (map fst uts)" "distinct (map snd uts)" "(u, t) \<in> set uts" "(u', t') \<in> set uts"
  shows "u = u' \<longleftrightarrow> t = t'"
  using assms by (metis eq_key_imp_eq_value in_set_zip distinct_map inj_onD fst_conv snd_conv prod.inject)

lemma send_entry_call:
  assumes call: "append_call A e uts sv (c, sv)" and u: "u \<in> fst ` set (dur_clis c)" "u \<notin> fst ` set uts" and e: "wf_entry e"
  shows "\<exists>t d c'. send_entry u e c = Some (t, c') \<and> append_call A e (uts @ [(u, t)]) sv (c', sv) \<and>
      c' = c\<lparr>dur_clis := AList.update u d (dur_clis c), lc_tokens := lc_tokens c @ [RPCToken_new],
        lc_flight := (u, req_buf d, t) # lc_flight c\<rparr> \<and> IsPrimary d = IsPrimary (the (map_of (dur_clis c) u))"
proof -
  obtain d0 where d0: "map_of (dur_clis c) u = Some d0"
    using u(1) by (metis domD dom_map_of_conv_image_fst)
  have "u \<notin> fst ` set (lc_flight c)" using call u(2) by (auto simp: append_call_def)
  then have f: "map_of (lc_flight c) u = None" by (simp add: map_of_eq_None_iff)
  define t where "t = length (lc_tokens c)"
  define req where "req = resize_msg_buffer ((req_buf d0)\<lparr>buf := fst (Serializer e (buf (req_buf d0)) 0)\<rparr>)
    (unat (snd (Serializer e (buf (req_buf d0)) 0)))"
  define c' where "c' = c\<lparr>dur_clis := AList.update u (d0\<lparr>req_buf := req\<rparr>) (dur_clis c),
    lc_tokens := lc_tokens c @ [RPCToken_new], lc_flight := (u, req, t) # lc_flight c\<rparr>"
  have c': "lc_flight c' = (u, req, t) # lc_flight c" "lc_tokens c' = lc_tokens c @ [RPCToken_new]" by (simp_all add: c'_def)
  have msg: "entry_msg e req" unfolding req_def by (rule entry_msg_Serializer [OF e])
  have old: "case map_of (lc_flight c') v of
      Some (req, k') \<Rightarrow> k' = k \<and> entry_msg e req \<and> \<not> Complete (lc_tokens c' ! k) \<and> sv v = sv v
    | None \<Rightarrow> Complete (lc_tokens c' ! k) \<and> A v (sv v) (sv v)" if vt: "(v, k) \<in> set uts" for v k
  proof -
    have "v \<noteq> u" using vt u(2) by force
    moreover have "k < length (lc_tokens c)" using append_callD(1) [OF call vt] by simp
    ultimately show ?thesis
      using append_callD(2-4) [OF call vt] by (auto simp: c' nth_append split: option.splits)
  qed
  have new: "case map_of (lc_flight c') u of
      Some (req, k') \<Rightarrow> k' = t \<and> entry_msg e req \<and> \<not> Complete (lc_tokens c' ! t) \<and> sv u = sv u
    | None \<Rightarrow> Complete (lc_tokens c' ! t) \<and> A u (sv u) (sv u)"
    using msg by (simp add: c' t_def Complete_def RPCToken_new_def)
  have lt: "snd ` set uts \<subseteq> {..<t}" using call by (simp add: append_call_def t_def)
  have dist: "distinct (map snd (uts @ [(u, t)]))" "distinct (map fst (uts @ [(u, t)]))"
    using call u(2) lt by (auto simp: append_call_def)
  have call': "append_call A e (uts @ [(u, t)]) sv (c', sv)"
    unfolding append_call_def
  proof (intro conjI allI impI dist)
    show "snd ` set (uts @ [(u, t)]) \<subseteq> {..<length (lc_tokens (fst (c', sv)))}" using lt by (auto simp: c' t_def)
    show "distinct (map fst (lc_flight (fst (c', sv))))"
      using call \<open>u \<notin> fst ` set (lc_flight c)\<close> by (simp add: append_call_def c')
    show "fst ` set (lc_flight (fst (c', sv))) \<subseteq> fst ` set (uts @ [(u, t)])" using call by (auto simp: append_call_def c')
    fix v k assume "(v, k) \<in> set (uts @ [(u, t)])"
    then show "case map_of (lc_flight (fst (c', sv))) v of
        Some (req, t') \<Rightarrow> t' = k \<and> entry_msg e req \<and> \<not> Complete (lc_tokens (fst (c', sv)) ! k) \<and> snd (c', sv) v = sv v
      | None \<Rightarrow> Complete (lc_tokens (fst (c', sv)) ! k) \<and> A v (sv v) (snd (c', sv) v)"
      unfolding fst_conv snd_conv using old new by auto
  qed simp
  have "send_entry u e c = Some (t, c')"
    using d0 f by (simp add: send_entry_def ERPCCli_AppendEntryAsync_def case_prod_beta Let_def c'_def req_def t_def)
  then show ?thesis
    using d0 call'
    by (intro exI [of _ t] exI [of _ "d0\<lparr>req_buf := req\<rparr>"] exI [of _ c']) (simp add: IsPrimary_def c'_def)
qed

lemma AppendEntryAll_send_call:
  assumes "append_call A e uts sv (c, sv)" "set us \<subseteq> fst ` set (dur_clis c)" "set us \<inter> fst ` set uts = {}" "distinct us" "wf_entry e"
  shows "\<exists>ts c'. AppendEntryAll_send us e c = Some (ts, c') \<and> length ts = length us \<and>
    append_call A e (uts @ zip us ts) sv (c', sv) \<and> fst ` set (lc_flight c') = fst ` set (lc_flight c) \<union> set us"
  using assms
proof (induction us arbitrary: c uts)
  case (Cons u us)
  obtain t d c1 where s: "send_entry u e c = Some (t, c1)" "append_call A e (uts @ [(u, t)]) sv (c1, sv)"
    "dur_clis c1 = AList.update u d (dur_clis c)" "lc_flight c1 = (u, req_buf d, t) # lc_flight c"
    using send_entry_call [OF Cons.prems(1), of u] Cons.prems(2, 3, 5) by auto
  have "map fst (dur_clis c1) = map fst (dur_clis c)" using Cons.prems(2) by (simp add: s(3) update_keys)
  then have "fst ` set (dur_clis c1) = fst ` set (dur_clis c)" by (metis image_set)
  then obtain ts c' where r: "AppendEntryAll_send us e c1 = Some (ts, c')" "length ts = length us"
    "append_call A e ((uts @ [(u, t)]) @ zip us ts) sv (c', sv)" "fst ` set (lc_flight c') = fst ` set (lc_flight c1) \<union> set us"
    using Cons.IH [OF s(2)] Cons.prems by auto
  then show ?case using s(1, 4) by (intro exI [of _ "t # ts"] exI [of _ c']) auto
qed auto

text \<open>What a client relies on: a server that is ready for an entry answers the request and has then appended it.\<close>

locale append_service =
  fixes net :: "string \<Rightarrow> 's net"
    and ready :: "LogEntry \<Rightarrow> string \<Rightarrow> 's \<Rightarrow> bool"
    and appended :: "LogEntry \<Rightarrow> string \<Rightarrow> 's \<Rightarrow> 's \<Rightarrow> bool"
  assumes append_served: "ready e u s \<Longrightarrow> entry_msg e req \<Longrightarrow>
    \<exists>r s'. net u APPEND_ENTRY req s = Some (r, s') \<and> appended e u s s'"
begin

lemma deliver_call:
  assumes call: "append_call (appended e) e uts sv0 cs" and ready: "\<forall>u\<in>fst ` set uts. ready e u (sv0 u)"
  shows "append_call (appended e) e uts sv0 (deliver net x cs)"
    and "map_of (lc_flight (fst (deliver net x cs))) = (map_of (lc_flight (fst cs)))(x := None)"
    and "maj_threshold (fst (deliver net x cs)) = maj_threshold (fst cs)"
proof -
  obtain c sv where cs: "cs = (c, sv)" by (cases cs)
  have "append_call (appended e) e uts sv0 (deliver net x cs) \<and>
      map_of (lc_flight (fst (deliver net x cs))) = (map_of (lc_flight (fst cs)))(x := None) \<and>
      maj_threshold (fst (deliver net x cs)) = maj_threshold (fst cs)"
  proof (cases "map_of (lc_flight c) x")
    case None
    then show ?thesis using call by (simp add: cs deliver_def fun_upd_idem)
  next
    case (Some rt)
    obtain req t where rt: "rt = (req, t)" by (cases rt)
    have "x \<in> fst ` set (lc_flight c)" using Some by (metis domI dom_map_of_conv_image_fst)
    then have x: "x \<in> fst ` set uts" using call by (auto simp: append_call_def cs)
    then obtain t' where xt': "(x, t') \<in> set uts" by force
    then have xt: "(x, t) \<in> set uts" "entry_msg e req" "sv x = sv0 x"
      using append_callD(4) [OF call xt'] Some by (auto simp: cs rt)
    obtain r s where n: "net x APPEND_ENTRY req (sv x) = Some (r, s)" "appended e x (sv x) s"
      using append_served [OF bspec [OF ready x] xt(2)] xt(3) by auto
    define c' where "c' = c\<lparr>lc_flight := AList.delete x (lc_flight c), lc_tokens := (lc_tokens c)[t := SetComplete (lc_tokens c ! t)],
        dur_clis := AList.map_entry x (\<lambda>d. d\<lparr>resp_buf := r\<rparr>) (dur_clis c)\<rparr>"
    have c': "lc_flight c' = AList.delete x (lc_flight c)" "lc_tokens c' = (lc_tokens c)[t := SetComplete (lc_tokens c ! t)]"
      "maj_threshold c' = maj_threshold c"
      by (simp_all add: c'_def)
    have d: "deliver net x cs = (c', sv(x := s))" using Some n(1) by (simp add: cs rt deliver_def c'_def)
    have f: "map_of (lc_flight c') = (map_of (lc_flight c))(x := None)" by (simp add: c' delete_conv')
    have dist: "distinct (map fst uts)" "distinct (map snd uts)" using call by (simp_all add: append_call_def)
    have tl: "t < length (lc_tokens c)" using append_callD(1) [OF call xt(1)] by (simp add: cs)
    have each: "case map_of (lc_flight c') u of
        Some (req, t') \<Rightarrow> t' = k \<and> entry_msg e req \<and> \<not> Complete (lc_tokens c' ! k) \<and> (sv(x := s)) u = sv0 u
      | None \<Rightarrow> Complete (lc_tokens c' ! k) \<and> appended e u (sv0 u) ((sv(x := s)) u)" if uk: "(u, k) \<in> set uts" for u k
    proof (cases "u = x")
      case True
      then have "k = t" using token_at_most_once [OF dist uk xt(1)] by simp
      then show ?thesis using True n(2) xt(3) tl unfolding f c'(2) by (simp add: Complete_def SetComplete_def)
    next
      case False
      then have "k \<noteq> t" using token_at_most_once [OF dist uk xt(1)] by simp
      then show ?thesis
        using False append_callD(2-4) [OF call uk] unfolding f c'(2) by (auto simp: cs split: option.splits)
    qed
    have k0: "distinct (map fst (lc_flight c))" "fst ` set (lc_flight c) \<subseteq> fst ` set uts"
      "snd ` set uts \<subseteq> {..<length (lc_tokens c)}" "\<And>u. u \<notin> fst ` set uts \<Longrightarrow> sv u = sv0 u"
      using call by (simp_all add: append_call_def cs)
    have keys: "distinct (map fst (lc_flight c'))" "fst ` set (lc_flight c') \<subseteq> fst ` set uts"
      "snd ` set uts \<subseteq> {..<length (lc_tokens c')}" "\<And>u. u \<notin> fst ` set uts \<Longrightarrow> (sv(x := s)) u = sv0 u"
      using k0 x dom_delete_subset [of x "lc_flight c"] distinct_delete [OF k0(1), of x] by (auto simp: c'(1, 2))
    have "append_call (appended e) e uts sv0 (c', sv(x := s))"
      unfolding append_call_def fst_conv snd_conv using each keys dist by blast
    then show ?thesis unfolding d fst_conv f by (simp add: c'(3) cs)
  qed
  then show "append_call (appended e) e uts sv0 (deliver net x cs)"
    "map_of (lc_flight (fst (deliver net x cs))) = (map_of (lc_flight (fst cs)))(x := None)"
    "maj_threshold (fst (deliver net x cs)) = maj_threshold (fst cs)" by blast+
qed

lemma RunERPC_call:
  assumes "append_call (appended e) e uts sv0 cs" "\<forall>u\<in>fst ` set uts. ready e u (sv0 u)"
  shows "append_call (appended e) e uts sv0 (RunERPC net us cs)"
    and "map_of (lc_flight (fst (RunERPC net us cs))) u = (if u \<in> set us then None else map_of (lc_flight (fst cs)) u)"
    and "maj_threshold (fst (RunERPC net us cs)) = maj_threshold (fst cs)"
proof -
  have "append_call (appended e) e uts sv0 (RunERPC net us cs) \<and>
    map_of (lc_flight (fst (RunERPC net us cs))) u = (if u \<in> set us then None else map_of (lc_flight (fst cs)) u) \<and>
    maj_threshold (fst (RunERPC net us cs)) = maj_threshold (fst cs)"
    using assms(1)
    by (induction us arbitrary: cs) (simp_all add: RunERPC_def deliver_call [OF _ assms(2)])
  then show "append_call (appended e) e uts sv0 (RunERPC net us cs)"
    "map_of (lc_flight (fst (RunERPC net us cs))) u = (if u \<in> set us then None else map_of (lc_flight (fst cs)) u)"
    "maj_threshold (fst (RunERPC net us cs)) = maj_threshold (fst cs)" by blast+
qed

end

lemma AppendEntryQuorum_send_call:
  assumes "append_call A e uts sv (c, sv)" "set us \<subseteq> fst ` set (dur_clis c)" "set us \<inter> fst ` set uts = {}" "distinct us" "wf_entry e"
    and "\<And>u d. map_of (dur_clis c) u = Some d \<Longrightarrow> IsPrimary d \<longleftrightarrow> u = p"
  shows "\<exists>ts c'. AppendEntryQuorum_send us e (map_of uts p) (map snd (filter (\<lambda>ut. fst ut \<noteq> p) uts)) c =
      Some (map_of (uts @ zip us ts) p, map snd (filter (\<lambda>ut. fst ut \<noteq> p) (uts @ zip us ts)), c') \<and> length ts = length us \<and>
    append_call A e (uts @ zip us ts) sv (c', sv) \<and> maj_threshold c' = maj_threshold c"
  using assms
proof (induction us arbitrary: c uts)
  case (Cons u us)
  obtain t d c1 where s: "send_entry u e c = Some (t, c1)" "append_call A e (uts @ [(u, t)]) sv (c1, sv)"
    "c1 = c\<lparr>dur_clis := AList.update u d (dur_clis c), lc_tokens := lc_tokens c @ [RPCToken_new],
      lc_flight := (u, req_buf d, t) # lc_flight c\<rparr>" "IsPrimary d = IsPrimary (the (map_of (dur_clis c) u))"
    using send_entry_call [OF Cons.prems(1), of u] Cons.prems(2, 3, 5) by auto
  obtain d0 where d0: "map_of (dur_clis c) u = Some d0"
    using Cons.prems(2) by (metis domD dom_map_of_conv_image_fst list.set_intros(1) subsetD)
  have d: "map_of (dur_clis c1) u = Some d" "IsPrimary d \<longleftrightarrow> u = p"
    using s(3, 4) Cons.prems(6) [OF d0] d0 by (simp_all add: update_conv')
  define c2 where "c2 = c1\<lparr>dur_clis := AList.update u (AddPendingReq d t) (dur_clis c1)\<rparr>"
  have m: "map_of (dur_clis c2) = (map_of (dur_clis c))(u \<mapsto> AddPendingReq d t)"
    by (simp add: c2_def s(3) update_conv')
  have "map fst (dur_clis c2) = map fst (dur_clis c)"
    using Cons.prems(2) by (simp add: c2_def s(3) update_keys)
  then have k: "fst ` set (dur_clis c2) = fst ` set (dur_clis c)" by (metis image_set)
  have call2: "append_call A e (uts @ [(u, t)]) sv (c2, sv)" using s(2) by (simp add: c2_def append_call_cli)
  have prim: "IsPrimary x \<longleftrightarrow> v = p" if "map_of (dur_clis c2) v = Some x" for v x
    using that d(2) Cons.prems(6) [of v x] by (auto simp: m AddPendingReq_def IsPrimary_def split: if_splits)
  let ?uts = "uts @ [(u, t)]"
  obtain ts c' where r: "AppendEntryQuorum_send us e (map_of ?uts p) (map snd (filter (\<lambda>ut. fst ut \<noteq> p) ?uts)) c2 =
      Some (map_of (?uts @ zip us ts) p, map snd (filter (\<lambda>ut. fst ut \<noteq> p) (?uts @ zip us ts)), c')" "length ts = length us"
    "append_call A e (?uts @ zip us ts) sv (c', sv)" "maj_threshold c' = maj_threshold c2"
    using Cons.IH [OF call2 _ _ _ Cons.prems(5) prim] Cons.prems(2-4) by (auto simp: k)
  have n: "map_of uts u = None" using Cons.prems(3) by (simp add: map_of_eq_None_iff)
  have "AppendEntryQuorum_send (u # us) e (map_of uts p) (map snd (filter (\<lambda>ut. fst ut \<noteq> p) uts)) c =
      AppendEntryQuorum_send us e (map_of ?uts p) (map snd (filter (\<lambda>ut. fst ut \<noteq> p) ?uts)) c2"
    using s(1) d n by (cases "u = p") (auto simp: Let_def c2_def map_add_def split: option.split)
  then show ?case
    using r by (intro exI [of _ "t # ts"] exI [of _ c']) (simp add: c2_def s(3))
qed auto

context append_service
begin

lemma allCompleted_call:
  assumes "append_call (appended e) e uts sv0 cs"
  shows "allCompleted (fst cs) (map snd uts) \<longleftrightarrow> (\<forall>u\<in>fst ` set uts. map_of (lc_flight (fst cs)) u = None)"
  using append_callD(2) [OF assms] by (fastforce simp: allCompleted_def list_all_iff)

lemma AppendEntryAll_wait_call:
  assumes "append_call (appended e) e uts sv0 cs" and ready: "\<forall>u\<in>fst ` set uts. ready e u (sv0 u)"
  shows "AppendEntryAll_wait net evs (map snd uts) cs = Some cs' \<Longrightarrow>
      append_call (appended e) e uts sv0 cs' \<and> (\<forall>u\<in>fst ` set uts. map_of (lc_flight (fst cs')) u = None)"
    and "(\<exists>cs'. AppendEntryAll_wait net evs (map snd uts) cs = Some cs') \<longleftrightarrow>
      evs \<noteq> [] \<and> (\<forall>u\<in>fst ` set uts. map_of (lc_flight (fst cs)) u = None \<or> u \<in> set (concat evs))"
proof -
  have both: "(AppendEntryAll_wait net evs (map snd uts) cs = Some cs' \<longrightarrow>
      append_call (appended e) e uts sv0 cs' \<and> (\<forall>u\<in>fst ` set uts. map_of (lc_flight (fst cs')) u = None)) \<and>
    ((\<exists>cs'. AppendEntryAll_wait net evs (map snd uts) cs = Some cs') \<longleftrightarrow>
      evs \<noteq> [] \<and> (\<forall>u\<in>fst ` set uts. map_of (lc_flight (fst cs)) u = None \<or> u \<in> set (concat evs)))"
    using assms(1)
  proof (induction evs arbitrary: cs)
    case (Cons ev evs)
    define cs1 where "cs1 = RunERPC net ev cs"
    have call: "append_call (appended e) e uts sv0 cs1" unfolding cs1_def by (rule RunERPC_call(1) [OF Cons.prems ready])
    have fl: "map_of (lc_flight (fst cs1)) u = (if u \<in> set ev then None else map_of (lc_flight (fst cs)) u)" for u
      unfolding cs1_def by (rule RunERPC_call(2) [OF Cons.prems ready])
    note IH = Cons.IH [OF call]
    show ?case
    proof (cases "allCompleted (fst cs1) (map snd uts)")
      case True
      note all = bspec [OF iffD1 [OF allCompleted_call [OF call] True]]
      have "map_of (lc_flight (fst cs)) u = None \<or> u \<in> set (concat (ev # evs))" if "u \<in> fst ` set uts" for u
        using all [OF that] by (auto simp: fl split: if_splits)
      moreover have "AppendEntryAll_wait net (ev # evs) (map snd uts) cs = Some cs1" using True by (simp flip: cs1_def)
      ultimately show ?thesis using all call by auto
    next
      case False
      then obtain u where u: "u \<in> fst ` set uts" "map_of (lc_flight (fst cs1)) u \<noteq> None"
        using allCompleted_call [OF call] by auto
      show ?thesis
      proof (cases "evs = []")
        case True
        then show ?thesis using False u by (auto simp: fl simp flip: cs1_def split: if_splits)
      next
        case ne: False
        then show ?thesis using IH False by (auto simp: fl simp flip: cs1_def)
      qed
    qed
  qed simp
  show "AppendEntryAll_wait net evs (map snd uts) cs = Some cs' \<Longrightarrow>
      append_call (appended e) e uts sv0 cs' \<and> (\<forall>u\<in>fst ` set uts. map_of (lc_flight (fst cs')) u = None)"
    by (rule mp [OF conjunct1 [OF both]])
  show "(\<exists>cs'. AppendEntryAll_wait net evs (map snd uts) cs = Some cs') \<longleftrightarrow>
      evs \<noteq> [] \<and> (\<forall>u\<in>fst ` set uts. map_of (lc_flight (fst cs)) u = None \<or> u \<in> set (concat evs))"
    by (rule conjunct2 [OF both])
qed

lemma check_all_pending_call:
  assumes "append_call (appended e) e uts sv0 cs" and ready: "\<forall>u\<in>fst ` set uts. ready e u (sv0 u)"
  shows "append_call (appended e) e uts sv0 (check_all_pending net us evs cs) \<and>
    maj_threshold (fst (check_all_pending net us evs cs)) = maj_threshold (fst cs)"
  using assms(1)
proof (induction us arbitrary: evs cs)
  case (Cons u us)
  have step: "append_call (appended e) e uts sv0 (check_pending net u ev cs) \<and>
      maj_threshold (fst (check_pending net u ev cs)) = maj_threshold (fst cs)" if "append_call (appended e) e uts sv0 cs" for u ev cs
    using that RunERPC_call(1, 3) [OF that ready, of ev]
    by (auto simp: check_pending_def append_call_cli Let_def split: option.split prod.split)
  show ?case by (cases evs) (simp_all add: step [OF Cons.prems] Cons.IH)
qed simp

end

section \<open>Appending to all servers\<close>

definition entry_of :: "LazyLogClient \<Rightarrow> byte list \<Rightarrow> LogEntry" where
  "entry_of c d = fst (constructLogEntry c d)"

lemma constructLogEntry_eq: "constructLogEntry c d = (entry_of c d, c\<lparr>lc_seq := lc_seq c + 1\<rparr>)"
  by (simp add: entry_of_def constructLogEntry_def GetNextSeq_def)

lemma entry_of_simps [simp]:
  "client_id (entry_of c d) = lc_client_id c" "client_seq (entry_of c d) = lc_seq c" "data (entry_of c d) = d"
  "flags (entry_of c d) = 1" "log_idx (entry_of c d) = 0"
  by (simp_all add: entry_of_def constructLogEntry_def GetNextSeq_def)

lemma wf_entry_of: "length d < 2 ^ 32 - 3 \<Longrightarrow> wf_entry (entry_of c d)"
  by (simp add: wf_entry_def entry_of_def constructLogEntry_def GetNextSeq_def unat_of_nat_small)

lemma append_call_idle: "lc_flight c = [] \<Longrightarrow> append_call A e [] sv (c, sv)"
  by (simp add: append_call_def)

context append_service
begin

lemma AppendEntryAll_call:
  fixes c d
  defines "e \<equiv> entry_of c d"
  assumes dist: "distinct (map fst (dur_clis c))" and idle: "lc_flight c = []" and wf: "wf_entry e"
    and ready: "\<forall>u\<in>fst ` set (dur_clis c). ready e u (sv u)"
  shows "AppendEntryAll net evs d c sv = Some (rid, c', sv') \<Longrightarrow> rid = (lc_client_id c, lc_seq c) \<and> lc_flight c' = [] \<and>
      (\<forall>u\<in>fst ` set (dur_clis c). appended e u (sv u) (sv' u)) \<and> (\<forall>u. u \<notin> fst ` set (dur_clis c) \<longrightarrow> sv' u = sv u)"
    and "(\<exists>r. AppendEntryAll net evs d c sv = Some r) \<longleftrightarrow> evs \<noteq> [] \<and> fst ` set (dur_clis c) \<subseteq> set (concat evs)"
proof -
  let ?c = "c\<lparr>lc_seq := lc_seq c + 1\<rparr>" and ?us = "map fst (dur_clis c)"
  have call0: "append_call (appended e) e [] sv (?c, sv)" using idle by (simp add: append_call_idle)
  obtain ts c1 where s: "AppendEntryAll_send ?us e ?c = Some (ts, c1)" "length ts = length ?us"
    "append_call (appended e) e (zip ?us ts) sv (c1, sv)" "fst ` set (lc_flight c1) = set ?us"
    using AppendEntryAll_send_call [OF call0, of ?us] dist wf idle by auto
  have us: "map snd (zip ?us ts) = ts" "fst ` set (zip ?us ts) = fst ` set (dur_clis c)"
    using s(2) by (metis length_map map_snd_zip) (metis s(2) list.set_map map_fst_zip)
  have r: "\<forall>u\<in>fst ` set (zip ?us ts). ready e u (sv u)" using ready unfolding us(2) .
  note w = AppendEntryAll_wait_call [OF s(3) r, unfolded us(1), where evs = evs]
  have eq: "AppendEntryAll net evs d c sv = map_option (\<lambda>(c, sv). ((client_id e, client_seq e), c, sv)) (AppendEntryAll_wait net evs ts (c1, sv))"
    using s(1) by (simp add: AppendEntryAll_def constructLogEntry_eq flip: e_def) (auto split: option.split)
  {
    assume "AppendEntryAll net evs d c sv = Some (rid, c', sv')"
    then have "AppendEntryAll_wait net evs ts (c1, sv) = Some (c', sv')" and rid: "rid = (lc_client_id c, lc_seq c)"
      unfolding eq by (auto simp: e_def)
    from w(1) [OF this(1)] have call: "append_call (appended e) e (zip ?us ts) sv (c', sv')"
      and fl: "\<forall>u\<in>fst ` set (zip ?us ts). map_of (lc_flight c') u = None" by simp_all
    have "fst ` set (lc_flight c') \<subseteq> fst ` set (zip ?us ts)" using call by (simp add: append_call_def)
    then have "fst ` set (lc_flight c') = {}" using fl by (metis (no_types) map_of_eq_None_iff subsetD ex_in_conv)
    moreover have "appended e u (sv u) (sv' u)" if u: "u \<in> fst ` set (dur_clis c)" for u
    proof -
      obtain t where "(u, t) \<in> set (zip ?us ts)" using u us(2) by (metis (no_types) imageE prod.collapse)
      then show ?thesis using append_callD(3) [OF call] fl u us(2) by auto
    qed
    moreover have "sv' u = sv u" if "u \<notin> fst ` set (dur_clis c)" for u
      using call that us(2) by (simp add: append_call_def)
    ultimately show "rid = (lc_client_id c, lc_seq c) \<and> lc_flight c' = [] \<and>
      (\<forall>u\<in>fst ` set (dur_clis c). appended e u (sv u) (sv' u)) \<and> (\<forall>u. u \<notin> fst ` set (dur_clis c) \<longrightarrow> sv' u = sv u)"
      using rid by simp
  }
  have in_flight: "map_of (lc_flight c1) u \<noteq> None" if "u \<in> fst ` set (dur_clis c)" for u
    using s(4) that by (simp add: map_of_eq_None_iff)
  have "(\<forall>u\<in>X. map_of (lc_flight c1) u = None \<or> u \<in> Y) \<longleftrightarrow> X \<subseteq> Y" if "\<And>u. u \<in> X \<Longrightarrow> map_of (lc_flight c1) u \<noteq> None" for X Y
    using that by blast
  from this [OF in_flight] show "(\<exists>r. AppendEntryAll net evs d c sv = Some r) \<longleftrightarrow> evs \<noteq> [] \<and> fst ` set (dur_clis c) \<subseteq> set (concat evs)"
    using w(2) unfolding eq us(2) fst_conv option.map_disc_iff not_None_eq [symmetric] by (simp only:)
qed

lemma quorum_call:
  assumes call: "append_call (appended e) e uts sv0 (c, sv)" and p: "p \<in> fst ` set uts"
    and q: "quorumCompleted c (map_of uts p) (map snd (filter (\<lambda>ut. fst ut \<noteq> p) uts)) = Some True"
  shows "\<exists>Q \<subseteq> fst ` set uts. p \<in> Q \<and> maj_threshold c \<le> int (card Q) \<and> (\<forall>u\<in>Q. appended e u (sv0 u) (sv u))"
proof -
  have d: "distinct (map fst uts)" using call by (simp add: append_call_def)
  obtain t where t: "(p, t) \<in> set uts" using p by auto
  then have pt: "map_of uts p = Some t" using d by simp
  let ?P = "\<lambda>ut. fst ut \<noteq> p \<and> Complete (lc_tokens c ! snd ut)"
  define Q where "Q = insert p (fst ` set (filter ?P uts))"
  have "card (fst ` set (filter ?P uts)) = length (filter ?P uts)"
    using distinct_card [OF distinct_map_filter [OF d, of ?P]] by simp
  moreover have "p \<notin> fst ` set (filter ?P uts)" by auto
  ultimately have "card Q = length (filter ?P uts) + 1" by (simp add: Q_def)
  moreover have "filter (\<lambda>t. Complete (lc_tokens c ! t)) (map snd (filter (\<lambda>ut. fst ut \<noteq> p) uts)) = map snd (filter ?P uts)"
    by (simp add: filter_map comp_def)
  ultimately have "maj_threshold c \<le> int (card Q)" and pc: "Complete (lc_tokens c ! t)"
    using q pt by (auto simp: quorumCompleted_def)
  moreover have "appended e u (sv0 u) (sv u)" if u: "u \<in> Q" for u
  proof -
    obtain t' where "(u, t') \<in> set uts" "Complete (lc_tokens c ! t')" using u t pc by (auto simp: Q_def)
    then show ?thesis using append_callD(2, 3) [OF call] by auto
  qed
  moreover have "Q \<subseteq> fst ` set uts" using p by (auto simp: Q_def)
  ultimately show ?thesis by (intro exI [of _ Q]) (simp add: Q_def)
qed

lemma AppendEntryQuorum_wait_call:
  assumes "append_call (appended e) e uts sv0 cs" and ready: "\<forall>u\<in>fst ` set uts. ready e u (sv0 u)"
    and "AppendEntryQuorum_wait net us evs pri tokens cs = Some cs'"
  shows "append_call (appended e) e uts sv0 cs' \<and> quorumCompleted (fst cs') pri tokens = Some True \<and>
    maj_threshold (fst cs') = maj_threshold (fst cs)"
  using assms(1, 3)
proof (induction evs arbitrary: cs)
  case (Cons ev evs)
  note c = check_all_pending_call [OF Cons.prems(1) ready, of us ev]
  show ?case
    using Cons.prems(2) c Cons.IH by (auto simp: Let_def split: option.splits bool.splits)
qed simp

end

context append_service
begin

lemma AppendEntryQuorum_call:
  fixes c d
  defines "e \<equiv> entry_of c d"
  assumes dist: "distinct (map fst (dur_clis c))" and idle: "lc_flight c = []" and wf: "wf_entry e"
    and ready: "\<forall>u\<in>fst ` set (dur_clis c). ready e u (sv u)"
    and p: "p \<in> fst ` set (dur_clis c)" "\<And>u x. map_of (dur_clis c) u = Some x \<Longrightarrow> IsPrimary x \<longleftrightarrow> u = p"
    and r: "AppendEntryQuorum net evs d c sv = Some (rid, c', sv')"
  shows "rid = (lc_client_id c, lc_seq c) \<and> (\<exists>Q \<subseteq> fst ` set (dur_clis c). p \<in> Q \<and> maj_threshold c \<le> int (card Q) \<and>
    (\<forall>u\<in>Q. appended e u (sv u) (sv' u)))"
proof -
  let ?c = "c\<lparr>lc_seq := lc_seq c + 1\<rparr>" and ?us = "map fst (dur_clis c)"
  have call0: "append_call (appended e) e [] sv (?c, sv)" using idle by (simp add: append_call_idle)
  have prim: "\<And>u x. map_of (dur_clis ?c) u = Some x \<Longrightarrow> IsPrimary x \<longleftrightarrow> u = p" using p(2) by simp
  obtain ts c1 where s: "AppendEntryQuorum_send ?us e None [] ?c =
      Some (map_of (zip ?us ts) p, map snd (filter (\<lambda>ut. fst ut \<noteq> p) (zip ?us ts)), c1)" "length ts = length ?us"
    "append_call (appended e) e (zip ?us ts) sv (c1, sv)" "maj_threshold c1 = maj_threshold c"
    using AppendEntryQuorum_send_call [OF call0 _ _ _ wf prim, of ?us] dist by auto
  have us: "fst ` set (zip ?us ts) = fst ` set (dur_clis c)"
    by (metis s(2) list.set_map map_fst_zip)
  have rd: "\<forall>u\<in>fst ` set (zip ?us ts). ready e u (sv u)" using ready unfolding us .
  obtain cs where w: "AppendEntryQuorum_wait net ?us evs (map_of (zip ?us ts) p) (map snd (filter (\<lambda>ut. fst ut \<noteq> p) (zip ?us ts))) (c1, sv) =
      Some (c', sv')" "rid = (lc_client_id c, lc_seq c)"
    using r s(1) by (auto simp: AppendEntryQuorum_def constructLogEntry_eq Let_def simp flip: e_def split: option.splits)
      (simp_all add: e_def)
  note q = AppendEntryQuorum_wait_call [OF s(3) rd w(1), unfolded fst_conv]
  obtain Q where "Q \<subseteq> fst ` set (zip ?us ts)" "p \<in> Q" "maj_threshold c' \<le> int (card Q)" "\<forall>u\<in>Q. appended e u (sv u) (sv' u)"
    using quorum_call [of e "zip ?us ts" sv c' sv' p] q p(1) unfolding us by blast
  then show ?thesis using q s(4) w(2) unfolding us by auto
qed

end

section \<open>Durability servers as the service\<close>

definition dl_append :: "DurabilityLogFlat \<Rightarrow> LogEntry \<Rightarrow> DurabilityLogFlat" where
  "dl_append st e = append_state st (e\<lparr>log_idx := indexer st, view := dl_view st, flags := 1\<rparr>)"

definition dl_room :: "LogEntry \<Rightarrow> LogEntry list \<Rightarrow> nat \<Rightarrow> DurabilityLogFlat \<Rightarrow> bool" where
  "dl_room e es k st \<longleftrightarrow> flat_inv st es k \<and> wf_entry e \<and> flags e \<noteq> 0 \<and> esz e \<le> unat SAFE_RG_SIZE \<and> tsz es + esz e < 2 ^ 64 \<and>
     262144 \<le> unat (rg_size st) \<and> tsz es + esz e - pos es k + 262144 < unat (rg_size st)"

lemma dl_append_ok:
  assumes room: "dl_room e es k st" and req: "entry_msg e req"
  shows "\<exists>resp. AppendEntryHandler resp0 req st = Some (resp, dl_append st e)"
    and "flat_inv (dl_append st e) (es @ [e\<lparr>log_idx := of_nat (length es), view := dl_view st, flags := 1\<rparr>]) k"
proof -
  have inv: "flat_inv st es k" and i: "indexer st = of_nat (length es)"
    using room word_eq_of_nat [of "indexer st" "length es"] by (auto simp: dl_room_def flat_inv_def)
  note h = AppendEntryHandler_ok [OF inv req]
  show "\<exists>resp. AppendEntryHandler resp0 req st = Some (resp, dl_append st e)"
    using h(1) [of resp0] room by (auto simp: dl_room_def dl_append_def i)
  show "flat_inv (dl_append st e) (es @ [e\<lparr>log_idx := of_nat (length es), view := dl_view st, flags := 1\<rparr>]) k"
    using h(2) room by (simp add: dl_room_def dl_append_def i)
qed

lemma dl_service:
  assumes "\<And>u. serves (net u) APPEND_ENTRY (AppendEntryHandler resp0)"
  shows "append_service net (\<lambda>e u st. \<exists>es k. dl_room e es k st) (\<lambda>e u st st'. st' = dl_append st e)"
proof
  fix e :: LogEntry and u st req
  assume "\<exists>es k. dl_room e es k st" and req: "entry_msg e req"
  then obtain es k where room: "dl_room e es k st" by blast
  have "\<exists>resp. AppendEntryHandler resp0 req' st = Some (resp, dl_append st e) \<and> True" if "same_msg req req'" for req'
    using dl_append_ok(1) [OF room entry_msg_same [OF req that], of resp0] by simp
  from serves_Some [OF assms, of req st "\<lambda>_. dl_append st e" "\<lambda>_ _. True", OF this]
  show "\<exists>r s'. net u APPEND_ENTRY req st = Some (r, s') \<and> s' = dl_append st e" by blast
qed

interpretation dls: append_service "\<lambda>(u :: string) t. AppendEntryHandler empty_msg" "\<lambda>e u st. \<exists>es k. dl_room e es k st"
  "\<lambda>e u st st'. st' = dl_append st e"
  by (rule dl_service [where net = "\<lambda>u t. AppendEntryHandler empty_msg", OF serves_self])

lemma dl_append_holds:
  assumes "dl_room (entry_of c d) es k st"
  shows "\<exists>x. flat_inv (dl_append st (entry_of c d)) (es @ [x]) k \<and> reqid x = (lc_client_id c, lc_seq c) \<and> data x = d"
proof -
  have "wf_entry (entry_of c d)" using assms by (simp add: dl_room_def)
  from dl_append_ok(2) [OF assms entry_msg_Serializer [OF this]]
  show ?thesis by (intro exI conjI, assumption) (simp_all add: reqid_def)
qed

text \<open>C6. Durability of \<^verbatim>\<open>AppendEntryAll\<close>: whatever order the servers answer in, when the call returns a request id, every
  durability server has appended exactly one entry to its log, with this id and the payload, and the client has no
  request in flight. This needs room in the rings of the servers and a payload that fits a message.\<close>

theorem AppendEntryAll_durable:
  assumes net: "\<And>u. serves (net u) APPEND_ENTRY (AppendEntryHandler resp0)"
    and c: "distinct (map fst (dur_clis c))" "lc_flight c = []" and d: "length d \<le> 8160"
    and room: "\<And>u. u \<in> fst ` set (dur_clis c) \<Longrightarrow> dl_room (entry_of c d) (es u) (k u) (sv u)"
    and r: "AppendEntryAll net evs d c sv = Some (rid, c', sv')"
  shows "rid = (lc_client_id c, lc_seq c) \<and> lc_flight c' = [] \<and>
    (\<forall>u\<in>fst ` set (dur_clis c). \<exists>x. flat_inv (sv' u) (es u @ [x]) (k u) \<and> reqid x = rid \<and> data x = d)"
proof -
  have wf: "wf_entry (entry_of c d)" using d by (intro wf_entry_of) simp
  from append_service.AppendEntryAll_call(1) [OF dl_service [where net = net, OF net] c wf _ r] room
  show ?thesis using dl_append_holds [OF room] by fastforce
qed

text \<open>C16. Termination of the polling loop of \<^verbatim>\<open>AppendEntryAll\<close>: the call returns exactly when the event loop has
  delivered an answer of every durability server, however the answers are spread over the passes of the loop.\<close>

theorem AppendEntryAll_returns:
  assumes net: "\<And>u. serves (net u) APPEND_ENTRY (AppendEntryHandler resp0)"
    and c: "distinct (map fst (dur_clis c))" "lc_flight c = []" "dur_clis c \<noteq> []" and d: "length d \<le> 8160"
    and room: "\<And>u. u \<in> fst ` set (dur_clis c) \<Longrightarrow> dl_room (entry_of c d) (es u) (k u) (sv u)"
  shows "(\<exists>r. AppendEntryAll net evs d c sv = Some r) \<longleftrightarrow> (\<forall>u\<in>fst ` set (dur_clis c). \<exists>ev\<in>set evs. u \<in> set ev)"
proof -
  have wf: "wf_entry (entry_of c d)" using d by (intro wf_entry_of) simp
  have "(\<exists>r. AppendEntryAll net evs d c sv = Some r) \<longleftrightarrow> evs \<noteq> [] \<and> fst ` set (dur_clis c) \<subseteq> set (concat evs)"
    by (rule append_service.AppendEntryAll_call(2) [OF dl_service [where net = net, OF net] c(1, 2) wf]) (use room in blast)
  then show ?thesis using c(3) by (cases evs) (auto simp: subset_iff neq_Nil_conv)
qed

text \<open>C17. Quorums: when \<^verbatim>\<open>AppendEntryQuorum\<close> returns, the primary and enough other servers to reach the threshold have
  appended the entry. With the threshold that \<^verbatim>\<open>Initialize\<close> sets these are all servers.\<close>

theorem AppendEntryQuorum_quorum:
  assumes net: "\<And>u. serves (net u) APPEND_ENTRY (AppendEntryHandler resp0)"
    and c: "distinct (map fst (dur_clis c))" "lc_flight c = []" and d: "length d \<le> 8160"
    and room: "\<And>u. u \<in> fst ` set (dur_clis c) \<Longrightarrow> dl_room (entry_of c d) (es u) (k u) (sv u)"
    and p: "p \<in> fst ` set (dur_clis c)" "\<And>u x. map_of (dur_clis c) u = Some x \<Longrightarrow> IsPrimary x \<longleftrightarrow> u = p"
    and r: "AppendEntryQuorum net evs d c sv = Some (rid, c', sv')"
  shows "\<exists>Q \<subseteq> fst ` set (dur_clis c). p \<in> Q \<and> maj_threshold c \<le> int (card Q) \<and>
    (maj_threshold c = int (length (dur_clis c)) \<longrightarrow> Q = fst ` set (dur_clis c)) \<and>
    (\<forall>u\<in>Q. \<exists>x. flat_inv (sv' u) (es u @ [x]) (k u) \<and> reqid x = rid \<and> data x = d)"
proof -
  have wf: "wf_entry (entry_of c d)" using d by (intro wf_entry_of) simp
  obtain Q where Q: "rid = (lc_client_id c, lc_seq c)" "Q \<subseteq> fst ` set (dur_clis c)" "p \<in> Q" "maj_threshold c \<le> int (card Q)"
    "\<forall>u\<in>Q. sv' u = dl_append (sv u) (entry_of c d)"
    using append_service.AppendEntryQuorum_call [OF dl_service [where net = net, OF net] c wf _ p r] room by blast
  have "card (fst ` set (dur_clis c)) = length (dur_clis c)"
    using c(1) by (metis distinct_card image_set length_map)
  then have "maj_threshold c = int (length (dur_clis c)) \<Longrightarrow> Q = fst ` set (dur_clis c)"
    using Q(2, 4) by (metis card_seteq finite_imageI finite_set of_nat_le_iff)
  then show ?thesis
    using Q dl_append_holds [OF room] by (intro exI [of _ Q]) (metis subsetD)
qed

section \<open>Client identifiers\<close>

lemma unat_client_id_for:
  assumes "unat i < 64"
  shows "unat (client_id_for i a) = unat i + 64 * (unat a mod 2 ^ 26)"
proof -
  have "unat (push_bit 6 a) = 64 * (unat a mod 2 ^ 26)"
    unfolding unsigned_push_bit_eq by (simp add: push_bit_eq_mult take_bit_eq_mod mult_mod_right mult.commute)
  then have "unat (ucast (push_bit 6 a) :: u64) = 64 * (unat a mod 2 ^ 26)" by simp
  moreover have "64 * (unat a mod 2 ^ 26) < 2 ^ 32" by simp
  ultimately show ?thesis
    using assms unfolding client_id_for_def by (subst unat_add_small) simp_all
qed

text \<open>Client identifiers: two of the first 63 clients of a process have the same identifier only if they have the
  same number and their addresses agree in the lower 26 bits. So identifiers are unique within a network of that size, and
  clients with the same number on hosts whose addresses differ in the upper six bits only, like 10.0.0.1 and 14.0.0.1,
  share one: the address is shifted as a 32 bit number.\<close>

theorem client_id_for_eq_iff:
  assumes "i < 64" "j < 64"
  shows "client_id_for i a = client_id_for j b \<longleftrightarrow> i = j \<and> unat a mod 2 ^ 26 = unat b mod 2 ^ 26"
proof -
  have lt: "unat i < 64" "unat j < 64" using assms by (simp_all add: word_less_nat_alt)
  have "client_id_for i a = client_id_for j b \<longleftrightarrow> unat i + 64 * (unat a mod 2 ^ 26) = unat j + 64 * (unat b mod 2 ^ 26)"
    using unat_client_id_for [OF lt(1), of a] unat_client_id_for [OF lt(2), of b] by (metis word_unat_eq_iff)
  also have "\<dots> \<longleftrightarrow> unat i = unat j \<and> unat a mod 2 ^ 26 = unat b mod 2 ^ 26"
  proof -
    have "m + 64 * x = n + 64 * y \<longleftrightarrow> m = n \<and> x = y" if "m < 64" "n < 64" for m n x y :: nat
      using that by (metis (no_types) add_left_cancel mod_less mod_mult_self2 mult_cancel1 zero_neq_numeral)
    from this [OF lt] show ?thesis .
  qed
  finally show ?thesis by (simp add: word_unat_eq_iff)
qed

section \<open>Positions\<close>

lemma AppendEntry_loop_ok:
  assumes net: "\<And>u. serves (net u) APPEND_ENTRY (AppendEntryHandler resp0)" and "lc_flight c = []" and "distinct us"
    and "\<And>u. u \<in> set us \<Longrightarrow> \<exists>x. map_of (dur_clis c) u = Some x \<and> (IsPrimary x \<longleftrightarrow> u = p)"
    and "\<And>u. u \<in> set us \<Longrightarrow> dl_room e (es u) (k u) (sv u)"
  shows "\<exists>c' sv'. AppendEntry_loop net us e acc c sv =
      Some (foldl (\<lambda>xs u. if u = p then of_nat (tsz (es u)) div 40 # xs else xs @ [of_nat (tsz (es u)) div 40]) acc us, c', sv') \<and>
    (\<forall>u\<in>set us. \<exists>x. flat_inv (sv' u) (es u @ [x]) (k u) \<and> reqid x = reqid e \<and> data x = data e) \<and>
    (\<forall>u. u \<notin> set us \<longrightarrow> sv' u = sv u)"
  using assms(2-)
proof (induction us arbitrary: acc c sv)
  case (Cons u us)
  obtain x where x: "map_of (dur_clis c) u = Some x" "IsPrimary x \<longleftrightarrow> u = p" using Cons.prems(3) [of u] by auto
  have rm: "dl_room e (es u) (k u) (sv u)" using Cons.prems(4) by simp
  have "\<exists>x' st'. ERPCCli_AppendEntry (net u) x e (sv u) = Some (of_nat (tsz (es u)), x', st') \<and> IsPrimary x' = IsPrimary x \<and>
      flat_inv st' (es u @ [e\<lparr>log_idx := of_nat (length (es u)), view := dl_view (sv u), flags := 1\<rparr>]) (k u)"
    using rm by (intro ERPCCli_AppendEntry_ok [OF net]) (simp_all add: dl_room_def)
  then obtain x' st' where a: "ERPCCli_AppendEntry (net u) x e (sv u) = Some (of_nat (tsz (es u)), x', st')" "IsPrimary x' = IsPrimary x"
    "flat_inv st' (es u @ [e\<lparr>log_idx := of_nat (length (es u)), view := dl_view (sv u), flags := 1\<rparr>]) (k u)" by blast
  let ?c = "c\<lparr>dur_clis := AList.update u x' (dur_clis c)\<rparr>" and ?sv = "sv(u := st')"
  let ?acc = "if u = p then of_nat (tsz (es u)) div 40 # acc else acc @ [of_nat (tsz (es u)) div 40]"
  have conn: "\<exists>y. map_of (dur_clis ?c) v = Some y \<and> (IsPrimary y \<longleftrightarrow> v = p)" if "v \<in> set us" for v
    using Cons.prems(3) [of v] that Cons.prems(2) by (auto simp: update_conv')
  have room: "dl_room e (es v) (k v) (?sv v)" if "v \<in> set us" for v
    using Cons.prems(4) [of v] that Cons.prems(2) by auto
  have fl: "lc_flight ?c = []" "distinct us" using Cons.prems(1, 2) by simp_all
  obtain c' sv' where IH: "AppendEntry_loop net us e ?acc ?c ?sv =
      Some (foldl (\<lambda>xs u. if u = p then of_nat (tsz (es u)) div 40 # xs else xs @ [of_nat (tsz (es u)) div 40]) ?acc us, c', sv')"
    "\<forall>u\<in>set us. \<exists>x. flat_inv (sv' u) (es u @ [x]) (k u) \<and> reqid x = reqid e \<and> data x = data e"
    "\<forall>v. v \<notin> set us \<longrightarrow> sv' v = ?sv v"
    using Cons.IH [where acc = ?acc, OF fl conn room] by blast
  have "sv' u = st'" using IH(3) Cons.prems(2) by simp
  then have "\<exists>x. flat_inv (sv' u) (es u @ [x]) (k u) \<and> reqid x = reqid e \<and> data x = data e"
    using a(3) by (intro exI [of _ "e\<lparr>log_idx := of_nat (length (es u)), view := dl_view (sv u), flags := 1\<rparr>"])
      (simp add: reqid_def)
  moreover have "AppendEntry_loop net (u # us) e acc c sv = AppendEntry_loop net us e ?acc ?c ?sv"
    using x a(1, 2) Cons.prems(1) by (simp add: Let_def)
  ultimately show ?case using IH by auto
qed simp

lemma foldl_first:
  "distinct us \<Longrightarrow> foldl (\<lambda>xs u. if u = p then f u # xs else xs @ [f u]) acc us =
    (if p \<in> set us then [f p] else []) @ acc @ map f (filter (\<lambda>u. u \<noteq> p) us)"
  by (induction us arbitrary: acc) auto

lemma tsz_const: "list_all (\<lambda>e. esz e = s) es \<Longrightarrow> tsz es = s * length es"
  by (induction es) auto

text \<open>\<^verbatim>\<open>AppendEntry\<close> returns the position of the entry in the log of every server, that of the primary first and the
  others in the order of the requests, and appends the entry everywhere, as long as every entry takes 40 bytes: the
  byte offset that a server returns is divided by this constant.\<close>

theorem AppendEntry_positions:
  assumes net: "\<And>u. serves (net u) APPEND_ENTRY (AppendEntryHandler resp0)"
    and c: "lc_flight c = []" "distinct order" "p \<in> set order"
    and conn: "\<And>u. u \<in> set order \<Longrightarrow> \<exists>x. map_of (dur_clis c) u = Some x \<and> (IsPrimary x \<longleftrightarrow> u = p)"
    and room: "\<And>u. u \<in> set order \<Longrightarrow> dl_room (entry_of c d) (es u) (k u) (sv u)"
    and size: "\<And>u. u \<in> set order \<Longrightarrow> list_all (\<lambda>e. esz e = 40) (es u)"
  shows "\<exists>c' sv'. LazyLogClient_AppendEntry net order d c sv =
      Some (map (\<lambda>u. of_nat (length (es u))) (p # filter (\<lambda>u. u \<noteq> p) order), c', sv') \<and>
    (\<forall>u\<in>set order. \<exists>x. flat_inv (sv' u) (es u @ [x]) (k u) \<and> reqid x = (lc_client_id c, lc_seq c) \<and> data x = d)"
proof -
  have pos: "of_nat (tsz (es u)) div 40 = (of_nat (length (es u)) :: u64)" if u: "u \<in> set order" for u
  proof -
    have t: "tsz (es u) = 40 * length (es u)" by (rule tsz_const [OF size [OF u]])
    have "tsz (es u) < 2 ^ 64" using room [OF u] by (simp add: dl_room_def)
    then have "unat (of_nat (tsz (es u)) :: u64) = tsz (es u)" by (intro unat_of_nat_small) simp
    then have "unat (of_nat (tsz (es u)) div (40 :: u64)) = tsz (es u) div 40" by (simp only: unat_div_distrib) simp
    also have "\<dots> = length (es u)" unfolding t by simp
    finally have "unat (of_nat (tsz (es u)) div (40 :: u64)) = length (es u)" .
    then show ?thesis by (rule word_eq_of_nat)
  qed
  let ?c = "c\<lparr>lc_seq := lc_seq c + 1\<rparr>"
  have fl: "lc_flight ?c = []" using c(1) by simp
  have conn': "\<exists>x. map_of (dur_clis ?c) u = Some x \<and> (IsPrimary x \<longleftrightarrow> u = p)" if "u \<in> set order" for u using conn [OF that] by simp
  obtain c' sv' where r: "AppendEntry_loop net order (entry_of c d) [] ?c sv =
      Some (foldl (\<lambda>xs u. if u = p then of_nat (tsz (es u)) div 40 # xs else xs @ [of_nat (tsz (es u)) div 40]) [] order, c', sv')"
    "\<forall>u\<in>set order. \<exists>x. flat_inv (sv' u) (es u @ [x]) (k u) \<and> reqid x = reqid (entry_of c d) \<and> data x = data (entry_of c d)"
    using AppendEntry_loop_ok [where net = net and acc = "[]" and es = es and k = k and sv = sv, OF net fl c(2) conn' room] by blast
  have "foldl (\<lambda>xs u. if u = p then of_nat (tsz (es u)) div 40 # xs else xs @ [of_nat (tsz (es u)) div 40]) [] order =
      map (\<lambda>u. of_nat (tsz (es u)) div 40 :: u64) (p # filter (\<lambda>u. u \<noteq> p) order)"
    using foldl_first [OF c(2), of p "\<lambda>u. of_nat (tsz (es u)) div 40" "[]"] c(3) by simp
  also have "\<dots> = map (\<lambda>u. of_nat (length (es u))) (p # filter (\<lambda>u. u \<noteq> p) order)"
    using pos c(3) by (intro map_cong refl) auto
  finally show ?thesis
    using r by (simp add: LazyLogClient_AppendEntry_def constructLogEntry_eq reqid_def)
qed

section \<open>Reading\<close>

definition as_backend :: "NaiveReadBackend \<Rightarrow> NaiveBackend" where
  "as_backend rb = \<lparr>nb_stripe_unit_size = rb_stripe_unit_size rb, nb_shard_num = rb_shard_num rb,
     shard_clients = rb_shard_clients rb\<rparr>"

lemma NaiveReadBackend_ReadEntry_eq:
  "NaiveReadBackend_ReadEntry net rb idx e sv =
    map_option (\<lambda>(r, e, nb, sv). (r, e, rb\<lparr>rb_shard_clients := shard_clients nb\<rparr>, sv)) (NaiveBackend_ReadEntry net (as_backend rb) idx e sv)"
  by (simp add: NaiveReadBackend_ReadEntry_def NaiveBackend_ReadEntry_def as_backend_def Let_def split: option.split)

lemma LazyLogClient_ReadEntry_ok:
  assumes "shard_cluster net bnet r0 r1" "cluster_stores L n g (as_backend (be_rd_cli c), sv)"
  shows "unat idx < n \<and> unat idx \<le> g \<Longrightarrow> \<exists>c' sv'. LazyLogClient_ReadEntry net idx c sv = Some (True, data (L ! unat idx), c', sv') \<and>
      cluster_stores L n g (as_backend (be_rd_cli c'), sv')"
    and "\<not> (unat idx < n \<and> unat idx \<le> g) \<Longrightarrow> LazyLogClient_ReadEntry net idx c sv = None"
proof -
  note r = shard_cluster.ReadEntry_correct [OF assms, of idx LogEntry_new]
  {
    assume "unat idx < n \<and> unat idx \<le> g"
    then obtain nb' sv' where n: "NaiveBackend_ReadEntry net (as_backend (be_rd_cli c)) idx LogEntry_new sv = Some (True, L ! unat idx, nb', sv')"
      "cluster_stores L n g (nb', sv')" using r by auto
    have "as_backend ((be_rd_cli c)\<lparr>rb_shard_clients := shard_clients nb'\<rparr>) = nb'"
      using n(1) by (auto simp: NaiveBackend_ReadEntry_def as_backend_def Let_def split: option.splits)
    then show "\<exists>c' sv'. LazyLogClient_ReadEntry net idx c sv = Some (True, data (L ! unat idx), c', sv') \<and>
      cluster_stores L n g (as_backend (be_rd_cli c'), sv')"
      using n by (simp add: LazyLogClient_ReadEntry_def NaiveReadBackend_ReadEntry_eq)
  }
  show "\<not> (unat idx < n \<and> unat idx \<le> g) \<Longrightarrow> LazyLogClient_ReadEntry net idx c sv = None"
    using r by (auto simp: LazyLogClient_ReadEntry_def NaiveReadBackend_ReadEntry_eq)
qed

lemma GetTail_ok:
  assumes net: "serves (net (dl_primary c)) GET_N_DUR_ENTRY (GetNumDurEntryHandler resp0)"
    and p: "map_of (dur_clis c) (dl_primary c) \<noteq> None" and inv: "flat_inv (sv (dl_primary c)) es k"
  shows "\<exists>c'. GetTail net c sv = Some ((of_nat (length es), of_nat k, dl_view (sv (dl_primary c))), c', sv) \<and>
    be_rd_cli c' = be_rd_cli c"
proof -
  let ?u = "dl_primary c"
  obtain x where x: "map_of (dur_clis c) ?u = Some x" using p by auto
  have tail: "indexer (sv ?u) = of_nat (length es)" "ordered_idx_watermk (sv ?u) = of_nat k"
    using inv word_eq_of_nat [of "indexer (sv ?u)" "length es"] word_eq_of_nat [of "ordered_idx_watermk (sv ?u)" k]
    by (auto simp: flat_inv_def)
  have "\<exists>resp. GetNumDurEntryHandler resp0 req' (sv ?u) = Some (resp, sv ?u) \<and> data_size resp = 18 \<and>
      get_le (buf resp) 0 = (of_nat (length es) :: u64) \<and> get_le (buf resp) 8 = (of_nat k :: u64) \<and>
      get_le (buf resp) 16 = dl_view (sv ?u)" for req'
    by (simp add: GetNumDurEntryHandler_def GetNumDurEntry_def GetNumOrderedEntry_def GetView_def Let_def tail resize_msg_buffer_def)
  from call_served [OF net this, of x "put_le (buf (req_buf x)) 0 (0 :: u32)" 4]
  obtain resp r x' where r: "data_size resp = 18" "get_le (buf resp) 0 = (of_nat (length es) :: u64)" "get_le (buf resp) 8 = (of_nat k :: u64)"
    "get_le (buf resp) 16 = dl_view (sv ?u)" "same_msg resp r"
    "call (net ?u) GET_N_DUR_ENTRY x (put_le (buf (req_buf x)) 0 (0 :: u32)) 4 (sv ?u) = Some (r, x', sv ?u)" by blast
  have "get_le (buf r) 0 = (of_nat (length es) :: u64)" "get_le (buf r) 8 = (of_nat k :: u64)" "get_le (buf r) 16 = dl_view (sv ?u)"
    using r(1-4) same_msg_get_le [OF r(5), of 0, where ?'a = 64] same_msg_get_le [OF r(5), of 8, where ?'a = 64]
      same_msg_get_le [OF r(5), of 16, where ?'a = 16] by simp_all
  then show ?thesis
    using x r(6) by (simp add: GetTail_def ERPCCli_GetNumDurEntry_def Let_def fun_upd_idem)
qed

section \<open>Witnesses\<close>

definition sample_conn :: "bool \<Rightarrow> DurabilityLogERPCCli" where
  "sample_conn prim = \<lparr>cli_is_primary = prim, req_buf = empty_msg, resp_buf = empty_msg, rpc_tkn = RPCToken_new, pending_reqs = []\<rparr>"

definition sample_client :: LazyLogClient where
  "sample_client = \<lparr>dur_clis = [(''p'', sample_conn True), (''b'', sample_conn False)], be_rd_cli = NaiveReadBackend_new 0,
     dl_primary = ''p'', lc_client_id = 9, lc_seq = 4, maj_threshold = 2, lc_tokens = [], lc_flight = []\<rparr>"

abbreviation loopback_dl :: "string \<Rightarrow> DurabilityLogFlat net" where
  "loopback_dl \<equiv> \<lambda>u t. AppendEntryHandler empty_msg"

abbreviation sample_logs :: "string \<Rightarrow> DurabilityLogFlat" where
  "sample_logs \<equiv> \<lambda>u. fresh_log (u = ''p'') 1048576"

lemma sample_client_simps [simp]:
  "map fst (dur_clis sample_client) = [''p'', ''b'']" "lc_flight sample_client = []" "lc_client_id sample_client = 9"
  "lc_seq sample_client = 4" "maj_threshold sample_client = 2" "fst ` set (dur_clis sample_client) = {''p'', ''b''}"
  "length (dur_clis sample_client) = 2" "dur_clis sample_client \<noteq> []" "distinct (map fst (dur_clis sample_client))"
  "IsPrimary (sample_conn b) = b"
  by (simp_all add: sample_client_def sample_conn_def IsPrimary_def)

lemma sample_client_primary:
  "map_of (dur_clis sample_client) u = Some x \<Longrightarrow> IsPrimary x \<longleftrightarrow> u = ''p''"
  by (auto simp: sample_client_def sample_conn_def IsPrimary_def split: if_splits)

lemma sample_room: "dl_room (entry_of sample_client [1, 2, 3]) [] 0 (sample_logs u)"
proof -
  have "wf_entry (entry_of sample_client [1, 2, 3])" by (rule wf_entry_of) simp
  moreover have "esz (entry_of sample_client [1, 2, 3]) = 36" by (simp add: esz_def align4_def)
  ultimately show ?thesis
    using fresh_log_inv [of 1048576 "u = ''p''"] by (simp add: dl_room_def SAFE_RG_SIZE_def PAGE_SIZE_def)
qed

theorem AppendEntryAll_durable_witness:
  "\<exists>c' sv'. AppendEntryAll loopback_dl [[], [''b''], [''p'']] [1, 2, 3] sample_client sample_logs = Some ((9, 4), c', sv') \<and>
    (\<forall>u\<in>{''p'', ''b''}. \<exists>x. flat_inv (sv' u) [x] 0 \<and> reqid x = (9, 4) \<and> data x = [1, 2, 3])"
proof -
  have wf: "wf_entry (entry_of sample_client [1, 2, 3])" by (rule wf_entry_of) simp
  have "\<exists>r. AppendEntryAll loopback_dl [[], [''b''], [''p'']] [1, 2, 3] sample_client sample_logs = Some r"
    using dls.AppendEntryAll_call(2) [of sample_client "[1, 2, 3]" sample_logs "[[], [''b''], [''p'']]"] wf
      sample_room [of "''p''"] sample_room [of "''b''"] by auto
  then obtain rid c' sv' where r: "AppendEntryAll loopback_dl [[], [''b''], [''p'']] [1, 2, 3] sample_client sample_logs = Some (rid, c', sv')"
    by (metis prod_cases3)
  from AppendEntryAll_durable [where net = loopback_dl and es = "\<lambda>_. []" and k = "\<lambda>_. 0", OF serves_self _ _ _ sample_room r]
  have rid: "rid = (9, 4)" and h: "\<forall>u\<in>{''p'', ''b''}. \<exists>x. flat_inv (sv' u) ([] @ [x]) 0 \<and> reqid x = rid \<and> data x = [1, 2, 3]"
    by auto
  show ?thesis using r h unfolding rid append_Nil by blast
qed

theorem AppendEntryAll_returns_witness:
  "(\<exists>r. AppendEntryAll loopback_dl [[''b''], [''p'']] [1, 2, 3] sample_client sample_logs = Some r) \<and>
   \<not> (\<exists>r. AppendEntryAll loopback_dl [[''b''], [''b'']] [1, 2, 3] sample_client sample_logs = Some r)"
proof -
  note r = AppendEntryAll_returns [where net = loopback_dl and es = "\<lambda>_. []" and k = "\<lambda>_. 0" and c = sample_client and sv = sample_logs,
      OF serves_self _ _ _ _ sample_room]
  show ?thesis using r [of "[[''b''], [''p'']]"] r [of "[[''b''], [''b'']]"] by auto
qed

theorem client_id_for_eq_iff_witness:
  "client_id_for 1 0x0A000001 = client_id_for 1 0x0E000001 \<and> client_id_for 1 0x0A000001 \<noteq> client_id_for 1 0x0A000002"
  using client_id_for_eq_iff [of 1 1 "0x0A000001" "0x0E000001"] client_id_for_eq_iff [of 1 1 "0x0A000001" "0x0A000002"] by simp

theorem AppendEntry_positions_witness:
  "\<exists>c' sv'. LazyLogClient_AppendEntry loopback_dl [''b'', ''p''] [1, 2, 3] sample_client sample_logs = Some ([0, 0], c', sv') \<and>
    (\<forall>u\<in>{''p'', ''b''}. \<exists>x. flat_inv (sv' u) [x] 0 \<and> reqid x = (9, 4) \<and> data x = [1, 2, 3])"
proof -
  have "\<exists>x. map_of (dur_clis sample_client) u = Some x \<and> (IsPrimary x \<longleftrightarrow> u = ''p'')" if "u \<in> set [''b'', ''p'']" for u
    using that by (auto simp: sample_client_def sample_conn_def IsPrimary_def)
  from AppendEntry_positions [where net = loopback_dl and es = "\<lambda>_. []" and k = "\<lambda>_. 0" and sv = sample_logs and order = "[''b'', ''p'']", OF serves_self _ _ _ this sample_room]
  have "\<exists>c' sv'. LazyLogClient_AppendEntry loopback_dl [''b'', ''p''] [1, 2, 3] sample_client sample_logs =
      Some (map (\<lambda>u. of_nat (length [])) (''p'' # filter (\<lambda>u. u \<noteq> ''p'') [''b'', ''p'']), c', sv') \<and>
    (\<forall>u\<in>set [''b'', ''p'']. \<exists>x. flat_inv (sv' u) ([] @ [x]) 0 \<and> reqid x = (lc_client_id sample_client, lc_seq sample_client) \<and> data x = [1, 2, 3])"
    by simp
  then show ?thesis by (simp add: conj_commute)
qed

lemma sample_quorum: "\<exists>r. AppendEntryQuorum loopback_dl [[[''p'', ''b'']]] [1, 2, 3] sample_client sample_logs = Some r"
proof -
  define e where "e = entry_of sample_client [1, 2, 3]"
  define req where "req = resize_msg_buffer (empty_msg\<lparr>buf := fst (Serializer e (buf empty_msg) 0)\<rparr>) (unat (snd (Serializer e (buf empty_msg) 0)))"
  have "wf_entry e" unfolding e_def by (rule wf_entry_of) simp
  then have msg: "entry_msg e req" unfolding req_def by (rule entry_msg_Serializer)
  obtain rp rb where r: "AppendEntryHandler empty_msg req (fresh_log True 1048576) = Some (rp, dl_append (fresh_log True 1048576) e)"
    "AppendEntryHandler empty_msg req (fresh_log False 1048576) = Some (rb, dl_append (fresh_log False 1048576) e)"
    using dl_append_ok(1) [OF sample_room [of "''p''", folded e_def] msg, of empty_msg]
      dl_append_ok(1) [OF sample_room [of "''b''", folded e_def] msg, of empty_msg] by auto
  have send: "ERPCCli_AppendEntryAsync \<lparr>cli_is_primary = b, req_buf = empty_msg, resp_buf = x, rpc_tkn = y, pending_reqs = z\<rparr> e =
      (\<lparr>cli_is_primary = b, req_buf = req, resp_buf = x, rpc_tkn = y, pending_reqs = z\<rparr>, req)" for b x y z
    by (simp add: ERPCCli_AppendEntryAsync_def req_def case_prod_beta Let_def)
  have con: "constructLogEntry sample_client [1, 2, 3] = (e, sample_client\<lparr>lc_seq := 5\<rparr>)"
    by (simp add: constructLogEntry_eq e_def)
  show ?thesis
    unfolding AppendEntryQuorum_def con
    by (simp add: sample_client_def send_entry_def send Let_def AddPendingReq_def IsPrimary_def sample_conn_def check_pending_def
        RunERPC_def deliver_def CheckPendingReq_def quorumCompleted_def Complete_def SetComplete_def RPCToken_new_def r)
qed

theorem AppendEntryQuorum_quorum_witness:
  "\<exists>rid c' sv'. AppendEntryQuorum loopback_dl [[[''p'', ''b'']]] [1, 2, 3] sample_client sample_logs = Some (rid, c', sv') \<and>
    (\<exists>Q. ''p'' \<in> Q \<and> 2 \<le> card Q \<and> (\<forall>u\<in>Q. \<exists>x. flat_inv (sv' u) [x] 0 \<and> reqid x = rid \<and> data x = [1, 2, 3]))"
proof -
  obtain rid c' sv' where r: "AppendEntryQuorum loopback_dl [[[''p'', ''b'']]] [1, 2, 3] sample_client sample_logs = Some (rid, c', sv')"
    using sample_quorum by (metis prod_cases3)
  have d: "length [1, 2, 3 :: byte] \<le> 8160" "''p'' \<in> fst ` set (dur_clis sample_client)" by simp_all
  from AppendEntryQuorum_quorum [where net = loopback_dl and es = "\<lambda>_. []" and k = "\<lambda>_. 0",
      OF serves_self sample_client_simps(9, 2) d(1) sample_room d(2) sample_client_primary r]
  obtain Q where "''p'' \<in> Q" "maj_threshold sample_client \<le> int (card Q)"
    "\<forall>u\<in>Q. \<exists>x. flat_inv (sv' u) ([] @ [x]) 0 \<and> reqid x = rid \<and> data x = [1, 2, 3]" by blast
  then have "''p'' \<in> Q \<and> 2 \<le> card Q \<and> (\<forall>u\<in>Q. \<exists>x. flat_inv (sv' u) [x] 0 \<and> reqid x = rid \<and> data x = [1, 2, 3])"
    unfolding append_Nil by simp
  then show ?thesis using r by blast
qed

end
