(* ===== verification/Shard_Corfu.thy ===== *)
theory Shard_Corfu
  imports Shard_Log
begin

text \<open>
  A storage shard in the build with \<^verbatim>\<open>CORFU\<close>, from \<^verbatim>\<open>src/src/cons_log/storage/shard_server.cc\<close>. Clients get an index
  of the log first and then write their entry at its place in the file of its stripe, with \<^verbatim>\<open>pwrite\<close>, in any order; a
  file is closed when all its places have been written. A read copies the bytes of the place out of the file.
  Places are as large as the first entry.

  The members that only this build has are added to those of \<open>ShardServer\<close>. The function \<^verbatim>\<open>addToEntryCacheAsync\<close> is composed
  of its sections under the lock: the check, the creation of the file, and the write. \<open>None\<close> is undefined behaviour
  of the source or a wait that does not end.
\<close>

section \<open>The model\<close>

record CorfuShard =
  cf_base :: ShardServer
  entry_size :: u64
  cache_size_atomic :: "u64 \<rightharpoonup> u32"

definition CorfuShard_new :: "ShardServer \<Rightarrow> CorfuShard" where
  "CorfuShard_new st = \<lparr>cf_base = st, entry_size = 0, cache_size_atomic = Map.empty\<rparr>"

definition addToEntryCacheAsync_check :: "CorfuShard \<Rightarrow> u64 \<Rightarrow> nat option" where
  "addToEntryCacheAsync_check st base_idx = entries_fd_set (cf_base st) base_idx"

definition addToEntryCacheAsync_create :: "CorfuShard \<Rightarrow> u64 \<Rightarrow> nat option \<times> CorfuShard" where
  "addToEntryCacheAsync_create st base_idx =
     (case entries_fd_set (cf_base st) base_idx of
        None \<Rightarrow>
          (let b = cf_base st; st = st\<lparr>cache_size_atomic := (cache_size_atomic st)(base_idx \<mapsto> 0)\<rparr>
           in case open_create (os b) (getDataFilePath b base_idx) of
                (None, fs) \<Rightarrow> (None, st\<lparr>cf_base := b\<lparr>os := fs\<rparr>\<rparr>)
              | (Some fd, fs) \<Rightarrow>
                  (Some fd, st\<lparr>cf_base := b\<lparr>os := fs, entries_fd_set := (entries_fd_set b)(base_idx \<mapsto> fd)\<rparr>\<rparr>))
      | Some _ \<Rightarrow> (Some 0, st))"

definition addToEntryCacheAsync_write :: "CorfuShard \<Rightarrow> u64 \<Rightarrow> nat \<Rightarrow> mem \<Rightarrow> CorfuShard" where
  "addToEntryCacheAsync_write st base_idx fd m =
     (let (e, entry_len) = Deserializer LogEntry_new m 0;
          b = cf_base st;
          local_idx = (log_idx e - base_idx) div of_int (shard_num b);
          fs = snd (pwrite_fd (os b) fd (bytes_at m 0 (unat entry_len)) (unat (entry_len * local_idx)))
      in st\<lparr>cf_base := b\<lparr>os := fs\<rparr>,
            entry_size := (if entry_size st = 0 then entry_len else entry_size st),
            cache_size_atomic := (cache_size_atomic st)(base_idx \<mapsto> lookup0 (cache_size_atomic st) base_idx + 1)\<rparr>)"

definition addToEntryCacheAsync :: "CorfuShard \<Rightarrow> u64 \<Rightarrow> mem \<Rightarrow> CorfuShard" where
  "addToEntryCacheAsync st base_idx m =
     (case addToEntryCacheAsync_check st base_idx of
        Some fd \<Rightarrow> addToEntryCacheAsync_write st base_idx fd m
      | None \<Rightarrow>
          (case addToEntryCacheAsync_create st base_idx of
             (None, st) \<Rightarrow> st
           | (Some fd, st) \<Rightarrow> addToEntryCacheAsync_write st base_idx fd m))"

definition cf_writeFromCacheToDisk :: "CorfuShard \<Rightarrow> u64 \<Rightarrow> int \<times> CorfuShard" where
  "cf_writeFromCacheToDisk st base_idx =
     (case entries_fd_set (cf_base st) base_idx of
        None \<Rightarrow> (0, st)
      | Some fd \<Rightarrow>
          (let b = cf_base st
           in (0, st\<lparr>cf_base := b\<lparr>os := close_fd (os b) fd, entries_fd_set := (entries_fd_set b)(base_idx := None)\<rparr>,
                     cache_size_atomic := (cache_size_atomic st)(base_idx := None)\<rparr>)))"

definition cf_AppendEntryHandler :: "MsgBuffer \<Rightarrow> MsgBuffer \<Rightarrow> CorfuShard \<Rightarrow> (MsgBuffer \<times> CorfuShard) option" where
  "cf_AppendEntryHandler resp req st =
     (let (e, _) = Deserializer LogEntry_new (buf req) 0;
          base_idx = base_idx_of (cf_base st) (log_idx e);
          st = addToEntryCacheAsync st base_idx (buf req);
          (n, cs) = op_index (cache_size_atomic st) base_idx;
          st = st\<lparr>cache_size_atomic := cs\<rparr>;
          st = (if stripe_unit_size (cf_base st) \<le> scast n then snd (cf_writeFromCacheToDisk st base_idx) else st)
      in Some ((resize_msg_buffer resp 4)\<lparr>buf := put_le (buf resp) 0 (0 :: u32)\<rparr>, st))"

definition no_entry :: "MsgBuffer \<Rightarrow> MsgBuffer" where
  "no_entry resp = resize_msg_buffer (resp\<lparr>buf := put_le (buf resp) 0 (Status_word NOENT)\<rparr>) 4"

definition cf_read_place :: "CorfuShard \<Rightarrow> u64 \<Rightarrow> mem \<Rightarrow> mem option \<times> CorfuShard" where
  "cf_read_place st idx m =
     (let b = cf_base st; base_idx = base_idx_of b idx;
          n = unat (entry_size st); ofst = unat (entry_size st * local_cache_idx b idx);
          put = (\<lambda>r. case r of None \<Rightarrow> m | Some bs \<Rightarrow> write_bytes m 0 bs)
      in case entries_fd_set b base_idx of
           None \<Rightarrow>
             (case open_rdonly (os b) (getDataFilePath b base_idx) of
                (None, fs) \<Rightarrow> (None, st)
              | (Some fd, fs) \<Rightarrow> (Some (put (pread_fd fs fd n ofst)), st\<lparr>cf_base := b\<lparr>os := close_fd fs fd\<rparr>\<rparr>))
         | Some fd \<Rightarrow> (Some (put (pread_fd (os b) fd n ofst)), st))"

definition cf_ReadEntryHandler :: "MsgBuffer \<Rightarrow> MsgBuffer \<Rightarrow> CorfuShard \<Rightarrow> (MsgBuffer \<times> CorfuShard) option" where
  "cf_ReadEntryHandler resp req st =
     (case cf_read_place st (get_le (buf req) 0) (buf resp) of
        (None, st) \<Rightarrow> Some (no_entry resp, st)
      | (Some m, st) \<Rightarrow>
          (let (e, len) = Deserializer LogEntry_new m 0
           in if flags e \<noteq> 1 then Some (no_entry (resp\<lparr>buf := m\<rparr>), st)
              else Some (resize_msg_buffer (resp\<lparr>buf := m\<rparr>) (unat len), st)))"

subsection \<open>Batches of entries\<close>

partial_function (option) collectBatchEntries_loop ::
  "ShardServer \<Rightarrow> u64 \<Rightarrow> u64 \<Rightarrow> u64 \<Rightarrow> u64 \<Rightarrow> mem \<Rightarrow> u64 \<Rightarrow> u64 \<Rightarrow> (mem \<times> u64 \<times> u64) option" where
  "collectBatchEntries_loop st start_idx end_idx end_base_idx i m offset num_entries =
     (if i \<le> end_base_idx then
        (let from_idx = (if i < start_idx then start_idx else i);
             to_idx = (if end_idx < i + big_stripe_unit_size st - 1 then end_idx else i + big_stripe_unit_size st - 1);
             from_local_idx = (from_idx - i) div of_int (shard_num st);
             to_local_idx = (to_idx - i) div of_int (shard_num st);
             num = to_local_idx - from_local_idx + 1
         in case MultiSerializer_num (cached st i) from_local_idx (ucast num) m (unat offset) True of
              None \<Rightarrow> None
            | Some (m, n) \<Rightarrow>
                collectBatchEntries_loop st start_idx end_idx end_base_idx (i + big_stripe_unit_size st) m (offset + n) (num_entries + num))
      else Some (m, offset, num_entries))"

definition collectBatchEntries :: "ShardServer \<Rightarrow> u64 \<Rightarrow> u64 \<Rightarrow> mem \<Rightarrow> (mem \<times> u64) option" where
  "collectBatchEntries st start_idx end_idx m =
     (case collectBatchEntries_loop st start_idx end_idx (base_idx_of st end_idx) (base_idx_of st start_idx) m 4 0 of
        None \<Rightarrow> None
      | Some (m, offset, num_entries) \<Rightarrow> Some (put_le m 0 (ucast num_entries :: u32), offset))"

definition ReadBatch_ready :: "ShardServer \<Rightarrow> u64 \<Rightarrow> bool" where
  "ReadBatch_ready st end_idx \<longleftrightarrow>
     \<not> (of_nat (length (cached st (base_idx_of st end_idx))) \<le> local_cache_idx st end_idx \<or> replicated_index st < end_idx)"

definition ReadBatchHandler :: "bool \<Rightarrow> MsgBuffer \<Rightarrow> MsgBuffer \<Rightarrow> ShardServer \<Rightarrow> (MsgBuffer \<times> ShardServer) option" where
  "ReadBatchHandler slow_path_exercized resp req st =
     (let start_idx = get_le (buf req) 0; end_idx = get_le (buf req) 8; base_idx = base_idx_of st end_idx
      in case (if ReadEntry_check st base_idx then Some (True, st) else ReadEntry_load st base_idx) of
           None \<Rightarrow> None
         | Some (loaded, st) \<Rightarrow>
             if \<not> loaded \<and> \<not> ReadEntry_check st base_idx \<or> \<not> ReadBatch_ready st end_idx then None
             else case collectBatchEntries st start_idx end_idx (buf resp) of
                    None \<Rightarrow> None
                  | Some (m, len) \<Rightarrow>
                      Some (resize_msg_buffer (resp\<lparr>buf := m\<rparr>) (unat len),
                            if slow_path_exercized then st\<lparr>num_slow_path_reads := num_slow_path_reads st + 1\<rparr>
                            else st\<lparr>num_fast_path_reads := num_fast_path_reads st + 1\<rparr>))"

section \<open>Files of places\<close>

text \<open>\<open>places_at s c F\<close>: the file contents \<open>c\<close> are places of \<open>s\<close> bytes; place \<open>j\<close> holds the entry
  \<open>F j\<close>, or zeros where nothing has been written.\<close>

definition places_at :: "nat \<Rightarrow> byte list \<Rightarrow> (nat \<rightharpoonup> LogEntry) \<Rightarrow> bool" where
  "places_at s c F \<longleftrightarrow> (c = [] \<or> (\<exists>j. F j \<noteq> None \<and> length c = s * Suc j)) \<and>
     (\<forall>j e. F j = Some e \<longrightarrow> s * j + s \<le> length c \<and> entry_at (mapped c) (s * j) e) \<and>
     (\<forall>x<length c. F (x div s) = None \<longrightarrow> c ! x = 0)"

lemma length_patch: "length (patch c a bs) = max (length c) (a + length bs)"
  by (auto simp: patch_def max_def min_def)

lemma nth_patch:
  "x < length (patch c a bs) \<Longrightarrow> patch c a bs ! x =
    (if a \<le> x \<and> x < a + length bs then bs ! (x - a) else if x < length c then c ! x else 0)"
proof -
  assume x: "x < length (patch c a bs)"
  let ?h = "take a c @ replicate (a - length c) 0"
  have h: "length ?h = a" "x < a \<Longrightarrow> ?h ! x = (if x < length c then c ! x else 0)" by (auto simp: nth_append min_def)
  have "patch c a bs = ?h @ bs @ drop (a + length bs) c" by (simp add: patch_def)
  then have "patch c a bs ! x = (if x < a then ?h ! x else (bs @ drop (a + length bs) c) ! (x - a))"
    by (simp only: nth_append h(1))
  moreover have "a + length bs \<le> x \<Longrightarrow> x < length c" using x by (simp add: length_patch)
  ultimately show ?thesis using h(2) by (auto simp: nth_append)
qed

lemma places_at_write:
  assumes p: "places_at s c F" and e: "entry_at (mapped bs) 0 e" "esz e = s" "length bs = s"
    and F: "\<And>i x. F i = Some x \<Longrightarrow> esz x = s"
  shows "places_at s (patch c (s * j) bs) (F(j \<mapsto> e))"
proof -
  let ?c = "patch c (s * j) bs"
  have s: "0 < s" using e(2) esz_bounds(1) [of e] by simp
  have len: "length ?c = max (length c) (s * j + s)" by (simp add: length_patch e(3))
  have div: "x div s = j \<longleftrightarrow> s * j \<le> x \<and> x < s * j + s" for x
    using s by (metis add.commute dividend_less_times_div div_nat_eqI mult.commute mult_Suc times_div_less_eq_dividend)
  have "\<exists>i. (F(j \<mapsto> e)) i \<noteq> None \<and> length ?c = s * Suc i"
  proof (cases "length c \<le> s * j + s")
    case True
    then show ?thesis by (intro exI [of _ j]) (simp add: len)
  next
    case False
    then have "c \<noteq> []" by auto
    then obtain i where "F i \<noteq> None" "length c = s * Suc i" using p by (auto simp: places_at_def)
    then show ?thesis using False by (intro exI [of _ i]) (simp add: len)
  qed
  moreover have "s * i + s \<le> length ?c \<and> entry_at (mapped ?c) (s * i) x" if ix: "(F(j \<mapsto> e)) i = Some x" for i x
  proof (cases "i = j")
    case True
    then have "entry_at (mapped ?c) (s * i) e"
      by (intro entry_at_shift [OF e(1)]) (simp add: e(2, 3) mapped_def nth_patch len less_max_iff_disj)
    then show ?thesis using True ix by (simp add: len)
  next
    case False
    then have i: "F i = Some x" "s * i + s \<le> length c" "entry_at (mapped c) (s * i) x" using p ix by (auto simp: places_at_def)
    have "mapped ?c (s * i + y) = mapped c (s * i + y)" if y: "y < s" for y
    proof -
      have "(s * i + y) div s = i" using y s by simp
      then have "\<not> (s * j \<le> s * i + y \<and> s * i + y < s * j + s)" using div [of "s * i + y"] False by simp
      then show ?thesis using y i(2) by (auto simp: mapped_def nth_patch len e(3))
    qed
    then have "entry_at (mapped ?c) (s * i) x" by (intro entry_at_shift [OF i(3)]) (simp add: F [OF i(1)])
    then show ?thesis using i(2) by (simp add: len)
  qed
  moreover have "?c ! x = 0" if x: "x < length ?c" "(F(j \<mapsto> e)) (x div s) = None" for x
    using x p div [of x] by (auto simp: nth_patch e(3) places_at_def split: if_splits)
  ultimately show ?thesis by (simp add: places_at_def)
qed

lemma places_at_empty [simp]: "places_at s [] Map.empty"
  by (simp add: places_at_def)

text \<open>What a read of a place gives: the entry, zeros, or nothing behind the end of the file.\<close>

lemma places_at_read:
  assumes p: "places_at s c F" and s: "0 < s"
  shows "F j = Some e \<Longrightarrow> esz e = s \<Longrightarrow> entry_at (write_bytes m 0 (take s (drop (s * j) c))) 0 e"
    and "F j = None \<Longrightarrow> s * j < length c \<Longrightarrow> take s (drop (s * j) c) = replicate s 0"
    and "length c \<le> s * j \<Longrightarrow> take s (drop (s * j) c) = []"
    and "(\<And>i x. F i = Some x \<Longrightarrow> i < j) \<Longrightarrow> length c \<le> s * j"
proof -
  {
    assume j: "F j = Some e" "esz e = s"
    then have e: "s * j + s \<le> length c" "entry_at (mapped c) (s * j) e" using p by (auto simp: places_at_def)
    have "write_bytes m 0 (take s (drop (s * j) c)) (0 + y) = mapped c (s * j + y)" if "y < s" for y
      using that e(1) by (simp add: write_bytes_def mapped_def)
    then show "entry_at (write_bytes m 0 (take s (drop (s * j) c))) 0 e" by (intro entry_at_shift [OF e(2)]) (simp add: j(2))
  next
    assume j: "F j = None" "s * j < length c"
    have "c \<noteq> []" using j(2) by auto
    then obtain q where "length c = s * q" using p unfolding places_at_def by blast
    then have "j < q" using j(2) by simp
    then have "s * Suc j \<le> s * q" by (intro mult_le_mono2) simp
    then have l: "s * j + s \<le> length c" using \<open>length c = s * q\<close> by simp
    have "c ! (s * j + y) = 0" if "y < s" for y
    proof -
      have "(s * j + y) div s = j" using that s by simp
      then show ?thesis using p j(1) l that by (auto simp: places_at_def)
    qed
    then show "take s (drop (s * j) c) = replicate s 0" using l by (intro nth_equalityI) simp_all
  next
    assume "length c \<le> s * j"
    then show "take s (drop (s * j) c) = []" by simp
  next
    assume last: "\<And>i x. F i = Some x \<Longrightarrow> i < j"
    have "c = [] \<or> (\<exists>i. F i \<noteq> None \<and> length c = s * Suc i)" using p by (simp add: places_at_def)
    then show "length c \<le> s * j"
    proof
      assume "\<exists>i. F i \<noteq> None \<and> length c = s * Suc i"
      then obtain i where "length c = s * Suc i" "i < j" using last by auto
      then show ?thesis by (metis Suc_leI mult_le_mono2)
    qed simp
  }
qed

section \<open>The invariant\<close>

definition cf_stripe :: "nat \<Rightarrow> CorfuShard \<Rightarrow> u64 \<Rightarrow> (nat \<rightharpoonup> LogEntry) \<Rightarrow> bool" where
  "cf_stripe s st b F \<longleftrightarrow> dom F \<subseteq> {..<unat (stripe_unit_size (cf_base st))} \<and>
     (case files (os (cf_base st)) (getDataFilePath (cf_base st) b) of
        None \<Rightarrow> F = Map.empty \<and> entries_fd_set (cf_base st) b = None
      | Some c \<Rightarrow> F \<noteq> Map.empty \<and> places_at s c F \<and>
          (if card (dom F) < unat (stripe_unit_size (cf_base st))
           then (\<exists>fd. entries_fd_set (cf_base st) b = Some fd \<and> fd_of (os (cf_base st)) fd = Some (File (getDataFilePath (cf_base st) b) True 0)) \<and>
             cache_size_atomic st b = Some (of_nat (card (dom F)))
           else entries_fd_set (cf_base st) b = None))"

definition cf_inv :: "nat \<Rightarrow> (u64 \<Rightarrow> nat \<rightharpoonup> LogEntry) \<Rightarrow> CorfuShard \<Rightarrow> bool" where
  "cf_inv s S st \<longleftrightarrow> shard_geometry (cf_base st) \<and> unat (stripe_unit_size (cf_base st)) < 2 ^ 31 \<and>
     s * unat (stripe_unit_size (cf_base st)) < 2 ^ 64 \<and> (\<forall>b. creatable (os (cf_base st)) (getDataFilePath (cf_base st) b)) \<and>
     (if S = (\<lambda>_. Map.empty) then entry_size st = 0 else entry_size st = of_nat s) \<and>
     (\<forall>b j e. S b j = Some e \<longrightarrow> wf_entry e \<and> flags e = 1 \<and> esz e = s) \<and> (\<forall>b. cf_stripe s st b (S b))"

lemma cf_invD:
  assumes "cf_inv s S st"
  shows "shard_geometry (cf_base st)" "unat (stripe_unit_size (cf_base st)) < 2 ^ 31" "cf_stripe s st b (S b)"
    "s * unat (stripe_unit_size (cf_base st)) < 2 ^ 64" "creatable (os (cf_base st)) (getDataFilePath (cf_base st) b)"
    "S b j = Some e \<Longrightarrow> wf_entry e \<and> flags e = 1 \<and> esz e = s"
    "S b j = Some e \<Longrightarrow> entry_size st = of_nat s"
  using assms by (auto simp: cf_inv_def split: if_splits)

lemma local_idx_less:
  assumes "shard_geometry st"
  shows "unat (local_cache_idx st idx) < unat (stripe_unit_size st)"
proof -
  let ?U = "unat (stripe_unit_size st)" and ?N = "nat (shard_num st)"
  have "0 < ?U * ?N" using assms by (simp add: shard_geometry_def)
  then have "unat idx - unat idx div (?U * ?N) * (?U * ?N) < ?U * ?N" by (simp add: minus_div_mult_eq_mod)
  then show ?thesis using unat_local_idx [OF assms, of idx] by (simp add: less_mult_imp_div_less)
qed

lemma unat_place:
  assumes "cf_inv s S st"
  shows "unat (of_nat s * local_cache_idx (cf_base st) idx) = s * unat (local_cache_idx (cf_base st) idx)"
    "unat (of_nat s :: u64) = s"
proof -
  let ?U = "unat (stripe_unit_size (cf_base st))"
  have U: "0 < ?U" "s * ?U < 2 ^ 64" using cf_invD(1, 4) [OF assms] by (simp_all add: shard_geometry_def)
  then have "s \<le> s * ?U" by simp
  with U(2) have "s < 2 ^ 64" by linarith
  then show s: "unat (of_nat s :: u64) = s" by (simp add: unat_of_nat_small)
  have "s * unat (local_cache_idx (cf_base st) idx) \<le> s * ?U"
    using local_idx_less [OF cf_invD(1) [OF assms], of idx] by (intro mult_le_mono2) simp
  then have "s * unat (local_cache_idx (cf_base st) idx) < 2 ^ 64" using U(2) by linarith
  then show "unat (of_nat s * local_cache_idx (cf_base st) idx) = s * unat (local_cache_idx (cf_base st) idx)"
    using unat_mult_lem [of "of_nat s :: u64" "local_cache_idx (cf_base st) idx"] s by simp
qed

lemma cf_stripe_cases:
  assumes "cf_stripe s st b F"
  obtains (none) "files (os (cf_base st)) (getDataFilePath (cf_base st) b) = None" "F = Map.empty" "entries_fd_set (cf_base st) b = None"
  | (opened) c fd where "files (os (cf_base st)) (getDataFilePath (cf_base st) b) = Some c" "F \<noteq> Map.empty" "places_at s c F"
      "card (dom F) < unat (stripe_unit_size (cf_base st))" "entries_fd_set (cf_base st) b = Some fd"
      "fd_of (os (cf_base st)) fd = Some (File (getDataFilePath (cf_base st) b) True 0)" "cache_size_atomic st b = Some (of_nat (card (dom F)))"
  | (full) c where "files (os (cf_base st)) (getDataFilePath (cf_base st) b) = Some c" "F \<noteq> Map.empty" "places_at s c F"
      "dom F = {..<unat (stripe_unit_size (cf_base st))}" "entries_fd_set (cf_base st) b = None"
proof (cases "files (os (cf_base st)) (getDataFilePath (cf_base st) b)")
  case (Some c)
  show thesis
  proof (cases "card (dom F) < unat (stripe_unit_size (cf_base st))")
    case False
    have "dom F = {..<unat (stripe_unit_size (cf_base st))}"
      using assms False card_mono [of "{..<unat (stripe_unit_size (cf_base st))}" "dom F"]
      by (intro card_subset_eq) (simp_all add: cf_stripe_def)
    then show thesis using assms Some False by (intro full [of c]) (auto simp: cf_stripe_def)
  qed (use assms Some opened [of c] in \<open>auto simp: cf_stripe_def\<close>)
qed (use assms none in \<open>auto simp: cf_stripe_def\<close>)

section \<open>Reading\<close>

lemma alloc_fd_files: "alloc_fd fs d = (fd, fs') \<Longrightarrow> files fs' = files fs \<and> fd_of fs' fd = Some d"
  using alloc_fd_spec by blast

text \<open>A read does not change what is stored, and opens and closes its file.\<close>

definition cf_same :: "CorfuShard \<Rightarrow> CorfuShard \<Rightarrow> bool" where
  "cf_same st st' \<longleftrightarrow> (\<exists>fs. st' = st\<lparr>cf_base := (cf_base st)\<lparr>os := fs\<rparr>\<rparr> \<and> os_eq (os (cf_base st)) fs)"

lemma getDataFilePath_os [simp]:
  "getDataFilePath (b\<lparr>os := fs\<rparr>) = getDataFilePath b" "getDataFilePath (b\<lparr>entries_fd_set := f\<rparr>) = getDataFilePath b"
  by (rule ext, simp add: getDataFilePath_def)+

lemma cf_same_inv:
  assumes "cf_same st st'" "cf_inv s S st"
  shows "cf_inv s S st'"
proof -
  obtain fs where f: "st' = st\<lparr>cf_base := (cf_base st)\<lparr>os := fs\<rparr>\<rparr>" "files fs = files (os (cf_base st))"
    "creatable fs = creatable (os (cf_base st))" "fd_of fs = fd_of (os (cf_base st))"
    using assms(1) by (auto simp: cf_same_def os_eq_def)
  have "cf_stripe s st' b F = cf_stripe s st b F" for b F by (simp add: cf_stripe_def f cong: option.case_cong)
  then show ?thesis using assms(2) by (simp add: cf_inv_def shard_geometry_def f)
qed

lemma cf_read_place_eq:
  assumes "cf_stripe s st (base_idx_of (cf_base st) idx) F"
  shows "\<exists>st'. cf_same st st' \<and> cf_read_place st idx m =
    (map_option (\<lambda>c. write_bytes m 0 (take (unat (entry_size st)) (drop (unat (entry_size st * local_cache_idx (cf_base st) idx)) c)))
      (files (os (cf_base st)) (getDataFilePath (cf_base st) (base_idx_of (cf_base st) idx))), st')"
  using assms
proof (cases rule: cf_stripe_cases)
  case none
  then show ?thesis by (intro exI [of _ st]) (auto simp: cf_read_place_def open_rdonly_def cf_same_def Let_def intro: exI [of _ "os (cf_base st)"])
next
  case (opened c fd)
  then show ?thesis by (intro exI [of _ st]) (auto simp: cf_read_place_def pread_fd_def cf_same_def Let_def intro: exI [of _ "os (cf_base st)"])
next
  case (full c)
  let ?p = "getDataFilePath (cf_base st) (base_idx_of (cf_base st) idx)"
  obtain fd fs where a: "alloc_fd (os (cf_base st)) (File ?p False 0) = (fd, fs)" by fastforce
  then have "cf_same st (st\<lparr>cf_base := (cf_base st)\<lparr>os := close_fd fs fd\<rparr>\<rparr>)"
    using alloc_close by (auto simp: cf_same_def)
  then show ?thesis
    using full a alloc_fd_files [OF a]
    by (intro exI [of _ "st\<lparr>cf_base := (cf_base st)\<lparr>os := close_fd fs fd\<rparr>\<rparr>"])
      (simp add: cf_read_place_def open_rdonly_def pread_fd_def Let_def)
qed

lemma Deserializer_zero:
  assumes "32 \<le> s"
  shows "flags (fst (Deserializer e0 (write_bytes m 0 (replicate s 0)) 0)) = 0"
proof -
  have "bytes_at (write_bytes m 0 (replicate s (0 :: byte))) 28 2 = le_bytes (0 :: u16)"
    using assms by (simp add: bytes_at_def write_bytes_def le_bytes_def upt_rec numeral_2_eq_2)
  then have "get_le (write_bytes m 0 (replicate s (0 :: byte))) 28 = (0 :: u16)"
    by (simp add: get_le_def le_word_le_bytes)
  then show ?thesis by (simp add: Deserializer_def Let_def)
qed

lemma cf_ReadEntryHandler_ok:
  fixes req :: MsgBuffer and st :: CorfuShard
  assumes inv: "cf_inv s S st"
  defines "idx \<equiv> get_le (buf req) 0"
  defines "b \<equiv> base_idx_of (cf_base st) idx" and "j \<equiv> unat (local_cache_idx (cf_base st) idx)"
  shows "S b j = Some e \<Longrightarrow> \<exists>resp' st'. cf_ReadEntryHandler resp req st = Some (resp', st') \<and> cf_same st st' \<and>
      data_size resp' = esz e \<and> entry_at (buf resp') 0 e"
    and "S b = Map.empty \<Longrightarrow> \<exists>st'. cf_ReadEntryHandler resp req st = Some (no_entry resp, st') \<and> cf_same st st'"
    and "S b j = None \<Longrightarrow> files (os (cf_base st)) (getDataFilePath (cf_base st) b) = Some c \<Longrightarrow> s * j < length c \<Longrightarrow>
      \<exists>m st'. cf_ReadEntryHandler resp req st = Some (no_entry (resp\<lparr>buf := m\<rparr>), st') \<and> cf_same st st'"
    and "files (os (cf_base st)) (getDataFilePath (cf_base st) b) = Some c \<Longrightarrow> length c \<le> s * j \<Longrightarrow>
      entry_at (buf resp) 0 x \<Longrightarrow> wf_entry x \<Longrightarrow> flags x = 1 \<Longrightarrow>
      \<exists>st'. cf_ReadEntryHandler resp req st = Some (resize_msg_buffer resp (esz x), st') \<and> cf_same st st'"
proof -
  note str = cf_invD(3) [OF inv, of b]
  obtain st' where r: "cf_same st st'" "cf_read_place st idx (buf resp) =
      (map_option (\<lambda>c. write_bytes (buf resp) 0 (take (unat (entry_size st)) (drop (unat (entry_size st * local_cache_idx (cf_base st) idx)) c)))
        (files (os (cf_base st)) (getDataFilePath (cf_base st) b)), st')"
    using cf_read_place_eq [OF str [unfolded b_def]] unfolding b_def by blast
  have rd: "cf_read_place st idx (buf resp) = (Some (write_bytes (buf resp) 0 (take s (drop (s * j) c))), st') \<and> places_at s c (S b) \<and> 32 \<le> s"
    if "files (os (cf_base st)) (getDataFilePath (cf_base st) b) = Some c" for c
  proof -
    have p: "S b \<noteq> Map.empty" "places_at s c (S b)" using str that by (auto simp: cf_stripe_def)
    then obtain i x where "S b i = Some x" by (meson ext not_None_eq)
    note x = cf_invD(6, 7) [OF inv this]
    then have "32 \<le> s" using esz_bounds(1) [of x] by simp
    then show ?thesis using r(2) that p(2) unat_place(1) [OF inv, of idx] unat_place(2) [OF inv] x by (simp add: j_def)
  qed
  {
    assume e: "S b j = Some e"
    then obtain c where c: "files (os (cf_base st)) (getDataFilePath (cf_base st) b) = Some c"
      using str by (auto simp: cf_stripe_def split: option.splits)
    note ei = cf_invD(6) [OF inv e]
    have at: "entry_at (write_bytes (buf resp) 0 (take s (drop (s * j) c))) 0 e"
      using places_at_read(1) [where F = "S b"] rd [OF c] e ei by simp
    with Deserializer_entry [OF this, of LogEntry_new] ei rd [OF c] r(1) unat_place(2) [OF inv]
    show "\<exists>resp' st'. cf_ReadEntryHandler resp req st = Some (resp', st') \<and> cf_same st st' \<and>
      data_size resp' = esz e \<and> entry_at (buf resp') 0 e"
      by (simp add: cf_ReadEntryHandler_def idx_def [symmetric] resize_msg_buffer_def unat_of_esz)
  next
    assume "S b = Map.empty"
    then have "files (os (cf_base st)) (getDataFilePath (cf_base st) b) = None"
      using str by (auto simp: cf_stripe_def split: option.splits)
    then show "\<exists>st'. cf_ReadEntryHandler resp req st = Some (no_entry resp, st') \<and> cf_same st st'"
      using r by (simp add: cf_ReadEntryHandler_def idx_def [symmetric])
  next
    assume c: "files (os (cf_base st)) (getDataFilePath (cf_base st) b) = Some c" and j: "S b j = None" "s * j < length c"
    have "take s (drop (s * j) c) = replicate s 0" using places_at_read(2) [where F = "S b"] rd [OF c] j by simp
    then show "\<exists>m st'. cf_ReadEntryHandler resp req st = Some (no_entry (resp\<lparr>buf := m\<rparr>), st') \<and> cf_same st st'"
      using rd [OF c] r(1) Deserializer_zero [of s LogEntry_new "buf resp"]
      by (auto simp: cf_ReadEntryHandler_def idx_def [symmetric] case_prod_beta)
  next
    assume c: "files (os (cf_base st)) (getDataFilePath (cf_base st) b) = Some c" "length c \<le> s * j"
      and x: "entry_at (buf resp) 0 x" "wf_entry x" "flags x = 1"
    have "write_bytes (buf resp) 0 [] = buf resp" by (rule ext) (simp add: write_bytes_def)
    then show "\<exists>st'. cf_ReadEntryHandler resp req st = Some (resize_msg_buffer resp (esz x), st') \<and> cf_same st st'"
      using rd [OF c(1)] c(2) r(1) Deserializer_entry [OF x(1, 2), of LogEntry_new] x(2, 3)
      by (simp add: cf_ReadEntryHandler_def idx_def [symmetric] unat_of_esz)
  }
qed

section \<open>Appending\<close>

lemma cf_stripe_frame:
  assumes "cf_stripe s st b F" "stripe_unit_size (cf_base st') = stripe_unit_size (cf_base st)"
    "getDataFilePath (cf_base st') = getDataFilePath (cf_base st)"
    "files (os (cf_base st')) (getDataFilePath (cf_base st) b) = files (os (cf_base st)) (getDataFilePath (cf_base st) b)"
    "entries_fd_set (cf_base st') b = entries_fd_set (cf_base st) b" "cache_size_atomic st' b = cache_size_atomic st b"
    "\<And>fd. fd_of (os (cf_base st)) fd = Some (File (getDataFilePath (cf_base st) b) True 0) \<Longrightarrow>
      fd_of (os (cf_base st')) fd = Some (File (getDataFilePath (cf_base st) b) True 0)"
  shows "cf_stripe s st' b F"
  using assms(1)
proof (cases rule: cf_stripe_cases)
  case (opened c fd)
  then show ?thesis using assms by (auto simp: cf_stripe_def)
qed (use assms in \<open>auto simp: cf_stripe_def\<close>)

text \<open>The file of the stripe \<open>b\<close> is open and holds the places of \<open>F\<close>.\<close>

definition cf_open :: "nat \<Rightarrow> CorfuShard \<Rightarrow> u64 \<Rightarrow> (nat \<rightharpoonup> LogEntry) \<Rightarrow> nat \<Rightarrow> byte list \<Rightarrow> bool" where
  "cf_open s st b F fd c \<longleftrightarrow> files (os (cf_base st)) (getDataFilePath (cf_base st) b) = Some c \<and> places_at s c F \<and>
     entries_fd_set (cf_base st) b = Some fd \<and> fd_of (os (cf_base st)) fd = Some (File (getDataFilePath (cf_base st) b) True 0) \<and>
     cache_size_atomic st b = Some (of_nat (card (dom F)))"

definition cf_frame :: "u64 \<Rightarrow> CorfuShard \<Rightarrow> CorfuShard \<Rightarrow> bool" where
  "cf_frame b st st' \<longleftrightarrow> same_config (cf_base st) (cf_base st') \<and>
     (\<forall>b' s F. b' \<noteq> b \<longrightarrow> cf_stripe s st b' F \<longrightarrow> cf_stripe s st' b' F)"

lemma cf_frame_trans: "cf_frame b st st1 \<Longrightarrow> cf_frame b st1 st2 \<Longrightarrow> cf_frame b st st2"
  by (auto simp: cf_frame_def same_config_def)

lemma cf_frameI:
  assumes "same_config (cf_base st) (cf_base st')"
    "\<And>b'. b' \<noteq> b \<Longrightarrow> files (os (cf_base st')) (getDataFilePath (cf_base st) b') = files (os (cf_base st)) (getDataFilePath (cf_base st) b') \<and>
      entries_fd_set (cf_base st') b' = entries_fd_set (cf_base st) b' \<and> cache_size_atomic st' b' = cache_size_atomic st b'"
    "\<And>x. x \<noteq> fd \<Longrightarrow> fd_of (os (cf_base st')) x = fd_of (os (cf_base st)) x"
    "\<And>p w n. fd_of (os (cf_base st)) fd = Some (File p w n) \<Longrightarrow> p = getDataFilePath (cf_base st) b"
  shows "cf_frame b st st'"
  unfolding cf_frame_def
proof (intro conjI allI impI assms(1))
  fix b' s F
  assume b': "b' \<noteq> b" and s: "cf_stripe s st b' F"
  have path: "getDataFilePath (cf_base st') = getDataFilePath (cf_base st)"
    by (rule ext) (rule same_config_path [OF assms(1)])
  have "x \<noteq> fd" if "fd_of (os (cf_base st)) x = Some (File (getDataFilePath (cf_base st) b') True 0)" for x
    using that assms(4) [of "getDataFilePath (cf_base st) b'"] b' by auto
  then show "cf_stripe s st' b' F"
    using assms(1) assms(2) [OF b'] assms(3) path by (intro cf_stripe_frame [OF s]) (auto simp: same_config_def)
qed

lemma cf_create_ok:
  assumes none: "entries_fd_set (cf_base st) b = None" and cr: "creatable (os (cf_base st)) (getDataFilePath (cf_base st) b)"
  shows "\<exists>fd st'. addToEntryCacheAsync_create st b = (Some fd, st') \<and> cf_open s st' b Map.empty fd [] \<and> cf_frame b st st' \<and>
    entry_size st' = entry_size st"
proof -
  obtain fd fs where o: "open_create (os (cf_base st)) (getDataFilePath (cf_base st) b) = (Some fd, fs)" "fd_of (os (cf_base st)) fd = None"
    "fd_of fs fd = Some (File (getDataFilePath (cf_base st) b) True 0)" "\<And>x. x \<noteq> fd \<Longrightarrow> fd_of fs x = fd_of (os (cf_base st)) x"
    "files fs = (files (os (cf_base st)))(getDataFilePath (cf_base st) b \<mapsto> [])" "creatable fs = creatable (os (cf_base st))"
    using open_create_spec [OF cr] by blast
  let ?st = "st\<lparr>cache_size_atomic := (cache_size_atomic st)(b \<mapsto> 0),
    cf_base := (cf_base st)\<lparr>os := fs, entries_fd_set := (entries_fd_set (cf_base st))(b \<mapsto> fd)\<rparr>\<rparr>"
  have c: "addToEntryCacheAsync_create st b = (Some fd, ?st)"
    by (simp add: addToEntryCacheAsync_create_def none o(1) Let_def)
  have "cf_open s ?st b Map.empty fd []" using o by (simp add: cf_open_def)
  moreover have "cf_frame b st ?st"
    by (rule cf_frameI [where fd = fd]) (use o in \<open>auto simp: same_config_def\<close>)
  ultimately show ?thesis using c by (intro exI [of _ fd] exI [of _ ?st]) simp
qed

lemma cf_write_ok:
  assumes "cf_open s st b F fd c" and geo: "shard_geometry (cf_base st)"
    and m: "entry_at m 0 e" "wf_entry e" "flags e = 1" "esz e = s" and b: "b = base_idx_of (cf_base st) (log_idx e)"
    and F: "\<And>i x. F i = Some x \<Longrightarrow> esz x = s" and su: "s * unat (stripe_unit_size (cf_base st)) < 2 ^ 64"
  defines "j \<equiv> unat (local_cache_idx (cf_base st) (log_idx e))"
  assumes j: "F j = None" and fin: "finite (dom F)"
  shows "\<exists>c'. cf_open s (addToEntryCacheAsync_write st b fd m) b (F(j \<mapsto> e)) fd c' \<and> cf_frame b st (addToEntryCacheAsync_write st b fd m) \<and>
    entry_size (addToEntryCacheAsync_write st b fd m) = (if entry_size st = 0 then of_nat s else entry_size st)"
proof -
  let ?p = "getDataFilePath (cf_base st) b" and ?st = "addToEntryCacheAsync_write st b fd m" and ?c = "patch c (s * j) (bytes_at m 0 s)"
  note o = assms(1) [unfolded cf_open_def]
  have j': "s * j < 2 ^ 64"
    using local_idx_less [OF geo, of "log_idx e"] su by (metis j_def le_less_trans less_imp_le mult_le_mono2)
  have s: "unat (of_nat s :: u64) = s" using unat_of_esz [OF m(2)] m(4) by simp
  have "unat (of_nat s * local_cache_idx (cf_base st) (log_idx e)) = s * j"
    using unat_mult_lem [of "of_nat s :: u64" "local_cache_idx (cf_base st) (log_idx e)"] j' s by (simp add: j_def)
  then have st: "?st = st\<lparr>cf_base := (cf_base st)\<lparr>os := (os (cf_base st))\<lparr>files := (files (os (cf_base st)))(?p \<mapsto> ?c)\<rparr>\<rparr>,
      entry_size := (if entry_size st = 0 then of_nat s else entry_size st),
      cache_size_atomic := (cache_size_atomic st)(b \<mapsto> of_nat (card (dom F)) + 1)\<rparr>"
    using Deserializer_entry [OF m(1, 2), of LogEntry_new] m(3, 4) o s
    by (intro CorfuShard.equality) (simp_all add: addToEntryCacheAsync_write_def local_cache_idx_def b pwrite_fd_def lookup0_def Let_def)
  have "entry_at (mapped (bytes_at m 0 s)) 0 e"
    by (rule entry_at_shift [OF m(1)]) (simp add: m(4) bytes_at_def)
  then have "places_at s ?c (F(j \<mapsto> e))" using o F m(4) by (intro places_at_write) auto
  moreover have "card (dom (F(j \<mapsto> e))) = Suc (card (dom F))" using j fin by (simp add: domIff)
  ultimately have "cf_open s ?st b (F(j \<mapsto> e)) fd ?c" using o by (simp add: cf_open_def st)
  moreover have "cf_frame b st ?st"
    by (rule cf_frameI [where fd = fd]) (use o in \<open>auto simp: st same_config_def\<close>)
  ultimately show ?thesis by (auto simp: st)
qed

lemma unat_scast_small:
  assumes "k < 2 ^ 31"
  shows "unat (scast (of_nat k :: u32) :: u64) = k"
proof -
  have "sint (of_nat k :: u32) = int k"
    using assms by (simp add: signed_of_nat signed_take_bit_int_eq_self)
  then have "(scast (of_nat k :: u32) :: u64) = of_nat k"
    by (metis of_int_of_nat_eq scast_eq)
  then show ?thesis using assms by (simp add: unat_of_nat_small)
qed

lemma cf_close_ok:
  assumes o: "cf_open s st b F fd c" and d: "dom F = {..<unat (stripe_unit_size (cf_base st))}" "F \<noteq> Map.empty"
  shows "\<exists>st'. cf_writeFromCacheToDisk st b = (0, st') \<and> cf_stripe s st' b F \<and> cf_frame b st st' \<and> entry_size st' = entry_size st"
proof -
  let ?b = "cf_base st"
  let ?st = "st\<lparr>cf_base := ?b\<lparr>os := close_fd (os ?b) fd, entries_fd_set := (entries_fd_set ?b)(b := None)\<rparr>,
    cache_size_atomic := (cache_size_atomic st)(b := None)\<rparr>"
  have "cf_writeFromCacheToDisk st b = (0, ?st)" using o by (simp add: cf_writeFromCacheToDisk_def cf_open_def Let_def)
  moreover have "cf_stripe s ?st b F" using o d by (simp add: cf_stripe_def cf_open_def)
  moreover have "cf_frame b st ?st"
    by (rule cf_frameI [where fd = fd]) (use o in \<open>auto simp: cf_open_def same_config_def\<close>)
  ultimately show ?thesis by (intro exI [of _ ?st]) simp
qed

lemma cf_open_stripe:
  assumes "cf_inv s S st" and e: "b = base_idx_of (cf_base st) idx" "S b (unat (local_cache_idx (cf_base st) idx)) = None"
  shows "\<exists>fd st' c. addToEntryCacheAsync st b m = addToEntryCacheAsync_write st' b fd m \<and> cf_open s st' b (S b) fd c \<and> cf_frame b st st' \<and>
    entry_size st' = entry_size st"
  using cf_invD(3) [OF assms(1), of b]
proof (cases rule: cf_stripe_cases)
  case none
  obtain fd st' where c: "addToEntryCacheAsync_create st b = (Some fd, st')" "cf_open s st' b Map.empty fd []" "cf_frame b st st'"
    "entry_size st' = entry_size st"
    using cf_create_ok [OF none(3) cf_invD(5) [OF assms(1)]] by blast
  then have "addToEntryCacheAsync st b m = addToEntryCacheAsync_write st' b fd m"
    using none(3) by (simp add: addToEntryCacheAsync_def addToEntryCacheAsync_check_def)
  then show ?thesis using c none(2) by auto
next
  case (opened c fd)
  then have "cf_open s st b (S b) fd c" by (simp add: cf_open_def)
  moreover have "cf_frame b st st" by (simp add: cf_frame_def)
  ultimately show ?thesis
    using opened(5) by (intro exI [of _ fd] exI [of _ st] exI [of _ c]) (simp add: addToEntryCacheAsync_def addToEntryCacheAsync_check_def)
next
  case (full c)
  then have "unat (local_cache_idx (cf_base st) idx) \<in> dom (S b)"
    using local_idx_less [OF cf_invD(1) [OF assms(1)], of idx] by simp
  then show ?thesis using e(2) by (simp add: domIff)
qed

lemma cf_AppendEntryHandler_ok:
  fixes e :: LogEntry and st :: CorfuShard
  assumes inv: "cf_inv s S st" and m: "entry_at (buf req) 0 e" "wf_entry e" "flags e = 1" "esz e = s"
  defines "b \<equiv> base_idx_of (cf_base st) (log_idx e)" and "j \<equiv> unat (local_cache_idx (cf_base st) (log_idx e))"
  assumes new: "S b j = None"
  shows "\<exists>resp' st'. cf_AppendEntryHandler resp req st = Some (resp', st') \<and> data_size resp' = 4 \<and>
    same_config (cf_base st) (cf_base st') \<and> cf_inv s (S(b := (S b)(j \<mapsto> e))) st'"
proof -
  let ?U = "unat (stripe_unit_size (cf_base st))" and ?F = "(S b)(j \<mapsto> e)"
  note I = cf_invD [OF inv]
  obtain fd st1 c where st1: "addToEntryCacheAsync st b (buf req) = addToEntryCacheAsync_write st1 b fd (buf req)" "cf_open s st1 b (S b) fd c"
    "cf_frame b st st1" "entry_size st1 = entry_size st"
    using cf_open_stripe [OF inv b_def [THEN meta_eq_to_obj_eq] new [unfolded j_def]] by blast
  have c1: "same_config (cf_base st) (cf_base st1)" using st1(3) by (simp add: cf_frame_def)
  have eq1: "base_idx_of (cf_base st1) = base_idx_of (cf_base st)" "local_cache_idx (cf_base st1) = local_cache_idx (cf_base st)"
    "stripe_unit_size (cf_base st1) = stripe_unit_size (cf_base st)" "shard_geometry (cf_base st1)"
    using c1 same_config_geometry [OF c1] I(1)
    by (auto simp: fun_eq_iff same_config_def base_idx_of_def local_cache_idx_def big_stripe_unit_size_def)
  have dom: "dom (S b) \<subseteq> {..<?U}" using I(3) [of b] by (simp add: cf_stripe_def)
  then have fin: "finite (dom (S b))" by (rule finite_subset) simp
  have dF: "dom ?F \<subseteq> {..<?U}" using dom local_idx_less [OF I(1), of "log_idx e"] by (auto simp: j_def)
  then have card: "card (dom ?F) \<le> ?U" using card_mono [OF _ dF] by simp
  define st2 where "st2 = addToEntryCacheAsync_write st1 b fd (buf req)"
  obtain c' where st2: "cf_open s st2 b ?F fd c'" "cf_frame b st1 st2" "entry_size st2 = (if entry_size st = 0 then of_nat s else entry_size st)"
    using cf_write_ok [OF st1(2) eq1(4) m] new fin I(4, 6) st1(4) unfolding eq1 st2_def b_def [symmetric] j_def [symmetric] by auto
  note f2 = cf_frame_trans [OF st1(3) st2(2)]
  then have c2: "same_config (cf_base st) (cf_base st2)" "stripe_unit_size (cf_base st2) = stripe_unit_size (cf_base st)"
    by (auto simp: cf_frame_def same_config_def)
  have n: "op_index (cache_size_atomic st2) b = (of_nat (card (dom ?F)), cache_size_atomic st2)"
    using st2(1) by (simp add: op_index_def cf_open_def)
  have "unat (scast (of_nat (card (dom ?F)) :: u32) :: u64) = card (dom ?F)" using card I(2) by (intro unat_scast_small) simp
  then have full: "stripe_unit_size (cf_base st2) \<le> scast (of_nat (card (dom ?F)) :: u32) \<longleftrightarrow> card (dom ?F) = ?U"
    using card by (auto simp: word_le_nat_alt c2(2))
  obtain st3 where st3: "st3 = (if card (dom ?F) = ?U then snd (cf_writeFromCacheToDisk st2 b) else st2)" "cf_stripe s st3 b ?F" "cf_frame b st2 st3"
    "entry_size st3 = entry_size st2"
  proof (cases "card (dom ?F) = ?U")
    case True
    then have "dom ?F = {..<unat (stripe_unit_size (cf_base st2))}" using dF unfolding c2(2) by (intro card_subset_eq) simp_all
    moreover have "?F \<noteq> Map.empty" by simp
    ultimately obtain x where "cf_writeFromCacheToDisk st2 b = (0, x)" "cf_stripe s x b ?F" "cf_frame b st2 x" "entry_size x = entry_size st2"
      using cf_close_ok [OF st2(1)] by blast
    then show thesis using True by (intro that [of x]) simp_all
  next
    case False
    then have "cf_stripe s st2 b ?F" using st2(1) card dF by (simp add: cf_stripe_def cf_open_def c2(2))
    then show thesis using False that by (simp add: cf_frame_def)
  qed
  note f3 = cf_frame_trans [OF f2 st3(3)]
  then have c3: "same_config (cf_base st) (cf_base st3)" by (simp add: cf_frame_def)
  have "cf_stripe s st3 b' ((S(b := ?F)) b')" for b' using f3 st3(2) I(3) [of b'] by (cases "b' = b") (simp_all add: cf_frame_def)
  moreover have "entry_size st3 = of_nat s" using st3(4) st2(3) inv by (auto simp: cf_inv_def split: if_splits)
  moreover have "S(b := ?F) \<noteq> (\<lambda>_. Map.empty)" by (metis fun_upd_same map_upd_nonempty)
  ultimately have "cf_inv s (S(b := ?F)) st3"
    using inv m(2-4) c3 same_config_geometry [OF c3] same_config_path [OF c3]
    by (auto simp: cf_inv_def same_config_def split: if_splits)
  moreover have "cf_AppendEntryHandler resp req st = Some ((resize_msg_buffer resp 4)\<lparr>buf := put_le (buf resp) 0 (0 :: u32)\<rparr>, st3)"
    using Deserializer_entry [OF m(1, 2), of LogEntry_new] m(3) n full
    by (simp add: cf_AppendEntryHandler_def Let_def b_def [symmetric] st1(1) st2_def [symmetric] st3(1))
  ultimately show ?thesis using c3 by (simp add: resize_msg_buffer_def)
qed

section \<open>Runs of a shard\<close>

fun cf_appends :: "MsgBuffer \<Rightarrow> MsgBuffer list \<Rightarrow> CorfuShard \<Rightarrow> CorfuShard option" where
  "cf_appends resp [] st = Some st"
| "cf_appends resp (req # reqs) st =
     (case cf_AppendEntryHandler resp req st of None \<Rightarrow> None | Some (_, st) \<Rightarrow> cf_appends resp reqs st)"

text \<open>The entries of a shard have different places.\<close>

lemma place_inj:
  assumes geo: "shard_geometry st" and "unat x mod nat (shard_num st) = unat y mod nat (shard_num st)"
    and "base_idx_of st x = base_idx_of st y" "unat (local_cache_idx st x) = unat (local_cache_idx st y)"
  shows "x = y"
proof -
  let ?N = "nat (shard_num st)" and ?B = "unat (stripe_unit_size st) * nat (shard_num st)"
  have idx: "unat z = unat (base_idx_of st z) + (unat (local_cache_idx st z) * ?N + unat z mod ?N)" for z
  proof -
    have "unat z = unat z div ?B * ?B + unat z mod ?B" by (rule div_mult_mod_eq [symmetric])
    moreover have "unat z mod ?B = unat z mod ?B div ?N * ?N + unat z mod ?B mod ?N" by (rule div_mult_mod_eq [symmetric])
    moreover have "unat z mod ?B mod ?N = unat z mod ?N" by (simp add: mod_mod_cancel)
    ultimately show ?thesis
      using unat_base_idx [OF geo, of z] unat_local_idx [OF geo, of z] by (simp add: minus_div_mult_eq_mod)
  qed
  show ?thesis using idx [of x] idx [of y] assms(2-4) by (simp add: word_unat_eq_iff)
qed

lemma same_config_idx:
  assumes "same_config st st'"
  shows "base_idx_of st' = base_idx_of st" "local_cache_idx st' = local_cache_idx st"
  using assms by (auto simp: fun_eq_iff same_config_def base_idx_of_def local_cache_idx_def big_stripe_unit_size_def)

definition cf_batch :: "CorfuShard \<Rightarrow> nat \<Rightarrow> MsgBuffer list \<Rightarrow> LogEntry list \<Rightarrow> bool" where
  "cf_batch st s reqs es \<longleftrightarrow> list_all2 (\<lambda>r e. entry_at (buf r) 0 e) reqs es \<and> distinct (map log_idx es) \<and>
     list_all (\<lambda>e. wf_entry e \<and> flags e = 1 \<and> esz e = s \<and> int (unat (log_idx e)) mod shard_num (cf_base st) = shard_id (cf_base st)) es"

lemma cf_appends_ok:
  assumes "cf_inv s S st" "cf_batch st s reqs es"
    "\<And>e. e \<in> set es \<Longrightarrow> S (base_idx_of (cf_base st) (log_idx e)) (unat (local_cache_idx (cf_base st) (log_idx e))) = None"
  shows "\<exists>S' st'. cf_appends resp reqs st = Some st' \<and> cf_inv s S' st' \<and> same_config (cf_base st) (cf_base st') \<and>
    (\<forall>e\<in>set es. S' (base_idx_of (cf_base st) (log_idx e)) (unat (local_cache_idx (cf_base st) (log_idx e))) = Some e) \<and>
    (\<forall>b j x. S b j = Some x \<longrightarrow> S' b j = Some x)"
  using assms
proof (induction es arbitrary: S st reqs)
  case Nil
  then show ?case by (auto simp: cf_batch_def)
next
  case (Cons e es)
  then obtain r rs where r: "reqs = r # rs" "entry_at (buf r) 0 e" "cf_batch st s rs es" by (auto simp: cf_batch_def list_all2_Cons2)
  let ?b = "\<lambda>e. base_idx_of (cf_base st) (log_idx e)" and ?j = "\<lambda>e. unat (local_cache_idx (cf_base st) (log_idx e))"
  let ?S = "S(?b e := (S (?b e))(?j e \<mapsto> e))"
  have e: "wf_entry e" "flags e = 1" "esz e = s" using Cons.prems(2) by (auto simp: cf_batch_def)
  obtain resp' st1 where st1: "cf_AppendEntryHandler resp r st = Some (resp', st1)" "same_config (cf_base st) (cf_base st1)" "cf_inv s ?S st1"
    using cf_AppendEntryHandler_ok [OF Cons.prems(1) r(2) e, of resp] Cons.prems(3) [of e] by auto
  note idx = same_config_idx [OF st1(2)]
  have geo: "shard_geometry (cf_base st)" by (rule cf_invD(1) [OF Cons.prems(1)])
  have "\<not> (?b x = ?b e \<and> ?j x = ?j e)" if x: "x \<in> set es" for x
  proof
    assume h: "?b x = ?b e \<and> ?j x = ?j e"
    have N: "0 < shard_num (cf_base st)" using geo by (simp add: shard_geometry_def)
    have "int (unat (log_idx x)) mod shard_num (cf_base st) = int (unat (log_idx e)) mod shard_num (cf_base st)"
      using Cons.prems(2) x by (auto simp: cf_batch_def list_all_iff)
    then have "unat (log_idx x) mod nat (shard_num (cf_base st)) = unat (log_idx e) mod nat (shard_num (cf_base st))"
      using N by (metis int_nat_eq less_imp_le nat_int zmod_int)
    then have "log_idx x = log_idx e" using place_inj [OF geo] h by blast
    then have "log_idx e \<in> set (map log_idx es)" using x by (metis image_eqI list.set_map)
    then show False using Cons.prems(2) by (simp add: cf_batch_def)
  qed
  then have new: "?S (?b x) (?j x) = None" if "x \<in> set es" for x
    using Cons.prems(3) [of x] that by (auto simp: fun_upd_def)
  have "cf_batch st1 s rs es" using r(3) st1(2) by (simp add: cf_batch_def same_config_def)
  then obtain S' st' where S': "cf_appends resp rs st1 = Some st'" "cf_inv s S' st'" "same_config (cf_base st1) (cf_base st')"
    "\<forall>e\<in>set es. S' (?b e) (?j e) = Some e" "\<forall>b j x. ?S b j = Some x \<longrightarrow> S' b j = Some x"
    using Cons.IH [OF st1(3), of rs] new unfolding idx by blast
  have "S' (?b e) (?j e) = Some e" using S'(5) by simp
  moreover have "S' b j = Some x" if "S b j = Some x" for b j x
  proof -
    have "?S b j = Some x" using that Cons.prems(3) [of e] by auto
    then show ?thesis using S'(5) by blast
  qed
  moreover have "same_config (cf_base st) (cf_base st')" using st1(2) S'(3) by (simp add: same_config_def)
  ultimately show ?case using S'(1, 2, 4) st1(1) r(1) by auto
qed

text \<open>C12. Write once, read anywhere. On a shard without data, the entries of this shard that arrive in any order, each once and all of
  one size, are stored at their places; afterwards a read of the index of any of them returns exactly that entry, and
  keeps everything that is stored.\<close>

theorem corfu_read_after_append:
  assumes inv: "cf_inv s (\<lambda>_. Map.empty) st" and es: "cf_batch st s reqs es"
  shows "\<exists>S st'. cf_appends resp reqs st = Some st' \<and> cf_inv s S st' \<and>
    (\<forall>e\<in>set es. \<forall>get r. get_le (buf get) 0 = log_idx e \<longrightarrow>
      (\<exists>r' st''. cf_ReadEntryHandler r get st' = Some (r', st'') \<and> data_size r' = esz e \<and> entry_at (buf r') 0 e \<and> cf_inv s S st''))"
proof -
  obtain S st' where s: "cf_appends resp reqs st = Some st'" "cf_inv s S st'" "same_config (cf_base st) (cf_base st')"
    "\<forall>e\<in>set es. S (base_idx_of (cf_base st) (log_idx e)) (unat (local_cache_idx (cf_base st) (log_idx e))) = Some e"
    using cf_appends_ok [OF inv es, of resp] by auto
  note idx = same_config_idx [OF s(3)]
  have "\<exists>r' st''. cf_ReadEntryHandler r get st' = Some (r', st'') \<and> data_size r' = esz e \<and> entry_at (buf r') 0 e \<and> cf_inv s S st''"
    if "e \<in> set es" "get_le (buf get) 0 = log_idx e" for e get r
    using cf_ReadEntryHandler_ok(1) [OF s(2), of get e r] s(4) that cf_same_inv [OF _ s(2)] unfolding idx by fastforce
  then show ?thesis using s(1, 2) by blast
qed

text \<open>C29. A read of a place behind the end of the file of its stripe, where nothing has been written, does not answer that there is no
  entry: it returns whatever entry the response buffer held before, that of an earlier answer.\<close>

theorem cf_ReadEntryHandler_stale:
  assumes inv: "cf_inv s S st" and idx: "get_le (buf req) 0 = idx" "S (base_idx_of (cf_base st) idx) \<noteq> Map.empty"
    and last: "\<forall>i\<in>dom (S (base_idx_of (cf_base st) idx)). i < unat (local_cache_idx (cf_base st) idx)"
    and resp: "entry_at (buf resp) 0 x" "wf_entry x" "flags x = 1"
  shows "\<exists>st'. cf_ReadEntryHandler resp req st = Some (resize_msg_buffer resp (esz x), st')"
proof -
  let ?b = "base_idx_of (cf_base st) idx"
  obtain c where c: "files (os (cf_base st)) (getDataFilePath (cf_base st) ?b) = Some c" "places_at s c (S ?b)"
    using cf_invD(3) [OF inv, of ?b] idx(2) by (auto simp: cf_stripe_def split: option.splits)
  obtain i y where "S ?b i = Some y" using idx(2) by (meson ext not_None_eq)
  then have "0 < s" using cf_invD(6) [OF inv] esz_bounds(1) [of y] by fastforce
  then have "length c \<le> s * unat (local_cache_idx (cf_base st) idx)" using last by (intro places_at_read(4) [OF c(2)]) blast+
  then show ?thesis using cf_ReadEntryHandler_ok(4) [OF inv, of req c resp x] c(1) resp unfolding idx(1) by blast
qed

text \<open>C30. Two first appends to a stripe at the same time: both find no file, one creates it, and the other, which then finds the
  descriptor of the first, keeps the initial value 0 of its own. Its entry is written to descriptor 0: no file
  changes, but the entry is counted as stored.\<close>

theorem addToEntryCacheAsync_race_lost:
  assumes first: "addToEntryCacheAsync_check st b = None" "addToEntryCacheAsync_create st b = (Some fd, st')"
    and stdin: "fd_of (os (cf_base st')) 0 = Some Other"
  shows "addToEntryCacheAsync_create st' b = (Some 0, st') \<and>
    files (os (cf_base (addToEntryCacheAsync_write st' b 0 m))) = files (os (cf_base st')) \<and>
    cache_size_atomic (addToEntryCacheAsync_write st' b 0 m) b = Some 1"
proof -
  have st': "entries_fd_set (cf_base st') b = Some fd" "cache_size_atomic st' b = Some 0"
    using first by (auto simp: addToEntryCacheAsync_check_def addToEntryCacheAsync_create_def Let_def split: prod.splits option.splits)
  then show ?thesis
    using stdin by (simp add: addToEntryCacheAsync_create_def addToEntryCacheAsync_write_def pwrite_fd_def lookup0_def Let_def
        split: prod.split)
qed

section \<open>Reading batches\<close>

lemma MultiSerializer_num_loop_eq:
  "unat from + unat i + k \<le> length es \<Longrightarrow> unat i + k < 2 ^ 32 \<Longrightarrow> length es < 2 ^ 64 \<Longrightarrow>
    MultiSerializer_num_loop k es from i m a off = Some (MultiSerializer_loop (take k (drop (unat from + unat i) es)) m a off)"
proof (induction k arbitrary: i m off)
  case (Suc k)
  have u: "unat (from + ucast i) = unat from + unat i" using Suc.prems by (subst unat_add_small) simp_all
  have i: "unat (i + 1) = Suc (unat i)" using Suc.prems(2) by (subst unat_add_small) simp_all
  obtain m' n where s: "Serializer (es ! (unat from + unat i)) m (a + unat off) = (m', n)" by fastforce
  have "MultiSerializer_num_loop k es from (i + 1) m' a (off + n) =
      Some (MultiSerializer_loop (take k (drop (Suc (unat from + unat i)) es)) m' a (off + n))"
    using Suc.IH [of "i + 1" m' "off + n"] Suc.prems by (simp add: i)
  moreover have "take (Suc k) (drop (unat from + unat i) es) = es ! (unat from + unat i) # take k (drop (Suc (unat from + unat i)) es)"
    using Suc.prems(1) by (simp add: Cons_nth_drop_Suc [symmetric])
  ultimately show ?case using Suc.prems(1) s by (simp add: u Let_def)
qed simp

text \<open>A batch within one stripe: the answer holds the number of entries and the entries of the range.\<close>

lemma collectBatchEntries_stripe:
  assumes geo: "shard_geometry st" and idx: "start_idx \<le> end_idx" "base_idx_of st start_idx = base_idx_of st end_idx"
  defines "b \<equiv> base_idx_of st end_idx"
  defines "l \<equiv> unat (local_cache_idx st start_idx)" and "h \<equiv> unat (local_cache_idx st end_idx)"
  defines "xs \<equiv> take (h + 1 - l) (drop l (cached st b))"
  assumes top: "unat b + unat (stripe_unit_size st) * nat (shard_num st) < 2 ^ 64"
    and len: "h < length (cached st b)" "length (cached st b) < 2 ^ 32" "list_all wf_entry (cached st b)" "4 + tsz xs < 2 ^ 64"
  shows "\<exists>m'. collectBatchEntries st start_idx end_idx m = Some (m', of_nat (4 + tsz xs)) \<and>
    get_le m' 0 = (of_nat (length xs) :: u32) \<and> entries_at m' 4 xs"
proof -
  let ?B = "unat (stripe_unit_size st) * nat (shard_num st)"
  have B: "unat (big_stripe_unit_size st) = ?B" "0 < ?B" using unat_big_stripe [OF geo] geo by (simp_all add: shard_geometry_def)
  have b: "unat b = unat end_idx div ?B * ?B" "unat b = unat start_idx div ?B * ?B"
    using unat_base_idx [OF geo, of end_idx] unat_base_idx [OF geo, of start_idx] idx(2) by (simp_all add: b_def)
  have "unat start_idx div ?B * ?B \<le> unat start_idx" by (rule div_times_less_eq_dividend)
  moreover have "unat end_idx div ?B * ?B + unat end_idx mod ?B = unat end_idx" by (rule div_mult_mod_eq)
  moreover have "unat end_idx mod ?B < ?B" by (rule mod_less_divisor [OF B(2)])
  ultimately have le: "unat b \<le> unat start_idx" "unat start_idx \<le> unat end_idx" "unat end_idx < unat b + ?B"
    using b idx(1) by (linarith, simp add: word_le_nat_alt, linarith)
  have u: "unat (b + big_stripe_unit_size st) = unat b + ?B" using top B(1) by (subst unat_add_small) simp_all
  have u1: "unat (b + big_stripe_unit_size st - 1) = unat b + ?B - 1"
  proof -
    have "1 \<le> unat (b + big_stripe_unit_size st)" using u B(2) by linarith
    then have "(1 :: u64) \<le> b + big_stripe_unit_size st" by (simp add: word_le_nat_alt)
    then show ?thesis using u by (simp add: unat_sub)
  qed
  have c1: "(if b < start_idx then start_idx else b) = start_idx" using le(1) by (auto simp: word_less_nat_alt word_unat_eq_iff)
  have c2: "(if end_idx < b + big_stripe_unit_size st - 1 then end_idx else b + big_stripe_unit_size st - 1) = end_idx"
    using le(3) u1 by (auto simp: word_less_nat_alt word_unat_eq_iff)
  have lh: "(start_idx - b) div of_int (shard_num st) = local_cache_idx st start_idx" "(end_idx - b) div of_int (shard_num st) = local_cache_idx st end_idx"
    using idx(2) by (simp_all add: local_cache_idx_def b_def)
  have "l \<le> h"
    unfolding l_def h_def unat_local_idx [OF geo] b(1) [symmetric] b(2) [symmetric] using le(2) by (intro div_le_mono diff_le_mono)
  define num where "num = local_cache_idx st end_idx - local_cache_idx st start_idx + 1"
  have "unat (local_cache_idx st end_idx - local_cache_idx st start_idx) = h - l"
    using \<open>l \<le> h\<close> by (simp add: unat_sub word_le_nat_alt l_def h_def)
  then have un: "unat num = h + 1 - l" using \<open>l \<le> h\<close> len(1, 2) by (simp add: num_def unat_add_small)
  then have num: "unat (ucast num :: u32) = h + 1 - l"
    using len(1, 2) by (simp add: unsigned_ucast_eq unsigned_take_bit_eq take_bit_nat_eq_self)
  have ml: "MultiSerializer_num (cached st b) (local_cache_idx st start_idx) (ucast num) m (unat (4 :: u64)) True = Some (MultiSerializer_loop xs m 4 0)"
    using MultiSerializer_num_loop_eq [of "local_cache_idx st start_idx" 0 "h + 1 - l" "cached st b" m 4 0] len(1, 2) \<open>l \<le> h\<close>
    by (simp add: MultiSerializer_num_def num xs_def l_def)
  have wf: "list_all wf_entry xs" using len(3) by (auto simp: xs_def list_all_iff dest: in_set_takeD in_set_dropD)
  obtain m' n where r: "MultiSerializer_loop xs m 4 0 = (m', n)" by fastforce
  have z: "unat (0 :: u64) + tsz xs < 2 ^ 64" using len(4) by simp
  have s: "entries_at m' 4 xs" "unat n = tsz xs" using ew.loop_chain [OF wf z, of m 4] ew.loop_size [OF wf z, of m 4] r by simp_all
  have "\<not> b + big_stripe_unit_size st \<le> b" using u B(2) by (simp add: word_le_nat_alt)
  then have "collectBatchEntries_loop st start_idx end_idx b (b + big_stripe_unit_size st) m' x y = Some (m', x, y)" for x y
    by (subst collectBatchEntries_loop.simps) simp
  then have loop: "collectBatchEntries_loop st start_idx end_idx b b m 4 0 = Some (m', 4 + n, num)"
    by (subst collectBatchEntries_loop.simps)
      (simp only: Let_def c1 c2 lh num_def [symmetric] ml r option.case prod.case order_refl if_True add_0)
  have "n = of_nat (tsz xs)" using s(2) by (rule word_eq_of_nat)
  moreover have "entries_at (put_le m' 0 x) 4 xs" for x :: u32
    by (rule ew.chain_frame [OF wf s(1)]) (simp add: put_le_def write_bytes_def)
  moreover have "ucast num = (of_nat (length xs) :: u32)"
    using num len(1) \<open>l \<le> h\<close> by (intro word_eq_of_nat) (simp add: xs_def)
  ultimately show ?thesis using loop idx(2) by (simp add: collectBatchEntries_def b_def)
qed

section \<open>Witnesses\<close>

definition fresh_corfu :: "nat \<Rightarrow> CorfuShard" where
  "fresh_corfu k = CorfuShard_new (fresh_shard 2 2 k)"

definition place_message :: "LogEntry \<Rightarrow> MsgBuffer" where
  "place_message e = \<lparr>buf = fst (Serializer e (\<lambda>_. 0) 0), data_size = esz e\<rparr>"

definition index_message :: "u64 \<Rightarrow> MsgBuffer" where
  "index_message idx = \<lparr>buf = put_le (\<lambda>_. 0) 0 idx, data_size = 16\<rparr>"

lemma fresh_corfu_simps [simp]:
  "stripe_unit_size (cf_base (fresh_corfu k)) = 2" "shard_num (cf_base (fresh_corfu k)) = 2" "shard_id (cf_base (fresh_corfu k)) = int k"
  "entries_fd_set (cf_base (fresh_corfu k)) = Map.empty" "os (cf_base (fresh_corfu k)) = FileSys_new (\<lambda>_. True)"
  "cache_size_atomic (fresh_corfu k) = Map.empty" "entry_size (fresh_corfu k) = 0"
  by (simp_all add: fresh_corfu_def CorfuShard_new_def fresh_shard_def ShardServer_new_def)

lemma fresh_corfu_inv: "s < 2 ^ 62 \<Longrightarrow> cf_inv s (\<lambda>_. Map.empty) (fresh_corfu k)"
  by (simp add: cf_inv_def shard_geometry_def cf_stripe_def FileSys_new_def)

lemmas fresh_corfu_32 = fresh_corfu_inv [of 32 0, simplified]

lemma place_message_entry: "entry_at (buf (place_message e)) 0 e"
  by (simp add: place_message_def entry_at_Serializer)

theorem corfu_read_after_append_witness:
  "\<exists>st' r' st''. cf_appends empty_msg (map (place_message \<circ> plain_entry) [6, 0, 4]) (fresh_corfu 0) = Some st' \<and>
    cf_ReadEntryHandler empty_msg (index_message 4) st' = Some (r', st'') \<and> entry_at (buf r') 0 (plain_entry 4)"
proof -
  have "cf_batch (fresh_corfu 0) 32 (map (place_message \<circ> plain_entry) [6, 0, 4]) (map plain_entry [6, 0, 4])"
    by (simp add: cf_batch_def place_message_entry) (simp add: plain_entry_def LogEntry_new_def)
  from corfu_read_after_append [OF fresh_corfu_32 this, of empty_msg]
  obtain st' where "cf_appends empty_msg (map (place_message \<circ> plain_entry) [6, 0, 4]) (fresh_corfu 0) = Some st'"
    "\<forall>e\<in>set (map plain_entry [6, 0, 4]). \<forall>get r. get_le (buf get) 0 = log_idx e \<longrightarrow>
      (\<exists>r' st''. cf_ReadEntryHandler r get st' = Some (r', st'') \<and> entry_at (buf r') 0 e)"
    by blast
  moreover have "get_le (buf (index_message 4)) 0 = log_idx (plain_entry 4)" by (simp add: index_message_def)
  moreover have "plain_entry 4 \<in> set (map plain_entry [6, 0, 4])" by simp
  ultimately show ?thesis by blast
qed

theorem cf_ReadEntryHandler_stale_witness:
  "\<exists>st st'. cf_appends empty_msg [place_message (plain_entry 0)] (fresh_corfu 0) = Some st \<and>
    cf_ReadEntryHandler (place_message (plain_entry 9)) (index_message 2) st = Some (place_message (plain_entry 9), st')"
proof -
  let ?b = "cf_base (fresh_corfu 0)" and ?e = "plain_entry 0"
  have e: "flags ?e = 1" "esz ?e = 32" by (simp_all add: plain_entry_def LogEntry_new_def esz_def align4_def)
  have big: "big_stripe_unit_size ?b = 4" by (simp add: big_stripe_unit_size_def)
  have p: "base_idx_of ?b 0 = 0" "local_cache_idx ?b 0 = 0" "base_idx_of ?b 2 = 0" "local_cache_idx ?b 2 = 1"
    by (simp_all add: local_cache_idx_def base_idx_of_def big)
  obtain r st where st: "cf_AppendEntryHandler empty_msg (place_message ?e) (fresh_corfu 0) = Some (r, st)" "same_config ?b (cf_base st)"
    "cf_inv 32 ((\<lambda>_. Map.empty)(0 := [0 \<mapsto> ?e])) st"
    using cf_AppendEntryHandler_ok [OF fresh_corfu_32 place_message_entry [of ?e] _ e, of empty_msg] by (auto simp: p)
  note idx = same_config_idx [OF st(2)]
  let ?S = "(\<lambda>_. Map.empty)(0 := [0 \<mapsto> ?e])"
  have S: "get_le (buf (index_message 2)) 0 = (2 :: u64)" "?S (base_idx_of (cf_base st) 2) \<noteq> Map.empty"
    "\<forall>i\<in>dom (?S (base_idx_of (cf_base st) 2)). i < unat (local_cache_idx (cf_base st) 2)"
    by (simp_all add: index_message_def idx p split: if_splits)
  have x: "wf_entry (plain_entry 9)" "flags (plain_entry 9) = 1" by (simp, simp add: plain_entry_def)
  obtain st' where "cf_ReadEntryHandler (place_message (plain_entry 9)) (index_message 2) st =
      Some (resize_msg_buffer (place_message (plain_entry 9)) (esz (plain_entry 9)), st')"
    using cf_ReadEntryHandler_stale [OF st(3) S place_message_entry x] by blast
  moreover have "resize_msg_buffer (place_message (plain_entry 9)) 32 = place_message (plain_entry 9)"
    by (simp add: resize_msg_buffer_def place_message_def)
  ultimately show ?thesis using st(1) by auto
qed

theorem addToEntryCacheAsync_race_lost_witness:
  "\<exists>fd st'. addToEntryCacheAsync_create (fresh_corfu 0) 0 = (Some fd, st') \<and> addToEntryCacheAsync_create st' 0 = (Some 0, st') \<and>
    files (os (cf_base (addToEntryCacheAsync_write st' 0 0 (buf (place_message (plain_entry 2)))))) = files (os (cf_base st')) \<and>
    cache_size_atomic (addToEntryCacheAsync_write st' 0 0 (buf (place_message (plain_entry 2)))) 0 = Some 1"
proof -
  have c: "addToEntryCacheAsync_check (fresh_corfu 0) 0 = None" by (simp add: addToEntryCacheAsync_check_def)
  obtain fd st' where st': "addToEntryCacheAsync_create (fresh_corfu 0) 0 = (Some fd, st')" "fd_of (os (cf_base st')) 0 = Some Other"
    by (simp add: addToEntryCacheAsync_create_def Let_def open_create_def alloc_fd_def FileSys_new_def fd_of_def)
  from addToEntryCacheAsync_race_lost [OF c st'] st'(1) show ?thesis by blast
qed

end
