(* ===== verification/Corfu_Client.thy ===== *)
theory Corfu_Client
  imports Client Shard_Corfu
begin

text \<open>
  Appends of a client in the build with \<^verbatim>\<open>CORFU\<close>, from \<^verbatim>\<open>src/src/client/lazylog_cli.cc\<close> and
  \<^verbatim>\<open>src/src/cons_log/storage/naive_backend.cc\<close>. The client gets the next index from the sequencer of the primary
  and then writes the entry to the shard of this index on three replicas of the shards, one after the other. The
  two further backends of the client are added to the record of the client; each replica has its own servers and network.
\<close>

section \<open>The model\<close>

record CorfuClient =
  cc_base :: LazyLogClient
  be_rd_cli_backup :: NaiveReadBackend
  be_rd_cli_backup_2 :: NaiveReadBackend

fun InitializeBackendBackup_loop ::
  "(string \<Rightarrow> int \<Rightarrow> int \<Rightarrow> ShardClient) \<Rightarrow> string list \<Rightarrow> string list \<Rightarrow> nat \<Rightarrow> nat \<Rightarrow> NaiveReadBackend \<Rightarrow>
    (exn + NaiveReadBackend) option" where
  "InitializeBackendBackup_loop connect shd_servers id_offsets 0 i rb = Some (Inr rb)"
| "InitializeBackendBackup_loop connect shd_servers id_offsets (Suc n) i rb =
     (if length id_offsets \<le> i then None
      else case stoi (id_offsets ! i) of
             Inl x \<Rightarrow> Some (Inl x)
           | Inr ofst \<Rightarrow>
               if length shd_servers \<le> i then None
               else InitializeBackendBackup_loop connect shd_servers id_offsets n (Suc i)
                      (rb\<lparr>rb_shard_clients := (rb_shard_clients rb)(int i \<mapsto> connect (shd_servers ! i) (rb_thread_id rb) ofst)\<rparr>))"

definition InitializeBackendBackup ::
  "(string \<Rightarrow> int \<Rightarrow> int \<Rightarrow> ShardClient) \<Rightarrow> Properties \<Rightarrow> int \<Rightarrow> NaiveReadBackend \<Rightarrow> (exn + NaiveReadBackend) option" where
  "InitializeBackendBackup connect p idx rb =
     (case stoi (GetProperty p ''shard.stripe_unit_size'' ''100000'') of
        Inl x \<Rightarrow> Some (Inl x)
      | Inr su \<Rightarrow>
          let uri = (if idx = 1 then ''shard.backup_uri'' else ''shard.backup_uri_2'');
              shd_servers = SeparateValue (GetProperty p uri ''localhost:31860'') CHR '','';
              id_offsets = SeparateValue (GetProperty p ''shard.id_offset'' ''0'') CHR '',''
          in case stoi (GetProperty p ''shard.num'' ''1'') of
               Inl x \<Rightarrow> Some (Inl x)
             | Inr n \<Rightarrow>
                 InitializeBackendBackup_loop connect shd_servers id_offsets (nat n) 0
                   (rb\<lparr>rb_stripe_unit_size := of_int su, rb_shard_num := n\<rparr>))"

definition Initialize_backups ::
  "(string \<Rightarrow> int \<Rightarrow> int \<Rightarrow> ShardClient) \<Rightarrow> Properties \<Rightarrow> byte \<Rightarrow> LazyLogClient \<Rightarrow> (exn + byte \<times> CorfuClient) option" where
  "Initialize_backups connect p global_th_id c =
     (case stoull (GetProperty p ''shard.threadcount'' ''1'') of
        Inl x \<Rightarrow> Some (Inl x)
      | Inr thread_count \<Rightarrow>
          if thread_count = 0 then None
          else case InitializeBackendBackup connect p 1 (NaiveReadBackend_new (int_of_u64 (ucast global_th_id mod thread_count))) of
                 None \<Rightarrow> None
               | Some (Inl x) \<Rightarrow> Some (Inl x)
               | Some (Inr rb) \<Rightarrow>
                   (case InitializeBackendBackup connect p 2 (NaiveReadBackend_new (int_of_u64 (ucast (global_th_id + 1) mod thread_count))) of
                      None \<Rightarrow> None
                    | Some (Inl x) \<Rightarrow> Some (Inl x)
                    | Some (Inr rb2) \<Rightarrow>
                        Some (Inr (global_th_id + 2, \<lparr>cc_base = c, be_rd_cli_backup = rb, be_rd_cli_backup_2 = rb2\<rparr>))))"

definition corfu_AppendBatch ::
  "(int \<Rightarrow> 's net) \<Rightarrow> NaiveReadBackend \<Rightarrow> LogEntry list \<Rightarrow> (int \<Rightarrow> 's) \<Rightarrow> (u64 \<times> NaiveReadBackend \<times> (int \<Rightarrow> 's)) option" where
  "corfu_AppendBatch net rb es sv =
     (case es of
        [] \<Rightarrow> None
      | e # _ \<Rightarrow>
          (let shard = sint (ucast (log_idx e mod of_int (rb_shard_num rb)) :: u32)
           in case rb_shard_clients rb shard of
                None \<Rightarrow> None
              | Some c \<Rightarrow>
                  (case ShardClient_AppendEntry (net shard) c e (sv shard) of
                     None \<Rightarrow> None
                   | Some (_, c, s) \<Rightarrow>
                       Some (0, rb\<lparr>rb_shard_clients := (rb_shard_clients rb)(shard \<mapsto> c)\<rparr>, sv(shard := s)))))"

definition corfu_AppendEntryAll ::
  "(string \<Rightarrow> 't net) \<Rightarrow> (nat \<Rightarrow> int \<Rightarrow> 's net) \<Rightarrow> byte list \<Rightarrow> CorfuClient \<Rightarrow> (string \<Rightarrow> 't) \<Rightarrow> (nat \<Rightarrow> int \<Rightarrow> 's) \<Rightarrow>
    ((u64 \<times> u64) \<times> CorfuClient \<times> (string \<Rightarrow> 't) \<times> (nat \<Rightarrow> int \<Rightarrow> 's)) option" where
  "corfu_AppendEntryAll net snet d cc sv sh =
     (let (e, c) = constructLogEntry (cc_base cc) d; u = dl_primary c
      in case map_of (dur_clis c) u of
           None \<Rightarrow> None
         | Some dc \<Rightarrow>
             (case getGSN (net u) dc (sv u) of
                None \<Rightarrow> None
              | Some (g, dc, s) \<Rightarrow>
                  (let c = c\<lparr>dur_clis := AList.update u dc (dur_clis c)\<rparr>; es = [e\<lparr>log_idx := g\<rparr>]
                   in case corfu_AppendBatch (snet 0) (be_rd_cli c) es (sh 0) of
                        None \<Rightarrow> None
                      | Some (_, rb0, sh0) \<Rightarrow>
                          (case corfu_AppendBatch (snet 1) (be_rd_cli_backup cc) es (sh 1) of
                             None \<Rightarrow> None
                           | Some (_, rb1, sh1) \<Rightarrow>
                               (case corfu_AppendBatch (snet 2) (be_rd_cli_backup_2 cc) es (sh 2) of
                                  None \<Rightarrow> None
                                | Some (_, rb2, sh2) \<Rightarrow>
                                    Some ((client_id e, client_seq e),
                                      \<lparr>cc_base = c\<lparr>be_rd_cli := rb0\<rparr>, be_rd_cli_backup = rb1, be_rd_cli_backup_2 = rb2\<rparr>,
                                      sv(u := s), sh(0 := sh0, 1 := sh1, 2 := sh2)))))))"

section \<open>One replica of the shards\<close>

text \<open>\<open>replica_ok N s S rb sh\<close>: the backend is connected to all \<open>N\<close> shards of a replica, and \<open>S\<close> gives the entry of each
  place, which is a shard, the first index of a stripe, and the number of the place within it.\<close>

definition replica_ok ::
  "nat \<Rightarrow> nat \<Rightarrow> (nat \<times> u64 \<times> nat \<rightharpoonup> LogEntry) \<Rightarrow> NaiveReadBackend \<Rightarrow> (int \<Rightarrow> CorfuShard) \<Rightarrow> bool" where
  "replica_ok N s S rb sh \<longleftrightarrow> rb_shard_num rb = int N \<and> 0 < N \<and> N < 2 ^ 31 \<and>
     (\<forall>k<N. rb_shard_clients rb (int k) \<noteq> None \<and> cf_inv s (\<lambda>b j. S (k, b, j)) (sh (int k)))"

definition slot :: "nat \<Rightarrow> (int \<Rightarrow> CorfuShard) \<Rightarrow> u64 \<Rightarrow> nat \<times> u64 \<times> nat" where
  "slot N sh idx =
     (let k = unat idx mod N; b = cf_base (sh (int k)) in (k, base_idx_of b idx, unat (local_cache_idx b idx)))"

lemma ShardClient_AppendEntry_ok:
  assumes net: "serves net APPEND_ENTRY_BE (cf_AppendEntryHandler r0)" and inv: "cf_inv s S st"
    and e: "wf_entry e" "flags e = 1" "esz e = s"
    and new: "S (base_idx_of (cf_base st) (log_idx e)) (unat (local_cache_idx (cf_base st) (log_idx e))) = None"
  shows "\<exists>c' st'. ShardClient_AppendEntry net c e st = Some (False, c', st') \<and> same_config (cf_base st) (cf_base st') \<and>
    cf_inv s (S(base_idx_of (cf_base st) (log_idx e) := (S (base_idx_of (cf_base st) (log_idx e)))
      (unat (local_cache_idx (cf_base st) (log_idx e)) \<mapsto> e))) st'"
proof -
  let ?req = "resize_msg_buffer ((sc_req c)\<lparr>buf := fst (Serializer e (buf (sc_req c)) 0)\<rparr>) (unat (snd (Serializer e (buf (sc_req c)) 0)))"
  let ?S = "S(base_idx_of (cf_base st) (log_idx e) := (S (base_idx_of (cf_base st) (log_idx e)))
      (unat (local_cache_idx (cf_base st) (log_idx e)) \<mapsto> e))"
  have msg: "entry_msg e ?req" by (rule entry_msg_Serializer [OF e(1)])
  have "\<exists>resp st'. cf_AppendEntryHandler r0 req' st = Some (resp, st') \<and>
      (data_size resp = 4 \<and> same_config (cf_base st) (cf_base st') \<and> cf_inv s ?S st')" if "same_msg ?req req'" for req'
  proof -
    have "entry_at (buf req') 0 e" using entry_msg_same [OF msg that] by (simp add: entry_msg_def)
    from cf_AppendEntryHandler_ok [OF inv this e new, of r0] show ?thesis by blast
  qed
  from serves_relation [OF net this]
  obtain resp r st' where "data_size resp = 4" "same_config (cf_base st) (cf_base st')" "cf_inv s ?S st'" "same_msg resp r"
    "net APPEND_ENTRY_BE ?req st = Some (r, st')" by blast
  then show ?thesis
    by (auto simp: ShardClient_AppendEntry_def enqueue_def case_prod_beta Let_def same_msg_def)
qed

lemma replica_append:
  assumes net: "\<And>i. serves (net i) APPEND_ENTRY_BE (cf_AppendEntryHandler r0)" and ok: "replica_ok N s S rb sh"
    and e: "wf_entry e" "flags e = 1" "esz e = s" and new: "S (slot N sh (log_idx e)) = None"
  shows "\<exists>rb' sh'. corfu_AppendBatch net rb [e] sh = Some (0, rb', sh') \<and>
    replica_ok N s (S(slot N sh (log_idx e) \<mapsto> e)) rb' sh' \<and> slot N sh' = slot N sh"
proof -
  let ?k = "unat (log_idx e) mod N" and ?st = "sh (int (unat (log_idx e) mod N))"
  let ?b = "base_idx_of (cf_base ?st) (log_idx e)" and ?j = "unat (local_cache_idx (cf_base ?st) (log_idx e))"
  note R = ok [unfolded replica_ok_def]
  have k: "?k < N" using R by simp
  obtain c where c: "rb_shard_clients rb (int ?k) = Some c" using R k by auto
  have inv: "cf_inv s (\<lambda>b j. S (?k, b, j)) ?st" using R k by blast
  have sl: "slot N sh (log_idx e) = (?k, ?b, ?j)" by (simp add: slot_def Let_def)
  obtain c' st' where a: "ShardClient_AppendEntry (net (int ?k)) c e ?st = Some (False, c', st')" "same_config (cf_base ?st) (cf_base st')"
    "cf_inv s ((\<lambda>b j. S (?k, b, j))(?b := (\<lambda>j. S (?k, ?b, j))(?j \<mapsto> e))) st'"
    using ShardClient_AppendEntry_ok [OF net inv e, of "int ?k" c] new sl by auto
  have upd: "(\<lambda>b j. S (?k, b, j))(?b := (\<lambda>j. S (?k, ?b, j))(?j \<mapsto> e)) = (\<lambda>b j. (S(slot N sh (log_idx e) \<mapsto> e)) (?k, b, j))"
    by (intro ext) (auto simp: sl)
  have oth: "(\<lambda>b j. (S(slot N sh (log_idx e) \<mapsto> e)) (i, b, j)) = (\<lambda>b j. S (i, b, j))" if "i \<noteq> ?k" for i
    using that by (intro ext) (auto simp: sl)
  let ?rb = "rb\<lparr>rb_shard_clients := (rb_shard_clients rb)(int ?k \<mapsto> c')\<rparr>" and ?sh = "sh(int ?k := st')"
  have "cf_inv s (\<lambda>b j. (S(slot N sh (log_idx e) \<mapsto> e)) (i, b, j)) (?sh (int i))" if "i < N" for i
  proof (cases "i = ?k")
    case True
    show ?thesis using a(3) unfolding upd True by simp
  next
    case False
    then show ?thesis using R that unfolding oth [OF False] by simp
  qed
  then have "replica_ok N s (S(slot N sh (log_idx e) \<mapsto> e)) ?rb ?sh" using R by (simp add: replica_ok_def)
  moreover have "slot N ?sh = slot N sh"
    using same_config_idx [OF a(2)] by (intro ext) (auto simp: slot_def Let_def)
  moreover have "corfu_AppendBatch net rb [e] sh = Some (0, ?rb, ?sh)"
    using R c a(1) shard_of_idx [of N "log_idx e"] by (simp add: corfu_AppendBatch_def Let_def)
  ultimately show ?thesis by blast
qed

lemma replica_read:
  assumes net: "\<And>i. serves (net i) READ_ENTRY_BE (cf_ReadEntryHandler r0)" and ok: "replica_ok N s S (be_rd_cli c) sh"
    and e: "S (slot N sh idx) = Some e"
  shows "\<exists>c' sh'. LazyLogClient_ReadEntry net idx c sh = Some (True, data e, c', sh')"
proof -
  let ?k = "unat idx mod N" and ?rb = "be_rd_cli c"
  let ?st = "sh (int ?k)"
  note R = ok [unfolded replica_ok_def]
  have k: "?k < N" using R by simp
  obtain sc where sc: "rb_shard_clients ?rb (int ?k) = Some sc" using R k by auto
  have inv: "cf_inv s (\<lambda>b j. S (?k, b, j)) ?st" using R k by blast
  have pl: "S (?k, base_idx_of (cf_base ?st) idx, unat (local_cache_idx (cf_base ?st) idx)) = Some e" using e by (simp add: slot_def Let_def)
  have we: "wf_entry e" "flags e = 1" using cf_invD(6) [OF inv pl] by auto
  let ?req = "resize_msg_buffer ((sc_req sc)\<lparr>buf := put_le (buf (sc_req sc)) 0 idx\<rparr>) 8"
  have "\<exists>resp st'. cf_ReadEntryHandler r0 req' ?st = Some (resp, st') \<and> entry_msg e resp" if "same_msg ?req req'" for req'
  proof -
    have "get_le (buf req') 0 = idx" using same_msg_get_le [OF that, of 0, where ?'a = 64] by (simp add: resize_msg_buffer_def)
    then show ?thesis using cf_ReadEntryHandler_ok(1) [OF inv, of req' e r0] pl by (auto simp: entry_msg_def)
  qed
  from serves_relation [OF net [of "int ?k"] this]
  obtain resp r st' where r: "entry_msg e resp" "same_msg resp r" "net (int ?k) READ_ENTRY_BE ?req ?st = Some (r, st')" by blast
  have "entry_at (buf r) 0 e" "data_size r = esz e" using entry_msg_same [OF r(1, 2)] by (simp_all add: entry_msg_def)
  then have "fst (Deserializer LogEntry_new (buf r) 0) = e" "\<not> data_size r \<le> 4"
    using Deserializer_entry [of "buf r" 0 e LogEntry_new] we esz_bounds(1) [of e] by auto
  then show ?thesis
    using R sc r(3) shard_of_idx(2) [of N idx]
    by (simp add: LazyLogClient_ReadEntry_def NaiveReadBackend_ReadEntry_def ShardClient_ReadEntry_def enqueue_def Let_def)
qed

section \<open>Appends of a client\<close>

lemma getGSN_ok:
  assumes "serves net GET_GSN (GetGSNHandler resp0)"
  shows "\<exists>dc'. getGSN net dc st = Some (gsn st, dc', st\<lparr>gsn := gsn st + 1\<rparr>)"
proof -
  have "\<exists>resp. GetGSNHandler resp0 req' st = Some (resp, st\<lparr>gsn := gsn st + 1\<rparr>) \<and> (data_size resp = 8 \<and> get_le (buf resp) 0 = gsn st)" for req'
    by (simp add: GetGSNHandler_def GetGSN_def resize_msg_buffer_def)
  from call_served [OF assms this, of dc "buf (req_buf dc)" 0]
  obtain resp r dc' where "data_size resp = 8" "get_le (buf resp) 0 = gsn st" "same_msg resp r"
    "call net GET_GSN dc (buf (req_buf dc)) 0 st = Some (r, dc', st\<lparr>gsn := gsn st + 1\<rparr>)" by blast
  then show ?thesis
    using same_msg_get_le [of resp r 0, where ?'a = 64] by (auto simp: getGSN_def same_msg_def)
qed

lemma corfu_AppendEntryAll_ok:
  assumes net: "serves (net (dl_primary (cc_base cc))) GET_GSN (GetGSNHandler resp0)"
      "\<And>r i. serves (snet r i) APPEND_ENTRY_BE (cf_AppendEntryHandler r0)"
    and dc: "map_of (dur_clis (cc_base cc)) (dl_primary (cc_base cc)) \<noteq> None"
    and R0: "replica_ok N s S0 (be_rd_cli (cc_base cc)) (sh 0)" and R1: "replica_ok N s S1 (be_rd_cli_backup cc) (sh 1)"
    and R2: "replica_ok N s S2 (be_rd_cli_backup_2 cc) (sh 2)"
    and e: "length d < 2 ^ 32 - 3" "esz (entry_of (cc_base cc) d) = s"
    and g_def: "g = gsn (sv (dl_primary (cc_base cc)))" and x_def: "x = (entry_of (cc_base cc) d)\<lparr>log_idx := g\<rparr>"
    and new: "S0 (slot N (sh 0) g) = None" "S1 (slot N (sh 1) g) = None" "S2 (slot N (sh 2) g) = None"
  shows "\<exists>cc' sv' sh'. corfu_AppendEntryAll net snet d cc sv sh = Some ((lc_client_id (cc_base cc), lc_seq (cc_base cc)), cc', sv', sh') \<and>
    gsn (sv' (dl_primary (cc_base cc))) = g + 1 \<and> (\<forall>r. slot N (sh' r) = slot N (sh r)) \<and>
    replica_ok N s (S0(slot N (sh 0) g \<mapsto> x)) (be_rd_cli (cc_base cc')) (sh' 0) \<and>
    replica_ok N s (S1(slot N (sh 1) g \<mapsto> x)) (be_rd_cli_backup cc') (sh' 1) \<and>
    replica_ok N s (S2(slot N (sh 2) g \<mapsto> x)) (be_rd_cli_backup_2 cc') (sh' 2)"
proof -
  let ?c = "cc_base cc" and ?u = "dl_primary (cc_base cc)"
  have x: "wf_entry x" "flags x = 1" "esz x = s" "log_idx x = g"
    using wf_entry_of [OF e(1), of ?c] e(2) by (simp_all add: x_def wf_entry_def esz_def)
  obtain dc where dc': "map_of (dur_clis ?c) ?u = Some dc" using dc by auto
  obtain dc2 where gs: "getGSN (net ?u) dc (sv ?u) = Some (g, dc2, (sv ?u)\<lparr>gsn := g + 1\<rparr>)"
    using getGSN_ok [OF net(1), of dc "sv ?u"] by (auto simp: g_def)
  have A: "\<exists>rb' sh'. corfu_AppendBatch (snet r) rb [x] shr = Some (0, rb', sh') \<and>
      replica_ok N s (S(slot N shr g \<mapsto> x)) rb' sh' \<and> slot N sh' = slot N shr"
    if "replica_ok N s S rb shr" "S (slot N shr g) = None" for r S rb shr
    using replica_append [where net = "snet r", OF net(2) that(1) x(1-3)] that(2) by (simp add: x(4))
  obtain rb0 sh0 where a0: "corfu_AppendBatch (snet 0) (be_rd_cli ?c) [x] (sh 0) = Some (0, rb0, sh0)"
    "replica_ok N s (S0(slot N (sh 0) g \<mapsto> x)) rb0 sh0" "slot N sh0 = slot N (sh 0)" using A [OF R0 new(1)] by blast
  obtain rb1 sh1 where a1: "corfu_AppendBatch (snet 1) (be_rd_cli_backup cc) [x] (sh 1) = Some (0, rb1, sh1)"
    "replica_ok N s (S1(slot N (sh 1) g \<mapsto> x)) rb1 sh1" "slot N sh1 = slot N (sh 1)" using A [OF R1 new(2)] by blast
  obtain rb2 sh2 where a2: "corfu_AppendBatch (snet 2) (be_rd_cli_backup_2 cc) [x] (sh 2) = Some (0, rb2, sh2)"
    "replica_ok N s (S2(slot N (sh 2) g \<mapsto> x)) rb2 sh2" "slot N sh2 = slot N (sh 2)" using A [OF R2 new(3)] by blast
  let ?cc = "\<lparr>cc_base = ?c\<lparr>lc_seq := lc_seq ?c + 1, dur_clis := AList.update ?u dc2 (dur_clis ?c), be_rd_cli := rb0\<rparr>,
    be_rd_cli_backup = rb1, be_rd_cli_backup_2 = rb2\<rparr>"
  have "corfu_AppendEntryAll net snet d cc sv sh =
      Some ((lc_client_id ?c, lc_seq ?c), ?cc, sv(?u := (sv ?u)\<lparr>gsn := g + 1\<rparr>), sh(0 := sh0, 1 := sh1, 2 := sh2))"
    using dc' gs a0(1) a1(1) a2(1) by (simp add: corfu_AppendEntryAll_def constructLogEntry_eq Let_def x_def)
  moreover have "\<forall>r. slot N ((sh(0 := sh0, 1 := sh1, 2 := sh2)) r) = slot N (sh r)" using a0(3) a1(3) a2(3) by simp
  ultimately show ?thesis using a0(2) a1(2) a2(2) by (intro exI conjI) (assumption | simp)+
qed

text \<open>C13. An append in the build with \<^verbatim>\<open>CORFU\<close>: the call returns, the sequencer of the primary has moved on by one, and the entry
  with the index that the sequencer gave is stored at its place on all three replicas; a read of this index by the client
  then returns the payload. The index must be new on the replicas and the entry as large as the places.\<close>

theorem corfu_append_durable:
  assumes net: "serves (net (dl_primary (cc_base cc))) GET_GSN (GetGSNHandler resp0)"
      "\<And>r i. serves (snet r i) APPEND_ENTRY_BE (cf_AppendEntryHandler r0)" "\<And>r i. serves (snet r i) READ_ENTRY_BE (cf_ReadEntryHandler r0)"
    and dc: "map_of (dur_clis (cc_base cc)) (dl_primary (cc_base cc)) \<noteq> None"
    and R: "replica_ok N s S0 (be_rd_cli (cc_base cc)) (sh 0)" "replica_ok N s S1 (be_rd_cli_backup cc) (sh 1)"
      "replica_ok N s S2 (be_rd_cli_backup_2 cc) (sh 2)"
    and e: "length d < 2 ^ 32 - 3" "esz (entry_of (cc_base cc) d) = s" and g: "g = gsn (sv (dl_primary (cc_base cc)))"
    and new: "S0 (slot N (sh 0) g) = None" "S1 (slot N (sh 1) g) = None" "S2 (slot N (sh 2) g) = None"
  shows "\<exists>cc' sv' sh' x. corfu_AppendEntryAll net snet d cc sv sh = Some ((lc_client_id (cc_base cc), lc_seq (cc_base cc)), cc', sv', sh') \<and>
    gsn (sv' (dl_primary (cc_base cc))) = g + 1 \<and> log_idx x = g \<and> data x = d \<and>
    replica_ok N s (S0(slot N (sh 0) g \<mapsto> x)) (be_rd_cli (cc_base cc')) (sh' 0) \<and>
    replica_ok N s (S1(slot N (sh 1) g \<mapsto> x)) (be_rd_cli_backup cc') (sh' 1) \<and>
    replica_ok N s (S2(slot N (sh 2) g \<mapsto> x)) (be_rd_cli_backup_2 cc') (sh' 2) \<and>
    (\<exists>c'' sh''. LazyLogClient_ReadEntry (snet 0) g (cc_base cc') (sh' 0) = Some (True, d, c'', sh''))"
proof -
  let ?x = "(entry_of (cc_base cc) d)\<lparr>log_idx := g\<rparr>"
  obtain cc' sv' sh' where a: "corfu_AppendEntryAll net snet d cc sv sh = Some ((lc_client_id (cc_base cc), lc_seq (cc_base cc)), cc', sv', sh')"
    "gsn (sv' (dl_primary (cc_base cc))) = g + 1" "\<forall>r. slot N (sh' r) = slot N (sh r)"
    "replica_ok N s (S0(slot N (sh 0) g \<mapsto> ?x)) (be_rd_cli (cc_base cc')) (sh' 0)"
    "replica_ok N s (S1(slot N (sh 1) g \<mapsto> ?x)) (be_rd_cli_backup cc') (sh' 1)"
    "replica_ok N s (S2(slot N (sh 2) g \<mapsto> ?x)) (be_rd_cli_backup_2 cc') (sh' 2)"
    using corfu_AppendEntryAll_ok [where net = net and snet = snet and sv = sv, OF net(1, 2) dc R e g refl new] by blast
  have "(S0(slot N (sh 0) g \<mapsto> ?x)) (slot N (sh' 0) g) = Some ?x" using a(3) by simp
  from replica_read [where net = "snet 0", OF net(3) a(4) this]
  have "\<exists>c'' sh''. LazyLogClient_ReadEntry (snet 0) g (cc_base cc') (sh' 0) = Some (True, d, c'', sh'')" by simp
  then show ?thesis using a by (intro exI [of _ cc'] exI [of _ sv'] exI [of _ sh'] exI [of _ ?x]) simp
qed

section \<open>Witnesses\<close>

definition sample_corfu_client :: CorfuClient where
  "sample_corfu_client =
     (let rb = \<lparr>rb_stripe_unit_size = 2, rb_shard_num = 2, rb_thread_id = 0, rb_shard_clients = (\<lambda>_. Some \<lparr>sc_req = empty_msg, sc_resp = empty_msg\<rparr>)\<rparr>
      in \<lparr>cc_base = sample_client\<lparr>be_rd_cli := rb\<rparr>, be_rd_cli_backup = rb, be_rd_cli_backup_2 = rb\<rparr>)"

definition corfu_dispatch :: "byte \<Rightarrow> MsgBuffer \<Rightarrow> CorfuShard \<Rightarrow> (MsgBuffer \<times> CorfuShard) option" where
  "corfu_dispatch t = (if t = APPEND_ENTRY_BE then cf_AppendEntryHandler empty_msg else cf_ReadEntryHandler empty_msg)"

lemma corfu_dispatch_serves:
  "serves corfu_dispatch APPEND_ENTRY_BE (cf_AppendEntryHandler empty_msg)" "serves corfu_dispatch READ_ENTRY_BE (cf_ReadEntryHandler empty_msg)"
  unfolding serves_def corfu_dispatch_def
  by (intro allI exI [of _ _] conjI; auto simp: APPEND_ENTRY_BE_def READ_ENTRY_BE_def split: option.split)+

lemma sample_replica: "replica_ok 2 36 Map.empty (be_rd_cli_backup sample_corfu_client) (\<lambda>i. fresh_corfu (nat i))"
  using fresh_corfu_inv [of 36] by (simp add: replica_ok_def sample_corfu_client_def Let_def)

theorem corfu_append_durable_witness:
  "\<exists>cc' sv' sh' c'' sh''. corfu_AppendEntryAll (\<lambda>u t. GetGSNHandler empty_msg) (\<lambda>r i. corfu_dispatch) [1, 2, 3] sample_corfu_client
      sample_logs (\<lambda>r i. fresh_corfu (nat i)) = Some ((9, 4), cc', sv', sh') \<and>
    LazyLogClient_ReadEntry (\<lambda>i. corfu_dispatch) (gsn (sample_logs ''p'')) (cc_base cc') (sh' 0) = Some (True, [1, 2, 3], c'', sh'')"
proof -
  have c: "dl_primary (cc_base sample_corfu_client) = ''p''" "map_of (dur_clis (cc_base sample_corfu_client)) ''p'' \<noteq> None"
    "be_rd_cli (cc_base sample_corfu_client) = be_rd_cli_backup sample_corfu_client"
    "be_rd_cli_backup_2 sample_corfu_client = be_rd_cli_backup sample_corfu_client"
    "lc_client_id (cc_base sample_corfu_client) = 9" "lc_seq (cc_base sample_corfu_client) = 4"
    by (simp_all add: sample_corfu_client_def sample_client_def Let_def)
  have "esz (entry_of (cc_base sample_corfu_client) [1, 2, 3]) = 36" by (simp add: esz_def align4_def)
  from corfu_append_durable [where net = "\<lambda>u t. GetGSNHandler empty_msg" and snet = "\<lambda>r i. corfu_dispatch" and cc = sample_corfu_client and
      N = 2 and s = 36 and sh = "\<lambda>r i. fresh_corfu (nat i)" and sv = sample_logs and d = "[1, 2, 3]", unfolded c,
      OF serves_self corfu_dispatch_serves _ sample_replica sample_replica sample_replica _ this refl] c(2)
  show ?thesis by fastforce
qed

end
