(* ===== verification/Client_Runs.thy ===== *)
theory Client_Runs
  imports Client
begin

text \<open>
  Sequences of calls of one client (\<^verbatim>\<open>src/src/client/lazylog_cli.cc\<close>). A client is created and initialised and
  then runs any of its operations, in any order and with any answers of the event loop, while other clients change the
  servers. The invariant \<open>client_wf\<close> of its connections, tokens and requests in flight holds in every such state.
\<close>

section \<open>The invariant\<close>

definition flight_ok :: "(string \<rightharpoonup> MsgBuffer \<times> nat) \<Rightarrow> RPCToken list \<Rightarrow> bool" where
  "flight_ok F tks \<longleftrightarrow> (\<forall>u req t. F u = Some (req, t) \<longrightarrow> t < length tks \<and> \<not> Complete (tks ! t) \<and>
     (\<forall>u' req'. F u' = Some (req', t) \<longrightarrow> u' = u))"

definition pending_ok :: "(string \<rightharpoonup> DurabilityLogERPCCli) \<Rightarrow> nat \<Rightarrow> bool" where
  "pending_ok D n \<longleftrightarrow> (\<forall>u d. D u = Some d \<longrightarrow> set (pending_reqs d) \<subseteq> {..<n})"

definition client_wf :: "LazyLogClient \<Rightarrow> bool" where
  "client_wf c \<longleftrightarrow> distinct (map fst (dur_clis c)) \<and> distinct (map fst (lc_flight c)) \<and>
     fst ` set (lc_flight c) \<subseteq> fst ` set (dur_clis c) \<and>
     flight_ok (map_of (lc_flight c)) (lc_tokens c) \<and> pending_ok (map_of (dur_clis c)) (length (lc_tokens c))"

lemma flight_ok_send:
  assumes "flight_ok F tks" shows "flight_ok (F(u \<mapsto> (req, length tks))) (tks @ [RPCToken_new])"
proof -
  have "\<not> Complete RPCToken_new" by (simp add: Complete_def RPCToken_new_def)
  moreover have "t < length tks" if "F u = Some (req, t)" for u req t using assms that by (simp add: flight_ok_def)
  ultimately show ?thesis
    using assms unfolding flight_ok_def by (auto simp: nth_append less_Suc_eq split: if_splits)
qed

lemma flight_ok_deliver:
  assumes "flight_ok F tks" "F u = Some (req, t)" shows "flight_ok (F(u := None)) (tks[t := x])"
  using assms unfolding flight_ok_def by (auto simp: nth_list_update)

lemma pending_ok_update: "pending_ok D n \<Longrightarrow> set (pending_reqs d) \<subseteq> {..<n} \<Longrightarrow> pending_ok (D(u \<mapsto> d)) n"
  by (simp add: pending_ok_def)

lemma pending_ok_mono: "pending_ok D n \<Longrightarrow> n \<le> m \<Longrightarrow> pending_ok D m"
  by (fastforce simp: pending_ok_def)

lemma client_wf_more [simp]:
  "client_wf (c\<lparr>be_rd_cli := rb\<rparr>) = client_wf c" "client_wf (c\<lparr>lc_seq := s\<rparr>) = client_wf c"
  "client_wf (c\<lparr>lc_client_id := i\<rparr>) = client_wf c" "client_wf (c\<lparr>maj_threshold := m\<rparr>) = client_wf c"
  "client_wf (c\<lparr>dl_primary := u\<rparr>) = client_wf c"
  by (simp_all add: client_wf_def)

lemma client_wf_update:
  assumes "client_wf c" "set (pending_reqs d) \<subseteq> {..<length (lc_tokens c)}"
  shows "client_wf (c\<lparr>dur_clis := AList.update u d (dur_clis c)\<rparr>)"
  using assms by (auto simp: client_wf_def distinct_update update_conv' dom_update intro: pending_ok_update)

lemma client_wf_map_entry:
  assumes "client_wf c" "\<And>d. set (pending_reqs (f d)) \<subseteq> set (pending_reqs d)"
  shows "client_wf (c\<lparr>dur_clis := AList.map_entry u f (dur_clis c)\<rparr>)"
proof -
  have "pending_ok ((map_of (dur_clis c))(u := map_option f (map_of (dur_clis c) u))) (length (lc_tokens c))"
    using assms(1) subsetD [OF assms(2)] unfolding client_wf_def pending_ok_def
    by (auto simp del: map_of_eq_Some_iff) blast
  then show ?thesis
    using assms(1) by (simp add: client_wf_def distinct_map_entry map_of_map_entry dom_map_entry map_option_case del: map_of_eq_Some_iff)
qed

lemma client_wf_pending: "client_wf c \<Longrightarrow> map_of (dur_clis c) u = Some d \<Longrightarrow> set (pending_reqs d) \<subseteq> {..<length (lc_tokens c)}"
  by (simp add: client_wf_def pending_ok_def del: map_of_eq_Some_iff)

section \<open>Preservation\<close>

lemma call_pending: "call net t c m len s = Some (r, c', s') \<Longrightarrow> pending_reqs c' = pending_reqs c"
  by (auto simp: call_def Let_def split: option.splits)

lemma read_calls_pending:
  "ERPCCli_AppendEntry n d e s = Some (r, d', s') \<Longrightarrow> pending_reqs d' = pending_reqs d"
  "ERPCCli_SpecRead n d idx e s = Some (v, e', d', s') \<Longrightarrow> pending_reqs d' = pending_reqs d"
  "ERPCCli_GetNumDurEntry n d s = Some (tail, d', s') \<Longrightarrow> pending_reqs d' = pending_reqs d"
  using call_pending
  by (fastforce simp: ERPCCli_AppendEntry_def split: prod.splits option.splits,
      fastforce simp: ERPCCli_SpecRead_def Let_def split: prod.splits option.splits if_splits,
      fastforce simp: ERPCCli_GetNumDurEntry_def split: prod.splits option.splits)

lemma send_entry_SomeE:
  assumes "send_entry u e c = Some (t, c')"
  obtains d d' req where "map_of (dur_clis c) u = Some d" "map_of (lc_flight c) u = None" "t = length (lc_tokens c)"
    "ERPCCli_AppendEntryAsync d e = (d', req)"
    "c' = c\<lparr>dur_clis := AList.update u d' (dur_clis c), lc_tokens := lc_tokens c @ [RPCToken_new], lc_flight := (u, req, t) # lc_flight c\<rparr>"
  using assms
  by (cases "map_of (dur_clis c) u"; cases "map_of (lc_flight c) u") (auto simp: send_entry_def Let_def split: prod.splits)

lemma send_entry_wf:
  assumes wf: "client_wf c"
  shows "send_entry u e c = Some (t, c') \<Longrightarrow> client_wf c' \<and> t < length (lc_tokens c') \<and> length (lc_tokens c) \<le> length (lc_tokens c')"
    and "send_entry u e c \<noteq> None \<longleftrightarrow> u \<in> fst ` set (dur_clis c) \<and> u \<notin> fst ` set (lc_flight c)"
proof -
  show "send_entry u e c \<noteq> None \<longleftrightarrow> u \<in> fst ` set (dur_clis c) \<and> u \<notin> fst ` set (lc_flight c)"
    by (auto simp: send_entry_def Let_def map_of_eq_None_iff split: option.splits prod.splits intro: rev_image_eqI dest!: map_of_SomeD)
  assume s: "send_entry u e c = Some (t, c')"
  then obtain d d' req where d: "map_of (dur_clis c) u = Some d" "map_of (lc_flight c) u = None" "t = length (lc_tokens c)"
    "ERPCCli_AppendEntryAsync d e = (d', req)"
    "c' = c\<lparr>dur_clis := AList.update u d' (dur_clis c), lc_tokens := lc_tokens c @ [RPCToken_new], lc_flight := (u, req, t) # lc_flight c\<rparr>"
    by (rule send_entry_SomeE)
  have p: "pending_reqs d' = pending_reqs d" using d(4) by (auto simp: ERPCCli_AppendEntryAsync_def Let_def split: prod.splits)
  have "u \<notin> fst ` set (lc_flight c)" "u \<in> fst ` set (dur_clis c)"
    using d(1, 2) by (auto simp: map_of_eq_None_iff intro: rev_image_eqI dest!: map_of_SomeD)
  moreover have "pending_ok ((map_of (dur_clis c))(u \<mapsto> d')) (Suc (length (lc_tokens c)))"
    using wf client_wf_pending [OF wf d(1)] p by (intro pending_ok_mono [OF pending_ok_update]) (auto simp: client_wf_def)
  ultimately have "client_wf c'"
    using wf flight_ok_send [of "map_of (lc_flight c)" "lc_tokens c" u req]
    by (auto simp: client_wf_def d(3, 5) distinct_update update_conv' dom_update)
  then show "client_wf c' \<and> t < length (lc_tokens c') \<and> length (lc_tokens c) \<le> length (lc_tokens c')" by (simp add: d(3, 5))
qed

lemma deliver_wf:
  assumes wf: "client_wf (fst cs)"
  shows "client_wf (fst (deliver net u cs)) \<and> length (lc_tokens (fst (deliver net u cs))) = length (lc_tokens (fst cs))"
proof -
  obtain c sv where cs: "cs = (c, sv)" by (cases cs)
  show ?thesis
  proof (cases "\<exists>req t r s. map_of (lc_flight c) u = Some (req, t) \<and> net u APPEND_ENTRY req (sv u) = Some (r, s)")
    case True
    then obtain req t r s where f: "map_of (lc_flight c) u = Some (req, t)" "net u APPEND_ENTRY req (sv u) = Some (r, s)" by blast
    define c1 where "c1 = c\<lparr>lc_flight := AList.delete u (lc_flight c), lc_tokens := (lc_tokens c)[t := SetComplete (lc_tokens c ! t)]\<rparr>"
    have "client_wf c1"
      using wf flight_ok_deliver [of "map_of (lc_flight c)" "lc_tokens c" u req t] f(1) order_trans [OF dom_delete_subset [of u "lc_flight c"]]
      by (simp add: client_wf_def c1_def cs distinct_delete delete_conv' del: map_of_eq_Some_iff)
    from client_wf_map_entry [OF this, of "\<lambda>d. d\<lparr>resp_buf := r\<rparr>" u]
    show ?thesis by (simp add: deliver_def cs f c1_def)
  next
    case False
    then have "deliver net u cs = cs" by (auto simp: deliver_def cs split: option.splits)
    then show ?thesis using wf by simp
  qed
qed

lemma RunERPC_wf:
  "client_wf (fst cs) \<Longrightarrow> client_wf (fst (RunERPC net us cs)) \<and> length (lc_tokens (fst (RunERPC net us cs))) = length (lc_tokens (fst cs))"
proof (induction us arbitrary: cs)
  case (Cons u us)
  then show ?case using deliver_wf [OF Cons.prems, of net u] Cons.IH [of "deliver net u cs"] by (simp add: RunERPC_def)
qed (simp add: RunERPC_def)

lemma AppendEntryAll_send_wf:
  "client_wf c \<Longrightarrow> AppendEntryAll_send us e c = Some (ts, c') \<Longrightarrow>
    client_wf c' \<and> set ts \<subseteq> {..<length (lc_tokens c')} \<and> length (lc_tokens c) \<le> length (lc_tokens c')"
proof (induction us arbitrary: c ts)
  case (Cons u us)
  then obtain t c1 ts' where s: "send_entry u e c = Some (t, c1)" "AppendEntryAll_send us e c1 = Some (ts', c')" "ts = t # ts'"
    by (auto split: option.splits)
  show ?case using Cons.IH [OF _ s(2)] send_entry_wf(1) [OF Cons.prems(1) s(1)] s(3) by auto
qed simp

lemma AppendEntryAll_wait_wf:
  "client_wf (fst cs) \<Longrightarrow> AppendEntryAll_wait net evs ts cs = Some cs' \<Longrightarrow> client_wf (fst cs')"
proof (induction evs arbitrary: cs)
  case (Cons ev evs)
  then show ?case using RunERPC_wf [OF Cons.prems(1), of net ev] Cons.IH [of "RunERPC net ev cs"] by (auto simp: Let_def split: if_splits)
qed simp

lemma AppendEntryQuorum_send_wf:
  "client_wf c \<Longrightarrow> AppendEntryQuorum_send us e p ts c = Some (p', ts', c') \<Longrightarrow> client_wf c'"
proof (induction us arbitrary: c p ts)
  case (Cons u us)
  then obtain t c1 d where s: "send_entry u e c = Some (t, c1)" "map_of (dur_clis c1) u = Some d"
    by (auto split: option.splits)
  note w = send_entry_wf(1) [OF Cons.prems(1) s(1)]
  then have "client_wf (c1\<lparr>dur_clis := AList.update u (AddPendingReq d t) (dur_clis c1)\<rparr>)"
    using client_wf_pending [OF _ s(2)] by (intro client_wf_update) (auto simp: AddPendingReq_def)
  then show ?case using Cons.prems(2) s Cons.IH by (auto simp: Let_def split: if_splits)
qed simp

lemma check_pending_wf:
  assumes "client_wf (fst cs)"
  shows "client_wf (fst (check_pending net u evs cs))"
proof -
  have "set (pending_reqs (fst (CheckPendingReq run d tk))) \<subseteq> set (pending_reqs d)" for run tk and d :: DurabilityLogERPCCli
    by (auto simp: CheckPendingReq_def Let_def split: list.splits)
  then show ?thesis
    using assms RunERPC_wf [OF assms, of net evs]
    by (auto simp: check_pending_def Let_def split: option.split prod.split intro!: client_wf_map_entry)
qed

lemma check_all_pending_wf: "client_wf (fst cs) \<Longrightarrow> client_wf (fst (check_all_pending net us evs cs))"
  by (induction net us evs cs rule: check_all_pending.induct) (simp_all add: check_pending_wf)

lemma AppendEntryQuorum_wait_wf:
  "client_wf (fst cs) \<Longrightarrow> AppendEntryQuorum_wait net us evs p ts cs = Some cs' \<Longrightarrow> client_wf (fst cs')"
proof (induction evs arbitrary: cs)
  case (Cons ev evs)
  then show ?case
    using check_all_pending_wf [OF Cons.prems(1), of net us ev] Cons.IH [of "check_all_pending net us ev cs"]
    by (auto simp: Let_def split: option.splits bool.splits)
qed simp

lemma AppendEntry_loop_wf:
  "client_wf c \<Longrightarrow> AppendEntry_loop net us e ns c sv = Some (ns', c', sv') \<Longrightarrow> client_wf c'"
proof (induction us arbitrary: ns c sv)
  case (Cons u us)
  then obtain d r d' s where d: "map_of (dur_clis c) u = Some d" "ERPCCli_AppendEntry (net u) d e (sv u) = Some (r, d', s)"
    by (auto split: option.splits if_splits)
  have "pending_reqs d' = pending_reqs d"
    by (rule read_calls_pending(1) [OF d(2)])
  then have "client_wf (c\<lparr>dur_clis := AList.update u d' (dur_clis c)\<rparr>)"
    using client_wf_update [OF Cons.prems(1)] client_wf_pending [OF Cons.prems(1) d(1)] by simp
  then show ?case using Cons.prems(2) Cons.IH d by (auto simp: Let_def split: if_splits)
qed simp

lemma Initialize_wf:
  assumes i: "LazyLogClient_Initialize addr connect connect_shard p th (snd (LazyLogClient_new rb i)) = Some (Inr (th', c))"
    and con: "\<And>s. pending_reqs (connect s) = []"
  shows "client_wf c"
proof -
  let ?D = "\<lambda>us al. fold (\<lambda>s. AList.update s (ERPCCli_InitializeConn p s (connect s))) us al"
  have D: "distinct (map fst (?D us al)) \<and> pending_ok (map_of (?D us al)) 0"
    if "distinct (map fst al)" "pending_ok (map_of al) 0" for us al
    using that
    by (induction us arbitrary: al) (simp_all add: distinct_update update_conv' pending_ok_update ERPCCli_InitializeConn_def con)
  have "pending_ok Map.empty 0" by (simp add: pending_ok_def)
  moreover have "\<exists>us. dur_clis c = ?D us [] \<and> lc_tokens c = [] \<and> lc_flight c = []"
    using i by (auto simp: LazyLogClient_Initialize_def LazyLogClient_new_def Let_def split: option.splits sum.splits prod.splits)
  ultimately show ?thesis using D [of "[]"] by (auto simp: client_wf_def flight_ok_def)
qed

lemma client_calls_wf:
  assumes wf: "client_wf c"
  shows "LazyLogClient_AppendEntry net us d c sv = Some (ns, c', sv') \<Longrightarrow> client_wf c'"
    and "AppendEntryQuorum net evq d c sv = Some (rid, c', sv') \<Longrightarrow> client_wf c'"
    and "AppendEntryAll net evs d c sv = Some (rid, c', sv') \<Longrightarrow> client_wf c'"
    and "LazyLogClient_ReadEntry snet idx c sh = Some (ok, x, c', sh') \<Longrightarrow> client_wf c'"
    and "LazyLogClient_SpecReadEntry net idx d c sv = Some (v, x, c', sv') \<Longrightarrow> client_wf c'"
    and "GetTail net c sv = Some (n, c', sv') \<Longrightarrow> client_wf c'"
proof -
  have s: "client_wf (c\<lparr>lc_seq := lc_seq c + 1\<rparr>)" using wf by simp
  show "LazyLogClient_AppendEntry net us d c sv = Some (ns, c', sv') \<Longrightarrow> client_wf c'"
    using AppendEntry_loop_wf [OF s] by (simp add: LazyLogClient_AppendEntry_def constructLogEntry_eq)
  show "AppendEntryQuorum net evq d c sv = Some (rid, c', sv') \<Longrightarrow> client_wf c'"
    using AppendEntryQuorum_send_wf [OF s] AppendEntryQuorum_wait_wf
    by (fastforce simp: AppendEntryQuorum_def constructLogEntry_eq Let_def split: option.splits)
  show "AppendEntryAll net evs d c sv = Some (rid, c', sv') \<Longrightarrow> client_wf c'"
    using AppendEntryAll_send_wf [OF s] AppendEntryAll_wait_wf
    by (fastforce simp: AppendEntryAll_def constructLogEntry_eq Let_def split: option.splits)
  show "LazyLogClient_ReadEntry snet idx c sh = Some (ok, x, c', sh') \<Longrightarrow> client_wf c'"
    using wf by (auto simp: LazyLogClient_ReadEntry_def split: option.splits)
  show "LazyLogClient_SpecReadEntry net idx d c sv = Some (v, x, c', sv') \<Longrightarrow> client_wf c'"
    using client_wf_update [OF wf] client_wf_pending [OF wf]
    by (auto simp: LazyLogClient_SpecReadEntry_def read_calls_pending Let_def simp del: map_of_eq_Some_iff split: option.splits)
  show "GetTail net c sv = Some (n, c', sv') \<Longrightarrow> client_wf c'"
    using client_wf_update [OF wf] client_wf_pending [OF wf]
    by (auto simp: GetTail_def read_calls_pending Let_def simp del: map_of_eq_Some_iff split: option.splits)
qed

section \<open>All runs of a client\<close>

inductive client_run ::
  "(string \<Rightarrow> 't net) \<Rightarrow> (int \<Rightarrow> 's net) \<Rightarrow> LazyLogClient \<times> (string \<Rightarrow> 't) \<times> (int \<Rightarrow> 's) \<Rightarrow> bool" for net snet where
  init: "LazyLogClient_Initialize addr connect connect_shard p th (snd (LazyLogClient_new rb i)) = Some (Inr (th', c)) \<Longrightarrow>
    (\<And>s. pending_reqs (connect s) = []) \<Longrightarrow> client_run net snet (c, sv, sh)"
| append: "client_run net snet (c, sv, sh) \<Longrightarrow> LazyLogClient_AppendEntry net us d c sv = Some (ns, c', sv') \<Longrightarrow>
    client_run net snet (c', sv', sh)"
| quorum: "client_run net snet (c, sv, sh) \<Longrightarrow> AppendEntryQuorum net evq d c sv = Some (rid, c', sv') \<Longrightarrow>
    client_run net snet (c', sv', sh)"
| all: "client_run net snet (c, sv, sh) \<Longrightarrow> AppendEntryAll net evs d c sv = Some (rid, c', sv') \<Longrightarrow>
    client_run net snet (c', sv', sh)"
| read: "client_run net snet (c, sv, sh) \<Longrightarrow> LazyLogClient_ReadEntry snet idx c sh = Some (ok, x, c', sh') \<Longrightarrow>
    client_run net snet (c', sv, sh')"
| spec: "client_run net snet (c, sv, sh) \<Longrightarrow> LazyLogClient_SpecReadEntry net idx d c sv = Some (v, x, c', sv') \<Longrightarrow>
    client_run net snet (c', sv', sh)"
| tail: "client_run net snet (c, sv, sh) \<Longrightarrow> GetTail net c sv = Some (n, c', sv') \<Longrightarrow> client_run net snet (c', sv', sh)"
| events: "client_run net snet (c, sv, sh) \<Longrightarrow> RunERPC net us (c, sv) = (c', sv') \<Longrightarrow> client_run net snet (c', sv', sh)"
| others: "client_run net snet (c, sv, sh) \<Longrightarrow> client_run net snet (c, sv', sh')"

lemma client_run_wf: "client_run net snet (c, sv, sh) \<Longrightarrow> client_wf c"
proof (induction "(c, sv, sh)" arbitrary: c sv sh rule: client_run.induct)
  case (events c sv sh us c' sv')
  then show ?case using RunERPC_wf [of "(c, sv)" net us] by simp
qed (blast intro: Initialize_wf client_calls_wf)+

lemma AppendEntryAll_send_total:
  assumes "client_wf c" "distinct us" "set us \<subseteq> fst ` set (dur_clis c)" "set us \<inter> fst ` set (lc_flight c) = {}"
  shows "\<exists>ts c'. AppendEntryAll_send us e c = Some (ts, c')"
  using assms
proof (induction us arbitrary: c)
  case (Cons u us)
  then obtain t c1 where s: "send_entry u e c = Some (t, c1)" using send_entry_wf(2) [of c u e] by auto
  have "fst ` set (dur_clis c1) = fst ` set (dur_clis c)" "fst ` set (lc_flight c1) = insert u (fst ` set (lc_flight c))"
    by (rule send_entry_SomeE [OF s], use Cons.prems(3) in \<open>simp add: dom_update insert_absorb\<close>)
      (rule send_entry_SomeE [OF s], simp)
  then obtain ts c' where "AppendEntryAll_send us e c1 = Some (ts, c')"
    using Cons.IH [of c1] send_entry_wf(1) [OF Cons.prems(1) s] Cons.prems by auto
  then show ?case using s by simp
qed simp


section \<open>Witnesses\<close>

definition sample_props :: Properties where
  "sample_props = [''dur_log.server_uri'' \<mapsto> ''p,b'', ''dur_log.primary_uri'' \<mapsto> ''p'', ''shard.num'' \<mapsto> ''1'']"

definition started_client :: "(exn + byte \<times> LazyLogClient) option" where
  "started_client = LazyLogClient_Initialize 0 (\<lambda>_. sample_conn False) (\<lambda>_ _. fresh_client) sample_props 0
     (snd (LazyLogClient_new (NaiveReadBackend_new 0) 9))"

lemma started_client_ok:
  "case started_client of
     Some (Inr (_, c)) \<Rightarrow> map fst (dur_clis c) = [''p'', ''b''] \<and> lc_flight c = [] \<and> maj_threshold c = 2
   | _ \<Rightarrow> False"
  by code_simp


end
