(* ===== verification/Kv.thy ===== *)
theory Kv
  imports Client
begin

text \<open>
  The key-value store on top of the log, from \<^verbatim>\<open>src/src/app/ll_kv.cc\<close>. An insert is appended to the log by
  \<^verbatim>\<open>InsertHandler\<close>, with a last byte that names the operation. The play-log thread reads the ordered entries one
  after the other and applies them to the map \<^verbatim>\<open>kv_store_\<close>, from which \<^verbatim>\<open>ReadHandler\<close> answers. Keys and values
  are byte lists, the static variables of the class are a record, and one pass of the loop of \<^verbatim>\<open>playlog_func\<close>
  is \<open>play_pass\<close>. The elapsed time of an append is an argument. \<open>None\<close> is undefined behaviour of the source (an access
  outside of a string) or a call of the client that does not return.
\<close>

section \<open>The model\<close>

definition KV_INSERT :: byte where "KV_INSERT = 41"

definition KV_READ :: byte where "KV_READ = 42"

record KVTransport =
  kv_store :: "byte list \<rightharpoonup> byte list"
  next_idx :: u64
  total_append_time :: u64
  total_appned :: u64

definition KVTransport_new :: KVTransport where
  "KVTransport_new = \<lparr>kv_store = Map.empty, next_idx = 0, total_append_time = 0, total_appned = 0\<rparr>"

definition DeserializeKey :: "mem \<Rightarrow> nat \<Rightarrow> byte list" where
  "DeserializeKey m p = (let len = get_le m p :: u32 in bytes_at m (p + 4) (unat len))"

definition play_entry :: "byte list \<Rightarrow> KVTransport \<Rightarrow> KVTransport option" where
  "play_entry d kv =
     (if d = [] then None
      else if last d = KV_INSERT then
        if length d < 4 \<or> length d < 4 + unat (get_le (mapped d) 0 :: u32) then None
        else let key = DeserializeKey (mapped d) 0;
                 offset = length key + 4;
                 val = take (length d - offset - 1) (drop offset d)
             in Some (kv\<lparr>kv_store := (kv_store kv)(key \<mapsto> val)\<rparr>)
      else Some kv)"

fun play_entries ::
  "nat \<Rightarrow> (int \<Rightarrow> 's net) \<Rightarrow> u64 \<Rightarrow> KVTransport \<Rightarrow> LazyLogClient \<Rightarrow> (int \<Rightarrow> 's) \<Rightarrow>
    (KVTransport \<times> LazyLogClient \<times> (int \<Rightarrow> 's)) option" where
  "play_entries 0 snet i kv c sh = Some (kv, c, sh)"
| "play_entries (Suc n) snet i kv c sh =
     (case LazyLogClient_ReadEntry snet i c sh of
        None \<Rightarrow> None
      | Some (ret, d, c, sh) \<Rightarrow>
          (case play_entry d kv of None \<Rightarrow> None | Some kv \<Rightarrow> play_entries n snet (i + 1) kv c sh))"

definition play_pass ::
  "(string \<Rightarrow> 't net) \<Rightarrow> (int \<Rightarrow> 's net) \<Rightarrow> KVTransport \<Rightarrow> LazyLogClient \<Rightarrow> (string \<Rightarrow> 't) \<Rightarrow> (int \<Rightarrow> 's) \<Rightarrow>
    (KVTransport \<times> LazyLogClient \<times> (string \<Rightarrow> 't) \<times> (int \<Rightarrow> 's)) option" where
  "play_pass net snet kv c sv sh =
     (case GetTail net c sv of
        None \<Rightarrow> None
      | Some ((_, tail, _), c, sv) \<Rightarrow>
          (case play_entries (unat tail - unat (next_idx kv)) snet (next_idx kv) kv c sh of
             None \<Rightarrow> None
           | Some (kv, c, sh) \<Rightarrow> Some (kv\<lparr>next_idx := tail\<rparr>, c, sv, sh)))"

definition insert_data :: "MsgBuffer \<Rightarrow> byte list" where
  "insert_data req = bytes_at (write_bytes (buf req) (data_size req) [KV_INSERT]) 0 (data_size req + 1)"

definition InsertHandler ::
  "(string \<Rightarrow> 't net) \<Rightarrow> string list list \<Rightarrow> u64 \<Rightarrow> MsgBuffer \<Rightarrow> MsgBuffer \<Rightarrow> KVTransport \<Rightarrow> LazyLogClient \<Rightarrow> (string \<Rightarrow> 't) \<Rightarrow>
    (MsgBuffer \<times> KVTransport \<times> LazyLogClient \<times> (string \<Rightarrow> 't)) option" where
  "InsertHandler net evs elapsed resp req kv c sv =
     (case AppendEntryAll net evs (insert_data req) c sv of
        None \<Rightarrow> None
      | Some (_, c, sv) \<Rightarrow>
          Some (resize_msg_buffer (resp\<lparr>buf := put_le (buf resp) 0 (0 :: u32)\<rparr>) 4,
                kv\<lparr>total_append_time := total_append_time kv + elapsed, total_appned := total_appned kv + 1\<rparr>, c, sv))"

definition UpdateHandler ::
  "(string \<Rightarrow> 't net) \<Rightarrow> string list list \<Rightarrow> u64 \<Rightarrow> MsgBuffer \<Rightarrow> MsgBuffer \<Rightarrow> KVTransport \<Rightarrow> LazyLogClient \<Rightarrow> (string \<Rightarrow> 't) \<Rightarrow>
    (MsgBuffer \<times> KVTransport \<times> LazyLogClient \<times> (string \<Rightarrow> 't)) option" where
  "UpdateHandler = InsertHandler"

definition ReadHandler :: "MsgBuffer \<Rightarrow> MsgBuffer \<Rightarrow> KVTransport \<Rightarrow> MsgBuffer" where
  "ReadHandler resp req kv =
     (case kv_store kv (DeserializeKey (buf req) 0) of
        Some val \<Rightarrow>
          (let resp = resize_msg_buffer resp (length val + 4)
           in resp\<lparr>buf := write_bytes (put_le (buf resp) 0 (0 :: u32)) 4 val\<rparr>)
      | None \<Rightarrow> (let resp = resize_msg_buffer resp 4 in resp\<lparr>buf := put_le (buf resp) 0 (2 :: u32)\<rparr>))"

section \<open>The contents of entries\<close>

text \<open>The requests of the clients of the store, and the payload of the log entry of an insert.\<close>

definition key_at :: "MsgBuffer \<Rightarrow> byte list \<Rightarrow> bool" where
  "key_at req k \<longleftrightarrow> length k < 2 ^ 32 \<and>
     bytes_at (buf req) 0 (4 + length k) = le_bytes (of_nat (length k) :: u32) @ k"

definition insert_request :: "MsgBuffer \<Rightarrow> byte list \<Rightarrow> byte list \<Rightarrow> bool" where
  "insert_request req k v \<longleftrightarrow> length k < 2 ^ 32 \<and> data_size req = 4 + length k + length v \<and>
     bytes_at (buf req) 0 (data_size req) = le_bytes (of_nat (length k) :: u32) @ k @ v"

definition kv_data :: "byte list \<times> byte list \<Rightarrow> byte list" where
  "kv_data kv = le_bytes (of_nat (length (fst kv)) :: u32) @ fst kv @ snd kv @ [KV_INSERT]"

lemma DeserializeKey_eq:
  assumes "length k < 2 ^ 32" "bytes_at m p (4 + length k) = le_bytes (of_nat (length k) :: u32) @ k"
  shows "get_le m p = (of_nat (length k) :: u32)" "DeserializeKey m p = k"
proof -
  show l: "get_le m p = (of_nat (length k) :: u32)"
    using get_le_eq_word [of 0 "4 + length k" m p, where ?'a = 32] assms(2) by (simp add: le_word_le_bytes)
  have "bytes_at m (p + 4) (length k) = k"
    using bytes_at_append [of m p 4 "length k"] assms(2) by simp
  then show "DeserializeKey m p = k"
    using l assms(1) by (simp add: DeserializeKey_def unat_of_nat_small)
qed

lemma insert_data_eq: "insert_request req k v \<Longrightarrow> insert_data req = kv_data (k, v)"
  unfolding insert_data_def bytes_at_append
  by (auto simp: insert_request_def kv_data_def bytes_at_def [of _ _ 1])

lemma length_kv_data [simp]: "length (kv_data kv) = length (fst kv) + length (snd kv) + 5"
  by (simp add: kv_data_def)

lemma play_entry_kv_data:
  assumes "length k < 2 ^ 32"
  shows "play_entry (kv_data (k, v)) st = Some (st\<lparr>kv_store := (kv_store st)(k \<mapsto> v)\<rparr>)"
proof -
  let ?d = "kv_data (k, v)"
  have "bytes_at (mapped ?d) 0 (4 + length k) = take (4 + length k) ?d"
    by (rule nth_equalityI) simp_all
  also have "\<dots> = le_bytes (of_nat (length k) :: u32) @ k" by (simp add: kv_data_def)
  finally have k: "get_le (mapped ?d) 0 = (of_nat (length k) :: u32)" "DeserializeKey (mapped ?d) 0 = k"
    using DeserializeKey_eq [OF assms] by blast+
  have "drop (length k + 4) ?d = v @ [KV_INSERT]" by (simp add: kv_data_def)
  moreover have "?d \<noteq> []" "last ?d = KV_INSERT" by (simp_all add: kv_data_def)
  ultimately show ?thesis
    using assms by (simp add: play_entry_def k Let_def unat_of_nat_small)
qed

lemma ReadHandler_ok:
  assumes "key_at req k"
  shows "kv_store kv k = Some v \<Longrightarrow> data_size (ReadHandler resp req kv) = length v + 4 \<and>
      get_le (buf (ReadHandler resp req kv)) 0 = (0 :: u32) \<and> bytes_at (buf (ReadHandler resp req kv)) 4 (length v) = v"
    and "kv_store kv k = None \<Longrightarrow> data_size (ReadHandler resp req kv) = 4 \<and> get_le (buf (ReadHandler resp req kv)) 0 = (2 :: u32)"
  using DeserializeKey_eq(2) [of k "buf req" 0] assms
  by (simp_all add: key_at_def ReadHandler_def Let_def resize_msg_buffer_def)

section \<open>Playing the log\<close>

text \<open>The log holds the inserts \<open>ps\<close>, in their order.\<close>

definition kv_log :: "(byte list \<times> byte list) list \<Rightarrow> LogEntry list \<Rightarrow> bool" where
  "kv_log ps L \<longleftrightarrow> list_all2 (\<lambda>p e. data e = kv_data p \<and> length (fst p) < 2 ^ 32) ps L"

lemma play_entries_ok:
  assumes cl: "shard_cluster snet bnet r0 r1" and "cluster_stores L n g (as_backend (be_rd_cli c), sh)" and kv: "kv_log ps L"
    and "unat i + m \<le> n" "unat i + m \<le> Suc g"
  shows "\<exists>c' sh'. play_entries m snet i st c sh =
      Some (st\<lparr>kv_store := map_updates (kv_store st) (take m (drop (unat i) ps))\<rparr>, c', sh')"
  using assms(2, 4, 5)
proof (induction m arbitrary: i st c sh)
  case (Suc m)
  note L = cluster_stores_bounds(1, 2) [OF Suc.prems(1)]
  have i: "unat i < length L" "unat i < length ps" using Suc.prems(2) L(1) kv by (auto simp: kv_log_def dest: list_all2_lengthD)
  obtain c1 sh1 where r: "LazyLogClient_ReadEntry snet i c sh = Some (True, data (L ! unat i), c1, sh1)"
    "cluster_stores L n g (as_backend (be_rd_cli c1), sh1)"
    using LazyLogClient_ReadEntry_ok(1) [OF cl Suc.prems(1), of i] Suc.prems(2, 3) by auto
  obtain k v where kv': "ps ! unat i = (k, v)" by fastforce
  have "data (L ! unat i) = kv_data (k, v)" "length k < 2 ^ 32"
    using list_all2_nthD [OF kv [unfolded kv_log_def] i(2)] kv' by simp_all
  define f where "f = (kv_store st)(k \<mapsto> v)"
  have p: "play_entry (data (L ! unat i)) st = Some (st\<lparr>kv_store := f\<rparr>)"
    using play_entry_kv_data \<open>data (L ! unat i) = kv_data (k, v)\<close> \<open>length k < 2 ^ 32\<close> by (simp add: f_def)
  have u: "unat (i + 1) = unat i + 1"
    using i(1) L(2) by (subst unat_add_small) simp_all
  have t: "take (Suc m) (drop (unat i) ps) = (k, v) # take m (drop (Suc (unat i)) ps)"
    using i(2) kv' by (simp add: Cons_nth_drop_Suc [symmetric])
  obtain c' sh' where "play_entries m snet (i + 1) (st\<lparr>kv_store := f\<rparr>) c1 sh1 =
      Some (st\<lparr>kv_store := map_updates f (take m (drop (Suc (unat i)) ps))\<rparr>, c', sh')"
    using Suc.IH [OF r(2), of "i + 1" "st\<lparr>kv_store := f\<rparr>"] Suc.prems(2, 3) unfolding u by auto
  then show ?case using r(1) p unfolding t by (simp add: f_def)
qed simp

lemma play_pass_ok:
  assumes cl: "shard_cluster snet bnet r0 r1" "cluster_stores L n g (as_backend (be_rd_cli c), sh)" and kv: "kv_log ps L"
    and net: "serves (net (dl_primary c)) GET_N_DUR_ENTRY (GetNumDurEntryHandler resp0)"
    and p: "map_of (dur_clis c) (dl_primary c) \<noteq> None" "flat_inv (sv (dl_primary c)) es k"
    and k: "k \<le> n" "k \<le> Suc g"
    and st: "kv_store st = map_updates Map.empty (take j ps)" "next_idx st = of_nat j" "j \<le> k"
  shows "\<exists>st' c' sh'. play_pass net snet st c sv sh = Some (st', c', sv, sh') \<and>
    kv_store st' = map_updates Map.empty (take k ps) \<and> next_idx st' = of_nat k"
proof -
  note L = cluster_stores_bounds(1, 2) [OF cl(2)]
  have u: "unat (of_nat j :: u64) = j" "unat (of_nat k :: u64) = k"
    using L st(3) k(1) by (simp_all add: unat_of_nat_small)
  obtain c1 where t: "GetTail net c sv = Some ((of_nat (length es), of_nat k, dl_view (sv (dl_primary c))), c1, sv)"
    "be_rd_cli c1 = be_rd_cli c"
    using GetTail_ok [where net = net and sv = sv and c = c, OF net p] by blast
  obtain c' sh' where r: "play_entries (k - j) snet (of_nat j) st c1 sh =
      Some (st\<lparr>kv_store := map_updates (kv_store st) (take (k - j) (drop j ps))\<rparr>, c', sh')"
    using play_entries_ok [OF cl(1), of L n g c1 sh ps "of_nat j" "k - j" st] cl(2) kv k st(3) t(2) u(1) by auto
  have "take k ps = take j ps @ take (k - j) (drop j ps)" using st(3) by (metis le_add_diff_inverse take_add)
  then show ?thesis using t(1) r st(1, 2) u by (simp add: play_pass_def map_updates_append)
qed

end
