(* ===== verification/Spec2Isabelle.thy ===== *)
theory Spec2Isabelle
  imports History Endpoint Rate_Limit Kafka Pipeline Shard_Steps Shard_Unopt Corfu_Client Client_Runs Kv
begin

text \<open>
  A verification development for LazyLog, a shared log with lazy ordering.

  \<^bold>\<open>The program.\<close> A client (\<^verbatim>\<open>src/src/client\<close>) sends each entry to all durability servers
  (\<^verbatim>\<open>src/src/dur_log\<close>), one of which is the primary; an append is done when every server has stored the entry,
  before it has a place in the log. The consensus log (\<^verbatim>\<open>src/src/cons_log\<close>) fetches the unordered entries of the primary by
  RDMA, stores them in the order of the primary on the storage shards (\<^verbatim>\<open>src/src/cons_log/storage\<close>), tells the durability
  servers which entries are ordered, so that these drop them, and publishes the last index to the shards. Readers ask the shards,
  which answer once an entry is replicated and published. A key-value store (\<^verbatim>\<open>src/src/app\<close>) runs on top of the client library.
  The compile-time option \<^verbatim>\<open>CORFU\<close> replaces the append by one that takes an index from the primary and writes to the shards.

  \<^bold>\<open>Theories.\<close> Definitions keep the names of the code; the manifest gives file and lines of each.

  \<^item> \<open>Prelude\<close>: words, memory as bytes, little-endian access, arithmetic progressions.
  \<^item> \<open>Log_Entry\<close> (\<^verbatim>\<open>rpc/log_entry\<close>): the entry, its packed image, all serializers and deserializers. Round trips, sizes, and
    that nothing outside the message is written; the locale \<open>stream_writer\<close> proves the loops once for entries and request ids.
  \<^item> \<open>Utils\<close> (\<^verbatim>\<open>utils/properties\<close>, \<^verbatim>\<open>utils.h\<close>, \<^verbatim>\<open>sequencer\<close>): counter, strings, property files, command line.
    \<open>Rate_Limit\<close> (\<^verbatim>\<open>utils/ratelimit.h\<close>): the token bucket in 64-bit arithmetic; it keeps its rate.
  \<^item> \<open>Rpc\<close> (\<^verbatim>\<open>rpc/common.h\<close>, \<^verbatim>\<open>rpc_token\<close>, \<^verbatim>\<open>rpc_factory\<close>): message types, buffers, tokens, transport registry, and the
    contract \<open>serves\<close> of the network. \<open>Endpoint\<close> (\<^verbatim>\<open>rpc/erpc_transport\<close> and its users): the life of the eRPC objects of a
    process through all connections, server threads and shutdowns; the locale \<open>endpoint\<close> is the contract of one use, interpreted
    for each kind, and the step relation \<open>process\<close> composes them.
  \<^item> \<open>Dur_Log\<close> (\<^verbatim>\<open>dur_log/dur_log\<close>, \<^verbatim>\<open>dur_log_mock\<close>) and \<open>Dur_Log_Flat\<close> (\<^verbatim>\<open>dur_log/dur_log_flat\<close>): the log of a
    durability server as a hash map and as a ring in a memory region. The invariant \<open>flat_inv\<close> relates the ring to the list of all
    entries; each operation refines an operation on that list.
  \<^item> \<open>Dur_Server\<close> (\<^verbatim>\<open>dur_log/erpc_dl_transport\<close>) and \<open>Dur_Cli\<close> (\<^verbatim>\<open>dur_log/dur_log_erpc_cli\<close>, \<^verbatim>\<open>dur_log_flat_cli\<close>): handlers,
    RPC stubs and the RDMA client; the fetch returns exactly the unordered entries that fit.
  \<^item> \<open>Posix\<close>: files and descriptors as the shards use them. \<open>Shard_Client\<close>, \<open>Shard_Server\<close>, \<open>Shard_Log\<close>, \<open>Shard_Steps\<close>
    (\<^verbatim>\<open>storage/shard_client\<close>, \<^verbatim>\<open>storage/shard_server\<close>): stubs and handlers; which part of the log a shard holds, in memory and in
    its files; and the critical sections of the threads as the step relation \<open>shard_step\<close>, in which readers see only what the
    primary and all backups have stored. \<open>Shard_Unopt\<close> (\<^verbatim>\<open>storage/shard_server_wo_opt\<close>): the shard without a cache, which
    simulates the other one. \<open>Shard_Corfu\<close> and \<open>Corfu_Client\<close>: the build with \<^verbatim>\<open>CORFU\<close>.
  \<^item> \<open>Backend\<close> (\<^verbatim>\<open>storage/naive_backend\<close>, \<^verbatim>\<open>storage/storage_backend.h\<close>): striping over the shards. The locale
    \<open>log_backend\<close> is what the consensus log relies on; \<open>shard_cluster\<close> proves it for shards with backups. \<open>Kafka\<close>
    (\<^verbatim>\<open>storage/kafka_backend\<close>): the other backend.
  \<^item> \<open>Cons_Log\<close> (\<^verbatim>\<open>cons_log/cons_log\<close>, \<^verbatim>\<open>cons_log/erpc_cl_transport\<close>): a round, and sequences of rounds; the locale \<open>ordering\<close>
    extends \<open>log_backend\<close>. \<open>Pipeline\<close>: the fetch thread and the store thread with their two buffers as the step relation
    \<open>pipe_step\<close>; safety and absence of deadlock.
  \<^item> \<open>Client\<close> (\<^verbatim>\<open>client/lazylog_cli\<close>): set-up, appends, reads and the polling loops, over the locale \<open>append_service\<close>.
    \<open>Client_Runs\<close>: sequences of calls. \<open>History\<close> (\<^verbatim>\<open>client/basic_client.cc\<close>): the histories recorded for a checker.
  \<^item> \<open>Kv\<close> (\<^verbatim>\<open>app/ll_kv\<close>): the handlers of the store and the replay of the log.
  \<^item> This theory composes all parts: an insert that the store has answered is on all durability servers, the rounds of the
    consensus log order it and make it readable, and after a pass of the replay a read returns the inserted value.

  \<^bold>\<open>How the code is represented.\<close> Classes are records and methods functions on them; machine integers are words and wrap around as in
  the code, \<^verbatim>\<open>int\<close> is the type of integers with its limits stated where they matter. A result of type \<open>option\<close> is \<open>None\<close> where the
  code has undefined behaviour, runs forever or waits for another thread; exceptions are the left side of a sum. A theorem
  that says that a function gives \<open>Some\<close> therefore also says that the code returns.

  \<^bold>\<open>Loops and bounds.\<close> Loops that need not end are \<open>partial_function (option)\<close>, and the lemmas on them show that they return under the
  invariants; no loop is cut off by a fuel argument. A polling loop of the client takes the list of answers that arrive while it
  polls: it returns exactly when that list has the answers it waits for. Theorems on many entries assume that the total size of the
  log stays below \<open>2 ^ 64\<close> bytes and that a batch has fewer than \<open>2 ^ 32\<close> entries, the ranges of the counters in the code.
  The number of rounds in \<open>run_rounds_drain\<close> is the number of unordered entries: each round stores at least one.

  \<^bold>\<open>Parameters.\<close> eRPC, the RDMA library, the Kafka producer and the clock are not part of the repository. eRPC is a function from
  requests to responses that satisfies \<open>serves\<close>; RDMA operations satisfy \<open>rdma_ok\<close>; clock values, elapsed times,
  random numbers and session numbers are arguments. The witnesses instantiate them by concrete functions.

  \<^bold>\<open>Not modelled.\<close> Registering handlers, starting and joining threads, the event loops of eRPC and signal handling have no state of the
  log; the thread functions are modelled up to and after their loops. Log output, statistics in floating point, the
  main programs of the servers, the benchmarks (\<^verbatim>\<open>src/src/benchmark\<close>, \<^verbatim>\<open>client/benchmarking\<close>, \<^verbatim>\<open>basic_backend\<close>, \<^verbatim>\<open>basic_backend_read\<close>,
  \<^verbatim>\<open>basic_flat_cli\<close>) and the unit tests are left out, as is \<^verbatim>\<open>backgroundFsync\<close>, since the file model does not distinguish written from
  flushed data: crashes of the operating system are outside the model. Appends of several threads of one durability server are modelled
  one after the other; interleavings inside \<^verbatim>\<open>AppendEntry\<close>, and weak memory effects in general, are not covered. View changes are not implemented in the code.
\<close>

section \<open>From an insert to a read\<close>

lemma dl_append_simps [simp]:
  "is_primary (dl_append st e) = is_primary st" "wait (dl_append st e) = wait st" "rg_size (dl_append st e) = rg_size st"
  by (simp_all add: dl_append_def append_state_def Let_def)

text \<open>An entry that a client has appended to all servers keeps the servers ready for the consensus log.\<close>

lemma servers_ok_append_all:
  assumes ok: "servers_ok es k bs kb cl sv" and e: "wf_entry e" "tsz es + esz e + 2 ^ 32 \<le> 2 ^ 64"
    and pri: "dl_room e es k (sv (pri_dur_cli cl))"
    and bak: "\<And>u. u \<in> fst ` set (dur_cli cl) \<Longrightarrow> u \<noteq> pri_dur_cli cl \<Longrightarrow> dl_room e (bs u) (kb u) (sv u)"
    and sv': "\<And>u. u \<in> fst ` set (dur_cli cl) \<Longrightarrow> sv' u = dl_append (sv u) e"
  shows "\<exists>x bs'. servers_ok (es @ [x]) k bs' kb cl sv' \<and> data x = data e \<and> reqid x = reqid e \<and> esz x = esz e"
proof -
  let ?p = "pri_dur_cli cl"
  define x where "x u fs = e\<lparr>log_idx := of_nat (length fs), view := dl_view (sv u), flags := 1\<rparr>" for u :: string and fs :: "LogEntry list"
  have sz: "esz (x u fs) = esz e" for u fs by (simp add: x_def esz_def)
  obtain c where c: "map_of (dur_cli cl) ?p = Some c" "primary_ok es k c (sv ?p)" using ok by (auto simp: servers_ok_def)
  have u: "u \<in> fst ` set (dur_cli cl)" if "map_of (dur_cli cl) u = Some c" for u c
    using that by (metis domI dom_map_of_conv_image_fst)
  have app: "flat_inv (sv' u) (fs @ [x u fs]) j" if "u \<in> fst ` set (dur_cli cl)" "dl_room e fs j (sv u)" for u fs j
    using dl_append_ok(2) [OF that(2) entry_msg_Serializer [OF e(1)]] sv' [OF that(1)] by (simp add: x_def)
  have "primary_ok (es @ [x ?p es]) k c (sv' ?p)"
  proof -
    have k: "k \<le> length es" using pri by (simp add: dl_room_def flat_inv_def)
    show ?thesis
      using c(2) e(2) pri app [OF u [OF c(1)] pri] sv' [OF u [OF c(1)]] k
      by (simp add: primary_ok_def dl_room_def sz connected_def)
  qed
  moreover have "backup_ok (bs v @ [x v (bs v)]) (kb v) d (sv' v)" if v: "map_of (dur_cli cl) v = Some d" "v \<noteq> ?p" for v d
  proof -
    have b: "backup_ok (bs v) (kb v) d (sv v)" using ok v by (simp add: servers_ok_def)
    have rm: "dl_room e (bs v) (kb v) (sv v)" by (rule bak [OF u [OF v(1)] v(2)])
    then have k: "kb v \<le> length (bs v)" by (simp add: dl_room_def flat_inv_def)
    show ?thesis
      using b rm app [OF u [OF v(1)] rm] sv' [OF u [OF v(1)]] k by (simp add: backup_ok_def dl_room_def sz)
  qed
  ultimately have "servers_ok (es @ [x ?p es]) k (\<lambda>v. bs v @ [x v (bs v)]) kb cl sv'"
    using ok c(1) by (auto simp: servers_ok_def)
  then show ?thesis by (intro exI [of _ "x ?p es"] exI [of _ "\<lambda>v. bs v @ [x v (bs v)]"]) (simp add: sz, simp add: x_def reqid_def)
qed

text \<open>A client that reads the log: it is connected to the primary and its read backend is configured like the
  backend of the consensus log.\<close>

definition reads_from :: "LazyLogClient \<Rightarrow> (NaiveBackend \<times> 's) ConsensusLog \<Rightarrow> bool" where
  "reads_from c cl \<longleftrightarrow> dl_primary c = pri_dur_cli cl \<and> map_of (dur_clis c) (dl_primary c) \<noteq> None \<and>
     rb_shard_num (be_rd_cli c) = nb_shard_num (fst (backend cl)) \<and>
     rb_stripe_unit_size (be_rd_cli c) = nb_stripe_unit_size (fst (backend cl)) \<and>
     (\<forall>i. shard_clients (fst (backend cl)) i \<noteq> None \<longrightarrow> rb_shard_clients (be_rd_cli c) i \<noteq> None)"

lemma reads_from_stores:
  assumes "reads_from c cl" "cluster_stores L n g (backend cl)"
  shows "cluster_stores L n g (as_backend (be_rd_cli c), snd (backend cl))"
  using cluster_stores_reader [of L n g "fst (backend cl)" "snd (backend cl)" "as_backend (be_rd_cli c)"] assms
  by (simp add: reads_from_def as_backend_def)

lemma kv_log_snoc: "kv_log ps L \<Longrightarrow> data x = kv_data p \<Longrightarrow> length (fst p) < 2 ^ 32 \<Longrightarrow> kv_log (ps @ [p]) (L @ [x])"
  unfolding kv_log_def by (rule list_all2_appendI) simp_all

lemma InsertHandler_appends:
  assumes net: "\<And>u. serves (net u) APPEND_ENTRY (AppendEntryHandler resp0)"
    and c: "distinct (map fst (dur_clis c))" "lc_flight c = []"
    and room: "\<And>u. u \<in> fst ` set (dur_clis c) \<Longrightarrow> \<exists>es k. dl_room (entry_of c (kv_data (key, v))) es k (sv u)"
    and ne: "dur_clis c \<noteq> []" and req: "insert_request req key v"
    and ins: "InsertHandler net evs t resp req kv c sv = Some (rs, kv', c', sv')"
  shows "\<And>u. u \<in> fst ` set (dur_clis c) \<Longrightarrow> sv' u = dl_append (sv u) (entry_of c (kv_data (key, v)))"
proof -
  obtain rid where r: "AppendEntryAll net evs (kv_data (key, v)) c sv = Some (rid, c', sv')"
    using ins by (auto simp: InsertHandler_def insert_data_eq [OF req] split: option.splits)
  obtain u where "u \<in> fst ` set (dur_clis c)" using ne by (cases "dur_clis c") auto
  then have wf: "wf_entry (entry_of c (kv_data (key, v)))" using room by (auto simp: dl_room_def)
  show "\<And>u. u \<in> fst ` set (dur_clis c) \<Longrightarrow> sv' u = dl_append (sv u) (entry_of c (kv_data (key, v)))"
    using append_service.AppendEntryAll_call(1) [OF dl_service [where net = net, OF net] c wf _ r] room by blast
qed

text \<open>The rounds of the consensus log store an insert that the handler has answered.\<close>

lemma insert_ordered:
  assumes net: "shard_cluster snet bnet r0 r1" "rdma_ok q"
      "\<And>u. serves (net u) DEL_ORDERED_ENTRIES (DeleteOrderedEntriesHandler resp0)"
      "\<And>u. serves (net u) APPEND_ENTRY (AppendEntryHandler resp0)"
    and s: "servers_ok es k bs kb cl sv" "cluster_stores es k g (backend cl)" "0 < k \<longrightarrow> g = k - 1"
    and c: "distinct (map fst (dur_clis c))" "lc_flight c = []" "fst ` set (dur_clis c) = fst ` set (dur_cli cl)"
    and pri: "dl_room (entry_of c (kv_data (key, v))) es k (sv (pri_dur_cli cl))"
    and bak: "\<And>u. u \<in> fst ` set (dur_cli cl) \<Longrightarrow> u \<noteq> pri_dur_cli cl \<Longrightarrow> dl_room (entry_of c (kv_data (key, v))) (bs u) (kb u) (sv u)"
    and lim: "tsz es + esz (entry_of c (kv_data (key, v))) + 2 ^ 32 \<le> 2 ^ 64"
      "max_fetch_size cl = 0 \<or> unat SAFE_RG_SIZE \<le> unat (max_fetch_size cl) \<and> (\<forall>e\<in>set es. esz e \<le> unat SAFE_RG_SIZE)"
    and ins: "insert_request req key v" "InsertHandler net evs t resp req kv0 c sv = Some (rs, kv1, c', sv')"
    and n: "Suc (length es) - k \<le> n"
  shows "\<exists>cl' sv'' x. run_rounds n (NaiveBackend_methods snet) q net ts cl sv' = Some (cl', sv'') \<and> data x = kv_data (key, v) \<and>
    flat_inv (sv'' (pri_dur_cli cl')) (es @ [x]) (Suc (length es)) \<and> cluster_stores (es @ [x]) (Suc (length es)) (length es) (backend cl')"
proof -
  let ?e = "entry_of c (kv_data (key, v))"
  have e: "wf_entry ?e" "esz ?e \<le> unat SAFE_RG_SIZE" using pri by (simp_all add: dl_room_def)
  have p: "pri_dur_cli cl \<in> fst ` set (dur_cli cl)" using s(1) by (force simp: servers_ok_def dest: map_of_SomeD)
  have room: "\<exists>es k. dl_room ?e es k (sv u)" if "u \<in> fst ` set (dur_clis c)" for u
    using pri bak [of u] that unfolding c(3) by metis
  have "dur_clis c \<noteq> []" using p c(3) by auto
  note sv' = InsertHandler_appends [where net = net, OF net(4) c(1, 2) room this ins]
  obtain x bs' where x: "servers_ok (es @ [x]) k bs' kb cl sv'" "data x = kv_data (key, v)" "esz x = esz ?e"
    using servers_ok_append_all [OF s(1) e(1) lim(1) pri bak sv', unfolded c(3)] by auto
  note o = ordering_cluster [where net = net, OF net(1-3)]
  obtain d where "primary_ok (es @ [x]) k d (sv' (pri_dur_cli cl))" using x(1) by (auto simp: servers_ok_def)
  note l = primary_log_ok [OF this]
  have st: "cluster_stores (es @ [x]) k g (backend cl)" by (rule log_backend.stores_grow [OF ordering.axioms(1) [OF o] s(2) l])
  have mx: "max_fetch_size cl = 0 \<or> (\<forall>e\<in>set (es @ [x]). esz e \<le> unat (max_fetch_size cl))" using lim(2) x(3) e(2) by fastforce
  have n': "length (es @ [x]) - k \<le> n" using n by simp
  obtain cl' sv'' kb' where r: "run_rounds n (NaiveBackend_methods snet) q net ts cl sv' = Some (cl', sv'')"
    "servers_ok (es @ [x]) (Suc (length es)) bs' kb' cl' sv''" "cluster_stores (es @ [x]) (Suc (length es)) (length es) (backend cl')"
    using ordering.run_rounds_all [OF o x(1) st n' s(3) mx, of ts] by auto
  have "flat_inv (sv'' (pri_dur_cli cl')) (es @ [x]) (Suc (length es))" using r(2) by (auto simp: servers_ok_def primary_ok_def)
  then show ?thesis using r(1, 3) x(2) by blast
qed

text \<open>A pass of the play-log thread over a log whose last entry is an insert.\<close>

lemma replay_last_insert:
  assumes net: "shard_cluster snet bnet r0 r1" "\<And>u. serves (net u) GET_N_DUR_ENTRY (GetNumDurEntryHandler resp0)"
    and kv: "kv_log ps es" "data x = kv_data (key, v)" "length key < 2 ^ 32"
    and fl: "flat_inv (sv (pri_dur_cli cl)) (es @ [x]) (Suc (length es))"
    and st: "cluster_stores (es @ [x]) (Suc (length es)) (length es) (backend cl)"
    and rd: "reads_from rd cl" and j: "j \<le> length es" "kv_store kvs = map_updates Map.empty (take j ps)" "next_idx kvs = of_nat j"
  shows "\<exists>kvs' r' sh. play_pass net snet kvs rd sv (snd (backend cl)) = Some (kvs', r', sv, sh) \<and>
    kv_store kvs' = (map_updates Map.empty ps)(key \<mapsto> v)"
proof -
  have kvl: "kv_log (ps @ [(key, v)]) (es @ [x])" using kv_log_snoc [OF kv(1, 2)] kv(3) by simp
  have len: "length ps = length es" using kv(1) by (auto simp: kv_log_def dest: list_all2_lengthD)
  have q: "map_of (dur_clis rd) (dl_primary rd) \<noteq> None" "flat_inv (sv (dl_primary rd)) (es @ [x]) (Suc (length es))"
    using rd fl unfolding reads_from_def by metis+
  have t: "kv_store kvs = map_updates Map.empty (take j (ps @ [(key, v)]))" "j \<le> Suc (length es)" using j(1, 2) len by simp_all
  from play_pass_ok [where net = net and sv = sv, OF net(1) reads_from_stores [OF rd st] kvl net(2) q _ _ t(1) j(3) t(2)]
  show ?thesis using len by (auto simp: map_updates_append)
qed


section \<open>Witnesses\<close>

definition sample_dispatch :: "string \<Rightarrow> DurabilityLogFlat net" where
  "sample_dispatch u t =
     (if t = APPEND_ENTRY then AppendEntryHandler empty_msg
      else if t = DEL_ORDERED_ENTRIES then DeleteOrderedEntriesHandler empty_msg else GetNumDurEntryHandler empty_msg)"

definition sample_insert :: MsgBuffer where
  "sample_insert = empty_msg\<lparr>buf := mapped (le_bytes (1 :: u32) @ [7, 1, 2]), data_size := 7\<rparr>"

definition sample_get :: MsgBuffer where
  "sample_get = empty_msg\<lparr>buf := mapped (le_bytes (1 :: u32) @ [7]), data_size := 5\<rparr>"

definition sample_reader :: "(NaiveBackend \<times> 's) ConsensusLog \<Rightarrow> LazyLogClient" where
  "sample_reader cl = sample_client\<lparr>dur_clis := [(pri_dur_cli cl, sample_conn True)], dl_primary := pri_dur_cli cl,
     be_rd_cli := \<lparr>rb_stripe_unit_size = nb_stripe_unit_size (fst (backend cl)), rb_shard_num = nb_shard_num (fst (backend cl)),
       rb_thread_id = 0, rb_shard_clients = shard_clients (fst (backend cl))\<rparr>\<rparr>"

lemma sample_reader_reads: "reads_from (sample_reader cl) cl"
  by (simp add: reads_from_def sample_reader_def)

lemma sample_dispatch_serves:
  "serves (sample_dispatch u) APPEND_ENTRY (AppendEntryHandler empty_msg)"
  "serves (sample_dispatch u) DEL_ORDERED_ENTRIES (DeleteOrderedEntriesHandler empty_msg)"
  "serves (sample_dispatch u) GET_N_DUR_ENTRY (GetNumDurEntryHandler empty_msg)"
  unfolding serves_def sample_dispatch_def
  by (intro allI exI [of _ _] conjI; auto simp: APPEND_ENTRY_def DEL_ORDERED_ENTRIES_def GET_N_DUR_ENTRY_def split: option.split)+

lemma sample_keys: "insert_request sample_insert [7] [1, 2]" "key_at sample_get [7]"
proof -
  have m: "bytes_at (mapped xs) 0 (length xs) = xs" for xs by (rule nth_equalityI) simp_all
  show "insert_request sample_insert [7] [1, 2]" "key_at sample_get [7]"
    using m [of "le_bytes (1 :: u32) @ [7, 1, 2]"] m [of "le_bytes (1 :: u32) @ [7]"]
    by (simp_all add: insert_request_def key_at_def sample_insert_def sample_get_def)
qed

text \<open>A primary without entries and a backup that another client has appended to.\<close>

lemma sample_kv_system:
  "\<exists>sv. servers_ok [] 0 (\<lambda>_. sample_log) (\<lambda>_. 0) sample_cl sv \<and>
    dl_room (entry_of sample_client (kv_data ([7], [1, 2]))) [] 0 (sv ''p'') \<and>
    dl_room (entry_of sample_client (kv_data ([7], [1, 2]))) sample_log 0 (sv ''b'')"
proof -
  obtain b where b: "flat_inv b sample_log 0" "\<not> is_primary b" "rg_size b = 1048576" "wait b"
    using running_log [of 1048576 3 False] by auto
  have p: "flat_inv (fresh_log True 1048576) [] 0" using fresh_log_inv [of 1048576 True] by simp
  have e: "wf_entry (entry_of sample_client (kv_data ([7], [1, 2])))" "esz (entry_of sample_client (kv_data ([7], [1, 2]))) = 40"
    by (rule wf_entry_of, simp, simp add: esz_def align4_def)
  have "primary_ok [] 0 (sample_cli True 1048576) (fresh_log True 1048576)" "backup_ok sample_log 0 (sample_cli False 1048576) b"
    using p b by (simp_all add: primary_ok_def backup_ok_def)
  then have "servers_ok [] 0 (\<lambda>_. sample_log) (\<lambda>_. 0) sample_cl (\<lambda>u. if u = ''p'' then fresh_log True 1048576 else b)"
    by (auto simp: servers_ok_def sample_cl_def ConsensusLog_new_def)
  then show ?thesis
    using p b e by (intro exI [of _ "\<lambda>u. if u = ''p'' then fresh_log True 1048576 else b"])
      (simp add: dl_room_def SAFE_RG_SIZE_def PAGE_SIZE_def)
qed


end
